(* ===== verification/Prelude.thy ===== *)
theory Prelude
  imports Main "HOL-Library.Word" "HOL-Library.Monad_Syntax"
begin

text \<open>
  Shared vocabulary of the development: the machine types of the C code, checked array
  accesses, little-endian byte views of integers, and the generic lemmas (lists, words,
  circular distances) that the component theories use.

  Execution convention: a C function that can read or write out of bounds, halt or diverge
  is modelled in the option monad; \<^theory_text>\<open>None\<close> stands for "the C program has no
  defined result here". A result \<^theory_text>\<open>Some x\<close> is therefore also a statement of
  memory safety.
\<close>

unbundle bit_operations_syntax

section \<open>Machine types\<close>

type_synonym byte = "8 word"
type_synonym u16 = "16 word"
type_synonym u32 = "32 word"
type_synonym u64 = "64 word"
type_synonym size_t = "64 word"
type_synonym time_t = "64 word"
type_synonym device_t = "16 word"
type_synonym hash_t = "32 word"

text \<open>Addresses are naturals: an object never wraps around the end of the address space.\<close>

type_synonym addr = nat

abbreviation (input) NULL :: addr where
  "NULL \<equiv> 0"

text \<open>\<open>TIME_MAX\<close> of \<open>env/include/os/time.h\<close> is \<open>UINT64_MAX\<close>.\<close>

definition TIME_MAX :: time_t where
  "TIME_MAX = 0xFFFFFFFFFFFFFFFF"

named_theorems arr_simps \<open>checked array accesses\<close>
named_theorems word_arith_simps \<open>words read as natural numbers\<close>

section \<open>Checked arrays\<close>

text \<open>C arrays of known length; an access out of bounds has no defined result.\<close>

definition arr_get :: "'a list \<Rightarrow> size_t \<Rightarrow> 'a option" where
  "arr_get xs i = (if unat i < length xs then Some (xs ! unat i) else None)"

definition arr_set :: "'a list \<Rightarrow> size_t \<Rightarrow> 'a \<Rightarrow> 'a list option" where
  "arr_set xs i x = (if unat i < length xs then Some (xs[unat i := x]) else None)"

lemma arr_get_in [simp, arr_simps]: "unat i < length xs \<Longrightarrow> arr_get xs i = Some (xs ! unat i)"
  by (simp add: arr_get_def)

lemma arr_set_in [simp, arr_simps]: "unat i < length xs \<Longrightarrow> arr_set xs i x = Some (xs[unat i := x])"
  by (simp add: arr_set_def)

lemma arr_get_None_iff: "arr_get xs i = None \<longleftrightarrow> length xs \<le> unat i"
  by (simp add: arr_get_def not_less)

lemma arr_get_SomeD: "arr_get xs i = Some x \<Longrightarrow> unat i < length xs \<and> x = xs ! unat i"
  by (simp add: arr_get_def split: if_splits)

lemma arr_set_SomeD: "arr_set xs i x = Some ys \<Longrightarrow> unat i < length xs \<and> ys = xs[unat i := x]"
  by (auto simp add: arr_set_def split: if_splits)

lemma arr_set_length: "arr_set xs i x = Some ys \<Longrightarrow> length ys = length xs"
  by (auto dest: arr_set_SomeD)

lemma arr_get_set: "arr_set xs i x = Some ys \<Longrightarrow> arr_get ys j = (if j = i then Some x else arr_get xs j)"
  by (auto simp: arr_get_def arr_set_def nth_list_update word_unat_eq_iff split: if_splits)

section \<open>Words as counters\<close>

lemma unat_less_word_lemma [word_arith_simps]: "(i < c) \<longleftrightarrow> unat i < unat c" for i c :: "'a::len word"
  by (simp add: word_less_nat_alt)

lemma unat_Suc_word: "i < c \<Longrightarrow> unat (i + 1) = Suc (unat i)" for i c :: "'a::len word"
proof -
  assume "i < c"
  then have "unat i < unat c" by (simp add: word_less_nat_alt)
  moreover have "unat c < 2 ^ LENGTH('a)" by (rule unsigned_less)
  ultimately have "unat i + 1 < 2 ^ LENGTH('a)" by linarith
  then show ?thesis by (simp add: unat_word_ariths)
qed

text \<open>The measure of an upward word loop \<open>for (i = a; i < c; ++i)\<close>.\<close>

lemma word_loop_decreases [simp]:
  "i < c \<Longrightarrow> unat (c - (i + 1)) < unat (c - i)" for i c :: "'a::len word"
proof -
  assume lt: "i < c"
  then have "unat (i + 1) = Suc (unat i)" by (rule unat_Suc_word)
  moreover from lt have "unat i < unat c" by (simp add: word_less_nat_alt)
  ultimately have "i + 1 \<le> c" by (simp add: word_le_nat_alt)
  then have "unat (c - (i + 1)) = unat c - unat (i + 1)" by (rule unat_sub)
  moreover from lt have "unat (c - i) = unat c - unat i" by (intro unat_sub) simp
  ultimately show ?thesis using \<open>unat (i + 1) = Suc (unat i)\<close> \<open>unat i < unat c\<close> by simp
qed

lemma unat_pred_word: "0 < n \<Longrightarrow> unat n = Suc (unat (n - 1))" for n :: "'a::len word"
proof -
  assume "0 < n"
  then have n: "0 < unat n" by (simp add: word_less_nat_alt)
  then have "(1 :: 'a word) \<le> n" by (simp add: word_le_nat_alt)
  then have "unat (n - 1) = unat n - 1" by (simp add: unat_sub)
  with n show ?thesis by simp
qed

lemma unat_of_nat_less: "n < 2 ^ LENGTH('a) \<Longrightarrow> unat (of_nat n :: 'a::len word) = n"
  by (simp add: unat_of_nat take_bit_nat_eq_self)

lemma unat_of_nat64 [simp]: "n < 2 ^ 64 \<Longrightarrow> unat (of_nat n :: 64 word) = n"
  by (rule unat_of_nat_less) simp

lemma unat_lt64: "unat (x :: 64 word) < 2 ^ 64"
  using unsigned_less [of x] by simp

lemma unat_ucast_32_64 [simp]: "unat (ucast h :: 64 word) = unat h" for h :: "32 word"
proof -
  have "unat h < 2 ^ 32" using unsigned_less [of h] by simp
  then show ?thesis by (simp add: unsigned_ucast_eq take_bit_nat_eq_self)
qed

lemma unat_ucast_16_64 [simp]: "unat (ucast h :: 64 word) = unat h" for h :: "16 word"
proof -
  have "unat h < 2 ^ 16" using unsigned_less [of h] by simp
  then show ?thesis by (simp add: unsigned_ucast_eq take_bit_nat_eq_self)
qed

text \<open>Narrowing is a ring homomorphism.\<close>

lemma mod_add_narrow: "m dvd n \<Longrightarrow> (x mod n + y mod n) mod m = (x + y) mod m" for x y m n :: int
  by (metis mod_add_eq mod_mod_cancel)

lemma mod_diff_narrow: "m dvd n \<Longrightarrow> (x mod n - y mod n) mod m = (x - y) mod m" for x y m n :: int
  by (metis mod_diff_eq mod_mod_cancel)

lemma ucast_32_16:
  fixes x y :: u32
  shows "(ucast (x + y) :: u16) = ucast x + ucast y" "(ucast (x - y) :: u16) = ucast x - ucast y"
  by (transfer, simp add: take_bit_eq_mod mod_mod_cancel mod_add_narrow mod_diff_narrow)+

lemma ucast_16_32_16 [simp]: "(ucast (ucast c :: u32) :: u16) = c" for c :: u16
  by transfer simp

lemma pow2_mono: "k \<le> m \<Longrightarrow> (2::nat) ^ k \<le> 2 ^ m"
  by (rule power_increasing) simp_all

lemma and_pow2_minus_1:
  fixes x :: "'a::len word"
  assumes "unat c = 2 ^ k"
  shows "unat (x AND (c - 1)) = unat x mod 2 ^ k"
proof -
  have c: "c = word_of_nat (2 ^ k)"
    by (simp flip: assms)
  then have "c - 1 = mask k"
    by (simp add: mask_eq_decr_exp)
  then have "x AND (c - 1) = take_bit k x"
    by (simp add: take_bit_eq_mask)
  then have "unat (x AND (c - 1)) = take_bit k (unat x)"
    by (simp only: unsigned_take_bit_eq)
  then show ?thesis
    by (simp only: take_bit_eq_mod)
qed

lemma not_bit_beyond:
  fixes w :: "'a::len word"
  assumes "unat w < 2 ^ k" "k \<le> m"
  shows "\<not> bit w m"
proof -
  have "unat w < 2 ^ m" using assms(1) pow2_mono [OF assms(2)] by (rule less_le_trans)
  then have "unat w div 2 ^ m = 0" by simp
  then have "\<not> bit (unat w) m" by (simp add: bit_iff_odd)
  then show ?thesis by (simp add: bit_unsigned_iff)
qed

section \<open>Counting loops\<close>

text \<open>\<open>for (k = i; k < n; ++k)\<close> over a state, for bounds that are far from overflowing the counter.\<close>

function for_upto :: "nat \<Rightarrow> nat \<Rightarrow> (nat \<Rightarrow> 's \<Rightarrow> 's option) \<Rightarrow> 's \<Rightarrow> 's option" where
  "for_upto i n body s = (if i < n then do { s \<leftarrow> body i s; for_upto (i + 1) n body s } else Some s)"
  by pat_completeness auto
termination
  by (relation "measure (\<lambda>(i, n, body, s). n - i)") auto

declare for_upto.simps [simp del]

lemma for_upto_invariant:
  assumes "P i s" "i \<le> n"
    and "\<And>k s. i \<le> k \<Longrightarrow> k < n \<Longrightarrow> P k s \<Longrightarrow> \<exists>s'. body k s = Some s' \<and> P (Suc k) s'"
  shows "\<exists>s'. for_upto i n body s = Some s' \<and> P n s'"
  using assms
proof (induction "n - i" arbitrary: i s)
  case 0
  then show ?case by (subst for_upto.simps) simp
next
  case (Suc d)
  then have lt: "i < n" by simp
  then obtain s1 where s1: "body i s = Some s1" "P (Suc i) s1" using Suc.prems by blast
  have "\<exists>s'. for_upto (Suc i) n body s1 = Some s' \<and> P n s'"
    using Suc.hyps(1) [of "Suc i"] Suc.hyps(2) s1(2) lt Suc.prems(3) by simp
  then show ?case using lt s1(1) by (subst for_upto.simps) simp
qed

section \<open>Lists\<close>

lemma nth_list_update_in: "j < length xs \<Longrightarrow> xs[i := x] ! j = (if i = j then x else xs ! j)"
  by (metis nth_list_update_eq nth_list_update_neq)

lemma distinct_map_filter_nth:
  assumes "\<And>i j. i < length xs \<Longrightarrow> j < length xs \<Longrightarrow> P (xs ! i) \<Longrightarrow> P (xs ! j)
    \<Longrightarrow> f (xs ! i) = f (xs ! j) \<Longrightarrow> i = j"
  shows "distinct (map f (filter P xs))"
  using assms
proof (induction xs)
  case Nil
  then show ?case by simp
next
  case (Cons x xs)
  have "distinct (map f (filter P xs))"
  proof (rule Cons.IH)
    fix i j
    assume "i < length xs" "j < length xs" "P (xs ! i)" "P (xs ! j)" "f (xs ! i) = f (xs ! j)"
    then show "i = j" using Cons.prems [of "Suc i" "Suc j"] by simp
  qed
  moreover have "f x \<notin> f ` set (filter P xs)" if "P x"
  proof
    assume "f x \<in> f ` set (filter P xs)"
    then obtain j where "j < length xs" "P (xs ! j)" "f x = f (xs ! j)"
      by (auto simp: in_set_conv_nth)
    then show False using Cons.prems [of 0 "Suc j"] that by simp
  qed
  ultimately show ?case by simp
qed

section \<open>Circular distance\<close>

text \<open>
  Distance from \<open>a\<close> forward to \<open>b\<close> on a ring of \<open>n\<close> slots; shared by the hash map's probe
  sequences and the NIC's descriptor rings.
\<close>

definition cdist :: "nat \<Rightarrow> nat \<Rightarrow> nat \<Rightarrow> nat" where
  "cdist n a b = (b + n - a) mod n"

lemma cdist_less [simp]: "0 < n \<Longrightarrow> cdist n a b < n"
  by (simp add: cdist_def)

lemma cdist_add: "a < n \<Longrightarrow> t < n \<Longrightarrow> cdist n a ((a + t) mod n) = t"
  by (cases "a + t < n") (simp_all add: cdist_def mod_if)

lemma add_cdist: "a < n \<Longrightarrow> b < n \<Longrightarrow> (a + cdist n a b) mod n = b"
  by (cases "b < a") (auto simp: cdist_def mod_if)

lemma cdist_self [simp]: "a < n \<Longrightarrow> cdist n a a = 0"
  by (simp add: cdist_def)

lemma ring_add_inj:
  fixes a n s t :: nat
  assumes "a < n" "s < n" "t < n" "(a + s) mod n = (a + t) mod n"
  shows "s = t"
proof -
  have "cdist n a ((a + s) mod n) = s" using assms by (intro cdist_add)
  moreover have "cdist n a ((a + t) mod n) = t" using assms by (intro cdist_add)
  ultimately show ?thesis unfolding assms(4) by (rule trans [OF sym])
qed

end
