(* ===== verification/Os_Memory.thy ===== *)
theory Os_Memory
  imports Prelude
begin

text \<open>
  The memory primitives of the environment: \<open>env/include/os/memory.h\<close> (comparison, hash,
  copy) and the bump allocator \<open>env/src/os/memory_alloc.c\<close>. An object is seen as the list of
  its bytes; integers are little-endian, as on the x86-64 targets of the repository.
\<close>

section \<open>Little-endian views\<close>

fun le_bytes :: "nat \<Rightarrow> 'a::len word \<Rightarrow> byte list" where
  "le_bytes 0 w = []"
| "le_bytes (Suc n) w = ucast w # le_bytes n (drop_bit 8 w)"

fun le_word :: "byte list \<Rightarrow> 'a::len word" where
  "le_word [] = 0"
| "le_word (b # bs) = ucast b OR push_bit 8 (le_word bs)"

lemma length_le_bytes [simp]: "length (le_bytes n w) = n"
  by (induction n arbitrary: w) auto

lemma le_word_le_bytes: "le_word (le_bytes n w) = take_bit (8 * n) w" for w :: "'a::len word"
proof (induction n arbitrary: w)
  case 0
  then show ?case by simp
next
  case (Suc n)
  have "ucast (ucast w :: byte) OR push_bit 8 (take_bit (8 * n) (drop_bit 8 w)) = take_bit (8 * Suc n) w"
    by (rule bit_word_eqI) (auto simp: bit_simps)
  with Suc show ?case by simp
qed

lemma le_word_le_bytes_id [simp]:
  "LENGTH('a) \<le> 8 * n \<Longrightarrow> le_word (le_bytes n w) = w" for w :: "'a::len word"
  by (simp add: le_word_le_bytes take_bit_word_eq_self)

lemma le_bytes_inj:
  "LENGTH('a) \<le> 8 * n \<Longrightarrow> le_bytes n v = le_bytes n w \<Longrightarrow> v = w" for v w :: "'a::len word"
  by (metis le_word_le_bytes_id)

lemma le_bytes_le_word:
  "8 * length bs \<le> LENGTH('a) \<Longrightarrow> le_bytes (length bs) (le_word bs :: 'a::len word) = bs"
proof (induction bs)
  case Nil
  then show ?case by simp
next
  case (Cons b bs)
  let ?w = "le_word bs :: 'a word"
  have small: "?w = take_bit (8 * length bs) ?w"
    using Cons by (metis Suc_leD add_leD2 le_word_le_bytes length_Cons mult_Suc_right)
  have "(ucast (ucast b OR push_bit 8 ?w :: 'a word) :: byte) = b"
    using Cons.prems by (intro bit_word_eqI) (auto simp: bit_simps)
  moreover have "drop_bit 8 (ucast b OR push_bit 8 ?w :: 'a word) = ?w"
  proof (rule bit_word_eqI)
    fix n assume n: "n < LENGTH('a)"
    have "bit ?w n \<Longrightarrow> n < 8 * length bs"
      by (subst (asm) small) (simp add: bit_simps)
    then show "bit (drop_bit 8 (ucast b OR push_bit 8 ?w :: 'a word)) n = bit ?w n"
      using Cons.prems n by (auto simp: bit_simps dest: bit_imp_le_length)
  qed
  ultimately show ?case using Cons by simp
qed

lemma bit_le_word:
  "bit (le_word bs :: 'a::len word) n \<longleftrightarrow> n < LENGTH('a) \<and> n < 8 * length bs \<and> bit (bs ! (n div 8)) (n mod 8)"
proof (induction bs arbitrary: n)
  case Nil
  then show ?case by simp
next
  case (Cons b bs)
  show ?case
  proof (cases "n < 8")
    case True
    then show ?thesis by (auto simp: bit_simps)
  next
    case False
    then have "n div 8 = Suc ((n - 8) div 8)" "n mod 8 = (n - 8) mod 8"
      by (simp_all add: le_div_geq le_mod_geq)
    moreover have "bit b n = False" using False by (auto dest: bit_imp_le_length)
    ultimately show ?thesis using False by (auto simp: bit_simps Cons)
  qed
qed

lemma le_word_halves:
  "length xs = 2 \<Longrightarrow> length ys = 2 \<Longrightarrow>
   (le_word (xs @ ys) :: u32) = ucast (le_word xs :: u16) OR push_bit 16 (ucast (le_word ys :: u16))"
proof (rule bit_word_eqI)
  fix n assume a: "length xs = 2" "length ys = 2" "n < LENGTH(32)"
  show "bit (le_word (xs @ ys) :: u32) n
    = bit (ucast (le_word xs :: u16) OR push_bit 16 (ucast (le_word ys :: u16)) :: u32) n"
  proof (cases "n < 16")
    case True
    then have "n div 8 < 2" by simp
    with True a show ?thesis by (simp add: bit_simps bit_le_word nth_append)
  next
    case False
    then have "n = (n - 16) + 2 * 8" by simp
    then have "n div 8 = 2 + (n - 16) div 8" "n mod 8 = (n - 16) mod 8"
      by (metis div_mult_self1 zero_neq_numeral, metis mod_mult_self1)
    with False a show ?thesis by (auto simp: bit_simps bit_le_word nth_append)
  qed
qed

lemma take_drop_halves: "off + 4 \<le> length d \<Longrightarrow> take 4 (drop off d) = take 2 (drop off d) @ take 2 (drop (off + 2) d)"
  by (metis add_2_eq_Suc' drop_drop add.commute numeral_Bit0 take_add)

text \<open>Byte-addressed memory, and the \<open>n\<close> bytes of the object at address \<open>p\<close>.\<close>

type_synonym mem = "addr \<Rightarrow> byte"

definition chars :: "mem \<Rightarrow> addr \<Rightarrow> nat \<Rightarrow> byte list" where
  "chars m p n = map (\<lambda>i. m (p + i)) [0..<n]"

lemma length_chars [simp]: "length (chars m p n) = n"
  by (simp add: chars_def)

lemma chars_cong: "(\<And>i. i < n \<Longrightarrow> m (p + i) = m' (p + i)) \<Longrightarrow> chars m p n = chars m' p n"
  by (simp add: chars_def)

section \<open>Comparison, hash and copy\<close>

text \<open>\<open>os_memory_eq\<close>: compare \<open>obj_size\<close> bytes, stopping at the first difference.\<close>

function os_memory_eq_loop :: "byte list \<Rightarrow> byte list \<Rightarrow> size_t \<Rightarrow> size_t \<Rightarrow> bool option" where
  "os_memory_eq_loop ac bc obj_size n =
     (if n < obj_size
      then do {
        x \<leftarrow> arr_get ac n;
        y \<leftarrow> arr_get bc n;
        if x \<noteq> y then Some False else os_memory_eq_loop ac bc obj_size (n + 1) }
      else Some True)"
  by pat_completeness auto
termination
  by (relation "measure (\<lambda>(ac, bc, obj_size, n). unat (obj_size - n))") auto

declare os_memory_eq_loop.simps [simp del]

definition os_memory_eq :: "byte list \<Rightarrow> byte list \<Rightarrow> size_t \<Rightarrow> bool option" where
  "os_memory_eq a b obj_size = os_memory_eq_loop a b obj_size 0"

lemma os_memory_eq_loop_correct:
  assumes "length ac = unat obj_size" "length bc = unat obj_size"
  shows "os_memory_eq_loop ac bc obj_size n = Some (drop (unat n) ac = drop (unat n) bc)"
  using assms
proof (induction ac bc obj_size n rule: os_memory_eq_loop.induct)
  case (1 ac bc obj_size n)
  show ?case
  proof (cases "n < obj_size")
    case True
    then have n: "unat n < length ac" "unat n < length bc" "unat (n + 1) = Suc (unat n)"
      using 1 by (simp_all add: word_less_nat_alt unat_Suc_word)
    then have "drop (unat n) ac = ac ! unat n # drop (unat (n + 1)) ac"
      "drop (unat n) bc = bc ! unat n # drop (unat (n + 1)) bc"
      by (simp_all add: Cons_nth_drop_Suc)
    with True n 1 show ?thesis
      by (subst os_memory_eq_loop.simps) simp
  next
    case False
    with 1 show ?thesis
      by (subst os_memory_eq_loop.simps) (simp add: word_less_nat_alt)
  qed
qed

lemma os_memory_eq_correct:
  "length a = unat n \<Longrightarrow> length b = unat n \<Longrightarrow> os_memory_eq a b n = Some (a = b)"
  by (simp add: os_memory_eq_def os_memory_eq_loop_correct)

text \<open>
  \<open>os_memory_hash\<close>: \<open>hash = (hash >> 5) + hash + value\<close> over the 4-byte words of the object,
  then over a 2-byte and a 1-byte remainder as bits 1 and 0 of the remaining size say.
  The argument is the object's bytes, so \<open>obj_size\<close> is the length that remains.
\<close>

definition hash_step :: "hash_t \<Rightarrow> hash_t \<Rightarrow> hash_t" where
  "hash_step hash v = drop_bit 5 hash + hash + v"

fun os_memory_hash_words :: "hash_t \<Rightarrow> byte list \<Rightarrow> hash_t \<times> byte list" where
  "os_memory_hash_words hash (b0 # b1 # b2 # b3 # obj) =
     os_memory_hash_words (hash_step hash (le_word [b0, b1, b2, b3])) obj"
| "os_memory_hash_words hash obj = (hash, obj)"

definition os_memory_hash :: "byte list \<Rightarrow> hash_t" where
  "os_memory_hash obj0 =
     (let (hash, obj) = os_memory_hash_words 0 obj0;
          (hash, obj) = (if length obj AND 2 \<noteq> 0
                         then (hash_step hash (le_word (take 2 obj)), drop 2 obj) else (hash, obj));
          hash = (if length obj AND 1 \<noteq> 0 then hash_step hash (le_word (take 1 obj)) else hash)
      in hash)"

text \<open>\<open>os_memory_copy\<close>: a byte loop from \<open>src\<close> to \<open>dst\<close>.\<close>

function os_memory_copy_loop :: "byte list \<Rightarrow> byte list \<Rightarrow> size_t \<Rightarrow> size_t \<Rightarrow> byte list option" where
  "os_memory_copy_loop srcc dstc obj_size n =
     (if n < obj_size
      then do {
        x \<leftarrow> arr_get srcc n;
        dstc \<leftarrow> arr_set dstc n x;
        os_memory_copy_loop srcc dstc obj_size (n + 1) }
      else Some dstc)"
  by pat_completeness auto
termination
  by (relation "measure (\<lambda>(srcc, dstc, obj_size, n). unat (obj_size - n))") auto

declare os_memory_copy_loop.simps [simp del]

definition os_memory_copy :: "byte list \<Rightarrow> byte list \<Rightarrow> size_t \<Rightarrow> byte list option" where
  "os_memory_copy src dst obj_size = os_memory_copy_loop src dst obj_size 0"

lemma os_memory_copy_loop_correct:
  assumes "unat obj_size \<le> length srcc" "unat obj_size \<le> length dstc" "n \<le> obj_size"
    "take (unat n) dstc = take (unat n) srcc"
  shows "os_memory_copy_loop srcc dstc obj_size n
    = Some (take (unat obj_size) srcc @ drop (unat obj_size) dstc)"
  using assms
proof (induction srcc dstc obj_size n rule: os_memory_copy_loop.induct)
  case (1 srcc dstc obj_size n)
  show ?case
  proof (cases "n < obj_size")
    case True
    then have n: "unat n < length srcc" "unat n < length dstc" "unat (n + 1) = Suc (unat n)"
      "n + 1 \<le> obj_size" "unat n < unat obj_size"
      using 1 by (simp_all add: word_less_nat_alt unat_Suc_word inc_le)
    let ?d = "dstc[unat n := srcc ! unat n]"
    have "take (unat (n + 1)) ?d = take (unat (n + 1)) srcc"
      using n 1 by (simp add: take_Suc_conv_app_nth)
    moreover have "drop (unat obj_size) ?d = drop (unat obj_size) dstc"
      using n by (simp add: drop_update_cancel)
    ultimately show ?thesis
      using True n 1 by (subst os_memory_copy_loop.simps) simp
  next
    case False
    with 1 have "n = obj_size" by simp
    with 1 have "dstc = take (unat obj_size) srcc @ drop (unat obj_size) dstc"
      by (metis append_take_drop_id)
    with False show ?thesis
      by (subst os_memory_copy_loop.simps) simp
  qed
qed

lemma os_memory_copy_correct:
  "unat n \<le> length src \<Longrightarrow> unat n \<le> length dst \<Longrightarrow>
   os_memory_copy src dst n = Some (take (unat n) src @ drop (unat n) dst)"
  by (simp add: os_memory_copy_def os_memory_copy_loop_correct)

section \<open>The allocator\<close>

text \<open>
  \<open>memory\<close> and \<open>memory_used_len\<close> of \<open>memory_alloc.c\<close>. The block is zeroed and never freed, so
  an allocation is described by its address and the new amount of memory used; a \<open>halt()\<close> is
  \<^theory_text>\<open>None\<close>.
\<close>

record os_mem =
  mem_base :: addr
  mem_used :: size_t

definition CACHE_LINE_SIZE :: size_t where
  "CACHE_LINE_SIZE = 64"

definition OS_MEMORY_SIZE :: size_t where
  "OS_MEMORY_SIZE = 256 * 1024 * 1024"

definition SIZE_MAX :: size_t where
  "SIZE_MAX = 0xFFFFFFFFFFFFFFFF"

definition os_memory_alloc :: "os_mem \<Rightarrow> size_t \<Rightarrow> size_t \<Rightarrow> (addr \<times> os_mem) option" where
  "os_memory_alloc om count sz =
     (let full_size = sz * count;
          target_addr = mem_base om + unat (mem_used om)
      in if SIZE_MAX - CACHE_LINE_SIZE < sz then None
         else
           let align_div = sz + CACHE_LINE_SIZE - (sz mod CACHE_LINE_SIZE);
               align_diff = of_nat target_addr mod align_div;
               align_padding = (if align_diff = 0 then 0 else align_div - align_diff)
           in if align_padding > OS_MEMORY_SIZE - mem_used om then None
              else
                let aligned_addr = target_addr + unat align_padding;
                    used = mem_used om + align_padding
                in if full_size > OS_MEMORY_SIZE - used then None
                   else Some (aligned_addr, om\<lparr>mem_used := used + full_size\<rparr>))"

text \<open>What the boot code establishes (\<open>globals_invariant\<close>) and every allocation keeps.\<close>

definition alloc_ok :: "os_mem \<Rightarrow> bool" where
  "alloc_ok om \<longleftrightarrow> mem_base om \<noteq> NULL \<and> mem_used om \<le> OS_MEMORY_SIZE
     \<and> mem_base om + unat OS_MEMORY_SIZE < 2 ^ 64"

lemma unat_OS_MEMORY_SIZE [simp]: "unat OS_MEMORY_SIZE = 268435456"
  by (simp add: OS_MEMORY_SIZE_def)

lemma unat_align_div:
  assumes "\<not> SIZE_MAX - CACHE_LINE_SIZE < sz"
  shows "unat (sz + CACHE_LINE_SIZE - sz mod CACHE_LINE_SIZE) = unat sz + 64 - unat sz mod 64"
proof -
  have m: "unat (sz mod CACHE_LINE_SIZE) = unat sz mod 64"
    by (simp add: CACHE_LINE_SIZE_def unat_mod)
  have "unat sz + 64 < 2 ^ 64"
    using assms by (simp add: SIZE_MAX_def CACHE_LINE_SIZE_def word_less_nat_alt)
  then have s: "unat (sz + CACHE_LINE_SIZE) = unat sz + 64"
    by (simp add: CACHE_LINE_SIZE_def unat_word_ariths)
  have "sz mod CACHE_LINE_SIZE \<le> sz + CACHE_LINE_SIZE"
    unfolding word_le_nat_alt m s by (meson le_add1 le_trans mod_less_eq_dividend)
  then show ?thesis by (simp add: unat_sub m s)
qed

lemma aligned_padding:
  fixes a d :: nat
  assumes "0 < d"
  shows "(a + (if a mod d = 0 then 0 else d - a mod d)) mod d = 0"
proof (cases "a mod d = 0")
  case False
  have "d * (a div d) + a mod d = a" by simp
  moreover have "a mod d < d" using assms by simp
  ultimately have "a + (d - a mod d) = d * Suc (a div d)" by (simp only: mult_Suc_right)
  with False show ?thesis by simp
qed simp

text \<open>
  The contract: a successful allocation lies behind everything allocated before it, in the
  block, is aligned to the padded element size, and the allocator stays well-formed.
\<close>

lemma os_memory_alloc_correct:
  assumes ok: "alloc_ok om" and fits: "unat sz * unat count < 2 ^ 64"
    and res: "os_memory_alloc om count sz = Some (a, om')"
  shows "alloc_ok om' \<and> mem_base om' = mem_base om \<and> a \<noteq> NULL
    \<and> mem_base om + unat (mem_used om) \<le> a
    \<and> a + unat sz * unat count = mem_base om' + unat (mem_used om')
    \<and> a mod (unat sz + 64 - unat sz mod 64) = 0"
proof -
  define d where "d = sz + CACHE_LINE_SIZE - sz mod CACHE_LINE_SIZE"
  define t where "t = mem_base om + unat (mem_used om)"
  define diff where "diff = of_nat t mod d"
  define pad where "pad = (if diff = 0 then 0 else d - diff)"
  define used where "used = mem_used om + pad"
  have used0: "unat (mem_used om) \<le> 268435456"
    using ok by (simp add: alloc_ok_def word_le_nat_alt)
  have small: "\<not> SIZE_MAX - CACHE_LINE_SIZE < sz" and p: "\<not> pad > OS_MEMORY_SIZE - mem_used om"
    and f: "\<not> sz * count > OS_MEMORY_SIZE - used" and a: "a = t + unat pad"
    and om': "om' = om\<lparr>mem_used := used + sz * count\<rparr>"
    using res unfolding os_memory_alloc_def Let_def
    by (simp_all add: d_def t_def diff_def pad_def used_def split: if_splits)
  have ud: "unat d = unat sz + 64 - unat sz mod 64"
    unfolding d_def by (rule unat_align_div [OF small])
  then have d0: "0 < unat d"
    by (metis add_pos_nonneg le_add1 mod_less_divisor not_gr_zero trans_less_add2 zero_less_diff zero_less_numeral zero_order(1))
  have t: "unat (of_nat t :: size_t) = t"
    using ok used0 by (intro unat_of_nat64) (simp add: alloc_ok_def t_def)
  have udiff: "unat diff = t mod unat d"
    by (simp add: diff_def unat_mod t)
  have upad: "unat pad = (if t mod unat d = 0 then 0 else unat d - t mod unat d)"
    using d0 udiff by (auto simp: pad_def unat_sub word_le_nat_alt unat_eq_zero less_imp_le)
  have ms: "mem_used om \<le> OS_MEMORY_SIZE" using ok by (simp add: alloc_ok_def)
  have "unat pad \<le> 268435456 - unat (mem_used om)"
    using p ms by (simp add: not_less word_le_nat_alt unat_sub)
  with used0 have uu: "unat used = unat (mem_used om) + unat pad" and ub: "unat used \<le> 268435456"
    by (simp_all add: used_def unat_word_ariths)
  have full: "unat (sz * count) = unat sz * unat count"
    using fits by (simp add: unat_word_ariths)
  have "used \<le> OS_MEMORY_SIZE" using ub by (simp add: word_le_nat_alt)
  then have fb: "unat sz * unat count \<le> 268435456 - unat used"
    using f full by (simp add: not_less word_le_nat_alt unat_sub)
  with ub have u': "unat (used + sz * count) = unat used + unat sz * unat count"
    by (simp add: unat_word_ariths full)
  have "a mod unat d = 0"
    unfolding a upad by (rule aligned_padding [OF d0])
  then show ?thesis
    using ok fb ub u' uu a t_def by (simp add: alloc_ok_def om' ud word_le_nat_alt)
qed

text \<open>A run of allocations, as an initialisation function makes them one after the other.\<close>

fun alloc_all :: "os_mem \<Rightarrow> (size_t \<times> size_t) list \<Rightarrow> ((addr \<times> nat) list \<times> os_mem) option" where
  "alloc_all om [] = Some ([], om)"
| "alloc_all om ((count, sz) # reqs) = do {
     (a, om) \<leftarrow> os_memory_alloc om count sz;
     (blocks, om) \<leftarrow> alloc_all om reqs;
     Some ((a, unat sz * unat count) # blocks, om) }"

lemma alloc_all_ordered:
  assumes "alloc_ok om" "\<forall>(count, sz) \<in> set reqs. unat sz * unat count < 2 ^ 64"
    "alloc_all om reqs = Some (blocks, om')"
  shows "alloc_ok om' \<and> mem_base om' = mem_base om
    \<and> mem_used om \<le> mem_used om'
    \<and> (\<forall>(a, n) \<in> set blocks. mem_base om + unat (mem_used om) \<le> a
         \<and> a + n \<le> mem_base om + unat (mem_used om'))
    \<and> sorted_wrt (\<lambda>(a, n) (b, m). a + n \<le> b) blocks"
  using assms
proof (induction om reqs arbitrary: blocks om' rule: alloc_all.induct)
  case (1 om)
  then show ?case by simp
next
  case (2 om count sz reqs)
  from "2.prems"(3) obtain a om1 bs where
    a: "os_memory_alloc om count sz = Some (a, om1)"
    and rest: "alloc_all om1 reqs = Some (bs, om')"
    and blocks: "blocks = (a, unat sz * unat count) # bs"
    by (auto split: Option.bind_splits)
  have fits: "unat sz * unat count < 2 ^ 64" using "2.prems"(2) by simp
  note spec = os_memory_alloc_correct [OF "2.prems"(1) fits a]
  have IH: "alloc_ok om' \<and> mem_base om' = mem_base om1 \<and> mem_used om1 \<le> mem_used om'
    \<and> (\<forall>(a, n) \<in> set bs. mem_base om1 + unat (mem_used om1) \<le> a
         \<and> a + n \<le> mem_base om1 + unat (mem_used om'))
    \<and> sorted_wrt (\<lambda>(a, n) (b, m). a + n \<le> b) bs"
    using "2.IH" [OF a refl] rest spec "2.prems"(2) by auto
  then show ?case
    using spec unfolding blocks word_le_nat_alt by fastforce
qed
section \<open>Properties\<close>

text \<open>
  C37: An allocation that succeeds lies inside the block, behind all memory handed out before,
  is not \<open>NULL\<close>, and starts at a multiple of \<open>sz + 64 - sz mod 64\<close>; the allocator stays
  well-formed.
\<close>

theorem os_memory_alloc_contract:
  assumes "alloc_ok om" "unat sz * unat count < 2 ^ 64" "os_memory_alloc om count sz = Some (a, om')"
  shows "alloc_ok om' \<and> a \<noteq> NULL \<and> mem_base om + unat (mem_used om) \<le> a
    \<and> a + unat sz * unat count = mem_base om' + unat (mem_used om')
    \<and> a + unat sz * unat count \<le> mem_base om + unat OS_MEMORY_SIZE
    \<and> a mod (unat sz + 64 - unat sz mod 64) = 0"
  using os_memory_alloc_correct [OF assms] by (auto simp: alloc_ok_def word_le_nat_alt)

definition alloc_example :: os_mem where
  "alloc_example = \<lparr>mem_base = 4096, mem_used = 24\<rparr>"

lemma alloc_example_ok: "alloc_ok alloc_example"
  by (simp add: alloc_ok_def alloc_example_def OS_MEMORY_SIZE_def)

lemma alloc_example_run:
  "os_memory_alloc alloc_example 256 16 = Some (4160, \<lparr>mem_base = 4096, mem_used = 4160\<rparr>)"
  by (simp add: alloc_example_def os_memory_alloc_def CACHE_LINE_SIZE_def OS_MEMORY_SIZE_def SIZE_MAX_def Let_def)

theorem os_memory_alloc_contract_witness:
  "alloc_ok \<lparr>mem_base = 4096, mem_used = 4160\<rparr> \<and> (4160 :: nat) mod 64 = 0"
  using os_memory_alloc_contract [OF alloc_example_ok _ alloc_example_run] by simp

text \<open>
  The blocks of any sequence of allocations are pairwise disjoint and in ascending order.
\<close>

theorem os_memory_allocs_disjoint:
  assumes "alloc_ok om" "\<forall>(count, sz) \<in> set reqs. unat sz * unat count < 2 ^ 64"
    "alloc_all om reqs = Some (blocks, om')" "i < j" "j < length blocks"
  shows "fst (blocks ! i) + snd (blocks ! i) \<le> fst (blocks ! j)"
  using alloc_all_ordered [OF assms(1-3)] assms(4,5)
  by (auto simp: sorted_wrt_iff_nth_less case_prod_unfold)

definition alloc_example_blocks :: "(addr \<times> nat) list" where
  "alloc_example_blocks = [(4160, 4096), (8256, 32)]"

lemma alloc_example_all: "alloc_all alloc_example [(256, 16), (1, 32)]
  = Some (alloc_example_blocks, \<lparr>mem_base = 4096, mem_used = 4192\<rparr>)"
proof -
  have "os_memory_alloc \<lparr>mem_base = 4096, mem_used = 4160\<rparr> 1 32
    = Some (8256, \<lparr>mem_base = 4096, mem_used = 4192\<rparr>)"
    by (simp add: os_memory_alloc_def CACHE_LINE_SIZE_def OS_MEMORY_SIZE_def SIZE_MAX_def Let_def)
  then show ?thesis by (simp add: alloc_example_run alloc_example_blocks_def)
qed

theorem os_memory_allocs_disjoint_witness:
  "fst (alloc_example_blocks ! 0) + snd (alloc_example_blocks ! 0) \<le> fst (alloc_example_blocks ! 1)"
  by (rule os_memory_allocs_disjoint [OF alloc_example_ok _ alloc_example_all])
    (simp_all add: alloc_example_blocks_def)

text \<open>
  C38: The byte loops of \<open>os_memory_eq\<close> and \<open>os_memory_copy\<close> stay in bounds; the first compares
  the objects, the second overwrites exactly the first \<open>n\<close> bytes of the destination.
\<close>

theorem os_memory_loops_correct:
  assumes "length a = unat n" "length b = unat n" "unat n \<le> length dst"
  shows "os_memory_eq a b n = Some (a = b) \<and> os_memory_copy a dst n = Some (a @ drop (unat n) dst)"
  using assms by (simp add: os_memory_eq_correct os_memory_copy_correct)

theorem os_memory_loops_correct_witness:
  "os_memory_eq [1, 2] [1, 3] 2 = Some False \<and> os_memory_copy [1, 2] [7, 8, 9] 2 = Some [1, 2, 9]"
  using os_memory_loops_correct [of "[1, 2]" 2 "[1, 3]" "[7, 8, 9]"] by simp

end
