(* ===== verification/Net_Packet.thy ===== *)
theory Net_Packet
  imports Os_Memory
begin

text \<open>
  Packets and headers: \<open>env/include/net/packet.h\<close>, and the transmission commands of
  \<open>env/include/net/tx.h\<close>.

  A packet's \<open>data\<close> is the buffer it lies in; the network functions read and write headers at
  fixed offsets of it without looking at \<open>length\<close>, so every access is checked against the
  buffer, as the driver hands it out. A header pointer is an offset into the buffer.
\<close>

section \<open>Buffers\<close>

definition rd_bytes :: "byte list \<Rightarrow> nat \<Rightarrow> nat \<Rightarrow> byte list option" where
  "rd_bytes d off n = (if off + n \<le> length d then Some (take n (drop off d)) else None)"

definition rd8 :: "byte list \<Rightarrow> nat \<Rightarrow> byte option" where
  "rd8 d off = map_option le_word (rd_bytes d off 1)"

definition rd16 :: "byte list \<Rightarrow> nat \<Rightarrow> u16 option" where
  "rd16 d off = map_option le_word (rd_bytes d off 2)"

definition rd32 :: "byte list \<Rightarrow> nat \<Rightarrow> u32 option" where
  "rd32 d off = map_option le_word (rd_bytes d off 4)"

definition rd64 :: "byte list \<Rightarrow> nat \<Rightarrow> u64 option" where
  "rd64 d off = map_option le_word (rd_bytes d off 8)"

definition wr_bytes :: "byte list \<Rightarrow> nat \<Rightarrow> byte list \<Rightarrow> byte list option" where
  "wr_bytes d off bs =
     (if off + length bs \<le> length d then Some (take off d @ bs @ drop (off + length bs) d) else None)"

definition wr16 :: "byte list \<Rightarrow> nat \<Rightarrow> u16 \<Rightarrow> byte list option" where
  "wr16 d off v = wr_bytes d off (le_bytes 2 v)"

definition wr32 :: "byte list \<Rightarrow> nat \<Rightarrow> u32 \<Rightarrow> byte list option" where
  "wr32 d off v = wr_bytes d off (le_bytes 4 v)"

definition wr64 :: "byte list \<Rightarrow> nat \<Rightarrow> u64 \<Rightarrow> byte list option" where
  "wr64 d off v = wr_bytes d off (le_bytes 8 v)"

lemma rd_bytes_in: "off + n \<le> length d \<Longrightarrow> rd_bytes d off n = Some (take n (drop off d))"
  by (simp add: rd_bytes_def)

lemma length_wr_bytes: "wr_bytes d off bs = Some d' \<Longrightarrow> length d' = length d"
  by (auto simp: wr_bytes_def split: if_splits)

lemma wr_bytes_in: "off + length bs \<le> length d \<Longrightarrow> \<exists>d'. wr_bytes d off bs = Some d' \<and> length d' = length d"
  by (simp add: wr_bytes_def)

lemma rd_wr_same: "wr_bytes d off bs = Some d' \<Longrightarrow> rd_bytes d' off (length bs) = Some bs"
  by (auto simp: wr_bytes_def rd_bytes_def split: if_splits)

lemma rd_wr_disjoint:
  assumes "wr_bytes d off bs = Some d'" "o2 + n \<le> off \<or> off + length bs \<le> o2"
  shows "rd_bytes d' o2 n = rd_bytes d o2 n"
proof -
  have d: "off + length bs \<le> length d" "d' = take off d @ bs @ drop (off + length bs) d"
    using assms(1) by (auto simp: wr_bytes_def split: if_splits)
  have len: "length d' = length d" using assms(1) by (rule length_wr_bytes)
  have "take n (drop o2 d') = take n (drop o2 d)" if in_range: "o2 + n \<le> length d"
  proof (rule nth_equalityI)
    show "length (take n (drop o2 d')) = length (take n (drop o2 d))" using len by simp
    fix i assume "i < length (take n (drop o2 d'))"
    then have i: "i < n" by simp
    have "d' ! (o2 + i) = d ! (o2 + i)"
    proof (cases "o2 + n \<le> off")
      case True
      then show ?thesis using i d by (simp add: nth_append)
    next
      case False
      then have "off + length bs \<le> o2" using assms(2) by simp
      then have "\<not> o2 + i < off" "\<not> o2 + i - off < length bs" by simp_all
      then show ?thesis using d in_range i by (simp add: nth_append min_absorb2)
    qed
    then show "take n (drop o2 d') ! i = take n (drop o2 d) ! i"
      using i in_range len by simp
  qed
  with len show ?thesis by (simp add: rd_bytes_def)
qed

section \<open>Packets, addresses and headers\<close>

definition IP_PROTOCOL_TCP :: byte where
  "IP_PROTOCOL_TCP = 6"

definition IP_PROTOCOL_UDP :: byte where
  "IP_PROTOCOL_UDP = 17"

text \<open>\<open>os_tag\<close> is opaque to the network functions; the driver side does not model it.\<close>

record net_packet =
  pkt_data :: "byte list"
  pkt_length :: size_t
  pkt_time :: time_t
  pkt_device :: device_t

type_synonym ether_addr = "byte list"

text \<open>The packed headers, by their field offsets.\<close>

definition ether_dst :: "byte list \<Rightarrow> nat \<Rightarrow> ether_addr option" where
  "ether_dst d h = rd_bytes d h 6"

definition ether_src :: "byte list \<Rightarrow> nat \<Rightarrow> ether_addr option" where
  "ether_src d h = rd_bytes d (h + 6) 6"

definition ether_type :: "byte list \<Rightarrow> nat \<Rightarrow> u16 option" where
  "ether_type d h = rd16 d (h + 12)"

definition ip_version_ihl :: "byte list \<Rightarrow> nat \<Rightarrow> byte option" where
  "ip_version_ihl d h = rd8 d h"

definition ip_total_length :: "byte list \<Rightarrow> nat \<Rightarrow> u16 option" where
  "ip_total_length d h = rd16 d (h + 2)"

definition ip_time_to_live :: "byte list \<Rightarrow> nat \<Rightarrow> byte option" where
  "ip_time_to_live d h = rd8 d (h + 8)"

definition ip_next_proto_id :: "byte list \<Rightarrow> nat \<Rightarrow> byte option" where
  "ip_next_proto_id d h = rd8 d (h + 9)"

definition ip_src_addr :: "byte list \<Rightarrow> nat \<Rightarrow> u32 option" where
  "ip_src_addr d h = rd32 d (h + 12)"

definition ip_dst_addr :: "byte list \<Rightarrow> nat \<Rightarrow> u32 option" where
  "ip_dst_addr d h = rd32 d (h + 16)"

definition l4_src_port :: "byte list \<Rightarrow> nat \<Rightarrow> u16 option" where
  "l4_src_port d h = rd16 d h"

definition l4_dst_port :: "byte list \<Rightarrow> nat \<Rightarrow> u16 option" where
  "l4_dst_port d h = rd16 d (h + 2)"

text \<open>
  The \<open>net_get_*\<close> functions return whether the header is there, and its pointer. On the
  little-endian targets the EtherType of IPv4 reads as \<open>0x0008\<close>.
\<close>

definition net_get_ether_header :: "net_packet \<Rightarrow> (bool \<times> nat) option" where
  "net_get_ether_header packet = Some (True, 0)"

definition net_get_ipv4_header :: "byte list \<Rightarrow> nat \<Rightarrow> (bool \<times> nat) option" where
  "net_get_ipv4_header d ether_header = do {
     ty \<leftarrow> ether_type d ether_header;
     Some (ty = 0x0008, ether_header + 14) }"

definition net_get_ipv4_payload :: "nat \<Rightarrow> bool \<times> nat" where
  "net_get_ipv4_payload ipv4_header = (True, ipv4_header + 20)"

definition net_get_tcpudp_header :: "byte list \<Rightarrow> nat \<Rightarrow> (bool \<times> nat) option" where
  "net_get_tcpudp_header d ipv4_header = do {
     proto \<leftarrow> ip_next_proto_id d ipv4_header;
     Some (proto = IP_PROTOCOL_TCP \<or> proto = IP_PROTOCOL_UDP, ipv4_header + 20) }"

definition net_ipv4_checksum_valid :: "nat \<Rightarrow> bool" where
  "net_ipv4_checksum_valid header = True"

section \<open>Checksums\<close>

text \<open>
  \<open>net_checksum_update\<close>: the operands are promoted to \<open>int\<close>, and the result is truncated to
  16 bits by the store.
\<close>

definition checksum_word :: "u16 \<Rightarrow> u16 \<Rightarrow> u16 \<Rightarrow> u16" where
  "checksum_word checksum old_word new_word =
     ucast (NOT (NOT (ucast checksum) + NOT (ucast old_word) + ucast new_word :: u32))"

definition net_checksum_update :: "byte list \<Rightarrow> nat \<Rightarrow> u16 \<Rightarrow> u16 \<Rightarrow> byte list option" where
  "net_checksum_update d checksum_ptr old_word new_word = do {
     c \<leftarrow> rd16 d checksum_ptr;
     wr16 d checksum_ptr (checksum_word c old_word new_word) }"

definition net_packet_checksum_update :: "byte list \<Rightarrow> nat \<Rightarrow> u16 \<Rightarrow> u16 \<Rightarrow> bool \<Rightarrow> byte list option" where
  "net_packet_checksum_update d ipv4_header old_word new_word in_ip = do {
     d \<leftarrow> (if in_ip then net_checksum_update d (ipv4_header + 12) old_word new_word else Some d);
     let l4_header = ipv4_header + 20;
     proto \<leftarrow> ip_next_proto_id d ipv4_header;
     if proto = IP_PROTOCOL_TCP then net_checksum_update d (l4_header + 16) old_word new_word
     else if proto = IP_PROTOCOL_UDP then net_checksum_update d (l4_header + 6) old_word new_word
     else Some d }"

definition net_packet_checksum_update_32 :: "byte list \<Rightarrow> nat \<Rightarrow> u32 \<Rightarrow> u32 \<Rightarrow> bool \<Rightarrow> byte list option" where
  "net_packet_checksum_update_32 d ipv4_header old_word new_word in_ip = do {
     d \<leftarrow> net_packet_checksum_update d ipv4_header (ucast old_word) (ucast new_word) in_ip;
     net_packet_checksum_update d ipv4_header (ucast (drop_bit 16 old_word)) (ucast (drop_bit 16 new_word)) in_ip }"

lemma length_wr:
  "wr16 d off w = Some d' \<Longrightarrow> length d' = length d" "wr32 d off w' = Some d' \<Longrightarrow> length d' = length d"
  "wr64 d off w'' = Some d' \<Longrightarrow> length d' = length d"
  by (auto simp: wr16_def wr32_def wr64_def dest: length_wr_bytes)

lemma length_checksum_update:
  "net_packet_checksum_update d ip old new in_ip = Some d' \<Longrightarrow> length d' = length d"
  "net_packet_checksum_update_32 d ip old' new' in_ip = Some d' \<Longrightarrow> length d' = length d"
proof -
  have one: "length d' = length d" if "net_packet_checksum_update d ip old new in_ip = Some d'" for d d' old new
    using that
    by (auto simp: net_packet_checksum_update_def net_checksum_update_def Let_def dest!: length_wr split: Option.bind_splits if_splits)
  then show "net_packet_checksum_update d ip old new in_ip = Some d' \<Longrightarrow> length d' = length d" .
  show "net_packet_checksum_update_32 d ip old' new' in_ip = Some d' \<Longrightarrow> length d' = length d"
    by (auto simp: net_packet_checksum_update_32_def dest!: one split: Option.bind_splits)
qed

section \<open>Transmission commands\<close>

datatype net_transmit_flags = NONE | UPDATE_ETHER_ADDRS

text \<open>
  What a network function asks of the network stack, in order. The stacks that execute the
  commands are modelled in their own theories.
\<close>

datatype tx =
  Net_Transmit device_t net_transmit_flags
| Net_Flood net_transmit_flags
| Net_Flood_Except "bool list" net_transmit_flags

section \<open>Properties\<close>

text \<open>The promoted computation is \<open>HC + m - m' + 1\<close> modulo \<open>2\<^sup>1\<^sup>6\<close>: there is no end-around carry.\<close>

lemma checksum_word_eq: "checksum_word c m m' = c + m - m' + 1"
proof -
  have "NOT (NOT x + NOT y + z) = x + y - z + 1" for x y z :: u32
    by (simp add: not_eq_complement)
  then show ?thesis
    unfolding checksum_word_def by (simp only: ucast_32_16) simp
qed


text \<open>
  RFC 1624, Equation 3, is the same formula in one's complement arithmetic, where a carry out
  of 16 bits is added back. The code agrees with it exactly when there is no carry.
\<close>

definition ones_add :: "u16 \<Rightarrow> u16 \<Rightarrow> u16" where
  "ones_add x y = (if unat x + unat y < 2 ^ 16 then x + y else x + y + 1)"

definition rfc1624_eqn3 :: "u16 \<Rightarrow> u16 \<Rightarrow> u16 \<Rightarrow> u16" where
  "rfc1624_eqn3 HC m m' = NOT (ones_add (ones_add (NOT HC) (NOT m)) m')"

lemma not_not_add: "NOT (NOT x + NOT y + z) = x + y - z + 1" for x y z :: u16
  by (simp add: not_eq_complement)

lemma unat_add16: "unat x + unat y < 2 ^ 16 \<Longrightarrow> unat (x + y) = unat x + unat y" for x y :: u16
  by (simp add: unat_word_ariths)

lemma checksum_word_rfc:
  "checksum_word c m m' = rfc1624_eqn3 c m m' \<longleftrightarrow> unat (NOT c) + unat (NOT m) + unat m' < 2 ^ 16"
proof -
  let ?a = "NOT c" and ?b = "NOT m"
  have eq: "checksum_word c m m' = rfc1624_eqn3 c m m' \<longleftrightarrow> ?a + ?b + m' = ones_add (ones_add ?a ?b) m'"
    unfolding rfc1624_eqn3_def checksum_word_eq not_not_add [symmetric] by (metis bit.double_compl)
  have ne: "x \<noteq> x + 1" "x \<noteq> x + 2" for x :: u16 by simp_all
  show ?thesis
  proof (cases "unat ?a + unat ?b < 2 ^ 16")
    case True
    then have "ones_add ?a ?b = ?a + ?b" "unat (?a + ?b) = unat ?a + unat ?b"
      by (simp_all only: ones_add_def unat_add16 if_True)
    then show ?thesis unfolding eq by (simp add: ones_add_def)
  next
    case False
    then have "ones_add ?a ?b = ?a + ?b + 1" by (simp only: ones_add_def if_False)
    then have "?a + ?b + m' \<noteq> ones_add (ones_add ?a ?b) m'"
      using ne [of "?a + ?b + m'"] by (simp add: ones_add_def add.assoc add.commute add.left_commute)
    then show ?thesis unfolding eq using False by simp
  qed
qed
section \<open>Footprints of writes\<close>

text \<open>Two buffers that agree except at the offsets of a set.\<close>

definition agree_off :: "nat set \<Rightarrow> byte list \<Rightarrow> byte list \<Rightarrow> bool" where
  "agree_off S d d' \<longleftrightarrow> length d' = length d \<and> (\<forall>i < length d. i \<notin> S \<longrightarrow> d' ! i = d ! i)"

lemma agree_off_refl: "agree_off S d d"
  by (simp add: agree_off_def)

lemma agree_off_trans: "agree_off S d1 d2 \<Longrightarrow> agree_off T d2 d3 \<Longrightarrow> S \<union> T \<subseteq> U \<Longrightarrow> agree_off U d1 d3"
  unfolding agree_off_def by (metis Un_iff subsetD)

lemma agree_off_mono: "agree_off S d1 d2 \<Longrightarrow> S \<subseteq> U \<Longrightarrow> agree_off U d1 d2"
  unfolding agree_off_def by blast

lemma agree_off_length: "agree_off S d d' \<Longrightarrow> length d' = length d"
  by (simp add: agree_off_def)

lemma agree_off_take_drop:
  assumes "agree_off S d d'" "off + n \<le> length d" "{off..<off + n} \<inter> S = {}"
  shows "take n (drop off d') = take n (drop off d)"
proof (rule nth_equalityI)
  show "length (take n (drop off d')) = length (take n (drop off d))"
    using agree_off_length [OF assms(1)] by simp
  fix i assume "i < length (take n (drop off d'))"
  then have i: "i < n" by simp
  then have "off + i \<in> {off..<off + n}" by simp
  then have "off + i \<notin> S" using assms(3) by blast
  then have "d' ! (off + i) = d ! (off + i)" using assms(1,2) i by (simp add: agree_off_def)
  then show "take n (drop off d') ! i = take n (drop off d) ! i"
    using i assms(2) agree_off_length [OF assms(1)] by simp
qed

lemma agree_off_nth: "agree_off S d d' \<Longrightarrow> i < length d \<Longrightarrow> i \<notin> S \<Longrightarrow> d' ! i = d ! i"
  by (simp add: agree_off_def)

lemma wr_bytes_effect:
  assumes "off + length bs \<le> length d"
  obtains d' where "wr_bytes d off bs = Some d'" "agree_off {off..<off + length bs} d d'"
    "take (length bs) (drop off d') = bs"
  by (rule that [OF wr_bytes_def [THEN trans, OF if_P [OF assms]]])
    (use assms in \<open>auto simp: agree_off_def nth_append not_le\<close>)

lemma wr16_effect:
  assumes "off + 2 \<le> length d"
  obtains d' where "wr16 d off v = Some d'" "agree_off {off..<off + 2} d d'"
    "(le_word (take 2 (drop off d')) :: u16) = v"
  using assms by (auto simp: wr16_def intro: wr_bytes_effect [of off "le_bytes 2 v" d])

lemma wr32_effect:
  assumes "off + 4 \<le> length d"
  obtains d' where "wr32 d off v = Some d'" "agree_off {off..<off + 4} d d'"
    "(le_word (take 4 (drop off d')) :: u32) = v"
  using assms by (auto simp: wr32_def intro: wr_bytes_effect [of off "le_bytes 4 v" d])

lemma wr64_effect:
  assumes "off + 8 \<le> length d"
  obtains d' where "wr64 d off v = Some d'" "agree_off {off..<off + 8} d d'"
    "(le_word (take 8 (drop off d')) :: u64) = v"
  using assms by (auto simp: wr64_def intro: wr_bytes_effect [of off "le_bytes 8 v" d])

lemma net_checksum_update_effect:
  assumes "off + 2 \<le> length d"
  obtains d' where "net_checksum_update d off old_word new_word = Some d'" "agree_off {off..<off + 2} d d'"
    "(le_word (take 2 (drop off d')) :: u16) = checksum_word (le_word (take 2 (drop off d))) old_word new_word"
proof -
  have "net_checksum_update d off old_word new_word
    = wr16 d off (checksum_word (le_word (take 2 (drop off d))) old_word new_word)"
    by (simp only: net_checksum_update_def rd16_def rd_bytes_in [OF assms] option.map Option.bind.bind_lunit)
  with wr16_effect [OF assms] that show ?thesis by metis
qed

text \<open>
  Where the checksum update of a packet writes: 12 bytes into the IPv4 header if asked to (the
  low half of \<open>src_addr\<close>), and the TCP or UDP checksum.
\<close>

definition l4_checksums :: "nat set" where
  "l4_checksums = {40..<42} \<union> {50..<52}"

lemma net_packet_checksum_update_effect:
  assumes len: "52 \<le> length d"
  obtains d' where "net_packet_checksum_update d 14 old_word new_word in_ip = Some d'"
    "agree_off (if in_ip then {26..<28} \<union> l4_checksums else l4_checksums) d d'"
    "in_ip \<Longrightarrow> (le_word (take 2 (drop 26 d')) :: u16) = checksum_word (le_word (take 2 (drop 26 d))) old_word new_word"
proof -
  obtain d1 where d1: "(if in_ip then net_checksum_update d 26 old_word new_word else Some d) = Some d1"
    "agree_off (if in_ip then {26..<28} else {}) d d1"
    "in_ip \<Longrightarrow> (le_word (take 2 (drop 26 d1)) :: u16) = checksum_word (le_word (take 2 (drop 26 d))) old_word new_word"
  proof (cases in_ip)
    case True
    have b: "26 + 2 \<le> length d" using len by simp
    obtain d' where "net_checksum_update d 26 old_word new_word = Some d'" "agree_off {26..<26 + 2} d d'"
      "(le_word (take 2 (drop 26 d')) :: u16) = checksum_word (le_word (take 2 (drop 26 d))) old_word new_word"
      by (rule net_checksum_update_effect [OF b])
    with that True show ?thesis by simp
  qed (use that agree_off_refl in simp)
  have len1: "52 \<le> length d1" using agree_off_length [OF d1(2)] len by simp
  then obtain p where p: "ip_next_proto_id d1 14 = Some p"
    by (simp add: ip_next_proto_id_def rd8_def rd_bytes_def)
  obtain d2 where d2: "(if p = IP_PROTOCOL_TCP then net_checksum_update d1 50 old_word new_word
      else if p = IP_PROTOCOL_UDP then net_checksum_update d1 40 old_word new_word else Some d1) = Some d2"
    "agree_off l4_checksums d1 d2"
  proof -
    have b: "50 + 2 \<le> length d1" "40 + 2 \<le> length d1" using len1 by simp_all
    obtain dt where t: "net_checksum_update d1 50 old_word new_word = Some dt" "agree_off {50..<50 + 2} d1 dt"
      by (rule net_checksum_update_effect [OF b(1)])
    obtain du where u: "net_checksum_update d1 40 old_word new_word = Some du" "agree_off {40..<40 + 2} d1 du"
      by (rule net_checksum_update_effect [OF b(2)])
    have "agree_off l4_checksums d1 dt" "agree_off l4_checksums d1 du"
      using agree_off_mono [OF t(2)] agree_off_mono [OF u(2)] by (simp_all add: l4_checksums_def)
    then show ?thesis
      using that [of dt] that [of du] that [of d1] t(1) u(1) agree_off_refl
      by (cases "p = IP_PROTOCOL_TCP"; cases "p = IP_PROTOCOL_UDP") simp_all
  qed
  have "net_packet_checksum_update d 14 old_word new_word in_ip = Some d2"
    using d1(1) p d2(1)
    by (cases in_ip) (auto simp: net_packet_checksum_update_def Let_def split: if_splits)
  moreover have "agree_off (if in_ip then {26..<28} \<union> l4_checksums else l4_checksums) d d2"
    by (rule agree_off_trans [OF d1(2) d2(2)]) simp
  moreover have "take 2 (drop 26 d2) = take 2 (drop 26 d1)"
    using len1 by (intro agree_off_take_drop [OF d2(2)]) (auto simp: l4_checksums_def)
  ultimately show ?thesis using that d1(3) by simp
qed
lemma net_packet_checksum_update_32_effect:
  assumes len: "52 \<le> length d"
  obtains d' where "net_packet_checksum_update_32 d 14 old_word new_word True = Some d'"
    "agree_off ({26..<28} \<union> l4_checksums) d d'"
    "(le_word (take 2 (drop 26 d')) :: u16)
      = checksum_word (checksum_word (le_word (take 2 (drop 26 d))) (ucast old_word) (ucast new_word))
          (ucast (drop_bit 16 old_word)) (ucast (drop_bit 16 new_word))"
proof -
  obtain d1 where d1: "net_packet_checksum_update d 14 (ucast old_word) (ucast new_word) True = Some d1"
    "agree_off ({26..<28} \<union> l4_checksums) d d1"
    "(le_word (take 2 (drop 26 d1)) :: u16)
      = checksum_word (le_word (take 2 (drop 26 d))) (ucast old_word) (ucast new_word)"
    using net_packet_checksum_update_effect [OF len, of "ucast old_word" "ucast new_word" True] by auto
  have "52 \<le> length d1" using agree_off_length [OF d1(2)] len by simp
  then obtain d2 where d2: "net_packet_checksum_update d1 14 (ucast (drop_bit 16 old_word)) (ucast (drop_bit 16 new_word)) True = Some d2"
    "agree_off ({26..<28} \<union> l4_checksums) d1 d2"
    "(le_word (take 2 (drop 26 d2)) :: u16)
      = checksum_word (le_word (take 2 (drop 26 d1))) (ucast (drop_bit 16 old_word)) (ucast (drop_bit 16 new_word))"
    using net_packet_checksum_update_effect [of d1 "ucast (drop_bit 16 old_word)" "ucast (drop_bit 16 new_word)" True]
    by auto
  have "net_packet_checksum_update_32 d 14 old_word new_word True = Some d2"
    by (simp add: net_packet_checksum_update_32_def d1(1) d2(1))
  moreover have "agree_off ({26..<28} \<union> l4_checksums) d d2"
    by (rule agree_off_trans [OF d1(2) d2(2)]) simp
  ultimately show ?thesis using that d2(3) d1(3) by simp
qed

end
