(* ===== verification/Struct_Map.thy ===== *)
theory Struct_Map
  imports Os_Memory "HOL-Library.While_Combinator"
begin

text \<open>
  The hash map of \<open>env/src/structs/map.c\<close>: open addressing with linear probing over a
  power-of-two array, where every item also counts the keys whose probe sequence runs through
  it (its \<open>chain\<close>), so that a lookup can stop at the first item with an empty chain.

  Keys stay in the caller's memory: an item holds the key's address, and the map reads the
  \<open>key_size\<close> bytes there. A key passed for a lookup is given by its bytes.
\<close>

section \<open>The model\<close>

record map_item =
  mi_key_addr :: addr
  mi_value :: size_t
  mi_chain :: size_t
  mi_key_hash :: hash_t

record cmap =
  cm_items :: "map_item list"
  cm_capacity :: size_t
  cm_key_size :: size_t

text \<open>
  \<open>get_real_capacity\<close>: the doubling loop on \<open>size_t\<close>; \<^theory_text>\<open>None\<close> if it never ends (for a
  capacity above \<open>2\<^sup>6\<^sup>3\<close> the counter wraps to 0).
\<close>

definition get_real_capacity :: "size_t \<Rightarrow> size_t option" where
  "get_real_capacity capacity =
     (if capacity = 0 then Some 0
      else while_option (\<lambda>real_capacity. real_capacity < capacity) (\<lambda>real_capacity. real_capacity * 2) 1)"

definition map_loop :: "hash_t \<Rightarrow> size_t \<Rightarrow> size_t \<Rightarrow> size_t" where
  "map_loop start i capacity =
     (let startmod = (ucast start :: size_t) AND (capacity - 1)
      in (startmod + i) AND (capacity - 1))"

definition zero_item :: map_item where
  "zero_item = \<lparr>mi_key_addr = 0, mi_value = 0, mi_chain = 0, mi_key_hash = 0\<rparr>"

function map_alloc_loop :: "map_item list \<Rightarrow> size_t \<Rightarrow> size_t \<Rightarrow> map_item list option" where
  "map_alloc_loop items real_capacity n =
     (if n < real_capacity
      then do {
        it \<leftarrow> arr_get items n;
        items \<leftarrow> arr_set items n (it\<lparr>mi_key_addr := NULL, mi_chain := 0\<rparr>);
        map_alloc_loop items real_capacity (n + 1) }
      else Some items)"
  by pat_completeness auto
termination
  by (relation "measure (\<lambda>(items, real_capacity, n). unat (real_capacity - n))") auto

declare map_alloc_loop.simps [simp del]

text \<open>\<open>sizeof (struct map)\<close> is 24 and \<open>sizeof (struct map_item)\<close>, packed, is 32.\<close>

definition map_alloc :: "os_mem \<Rightarrow> size_t \<Rightarrow> size_t \<Rightarrow> (cmap \<times> os_mem) option" where
  "map_alloc om key_size capacity = do {
     (m, om) \<leftarrow> os_memory_alloc om 1 24;
     real_capacity \<leftarrow> get_real_capacity capacity;
     (items_addr, om) \<leftarrow> os_memory_alloc om real_capacity 32;
     items \<leftarrow> map_alloc_loop (replicate (unat real_capacity) zero_item) real_capacity 0;
     Some (\<lparr>cm_items = items, cm_capacity = real_capacity, cm_key_size = key_size\<rparr>, om) }"

function map_get_loop :: "mem \<Rightarrow> cmap \<Rightarrow> byte list \<Rightarrow> hash_t \<Rightarrow> size_t \<Rightarrow> size_t option option" where
  "map_get_loop mem m key key_hash i =
     (if i < cm_capacity m
      then do {
        it \<leftarrow> arr_get (cm_items m) (map_loop key_hash i (cm_capacity m));
        if mi_key_addr it \<noteq> NULL \<and> mi_key_hash it = key_hash
        then do {
          eq \<leftarrow> os_memory_eq (chars mem (mi_key_addr it) (unat (cm_key_size m))) key (cm_key_size m);
          if eq then Some (Some (mi_value it)) else map_get_loop mem m key key_hash (i + 1) }
        else if mi_chain it = 0 then Some None
        else map_get_loop mem m key key_hash (i + 1) }
      else Some None)"
  by pat_completeness auto
termination
  by (relation "measure (\<lambda>(mem, m, key, key_hash, i). unat (cm_capacity m - i))") auto

declare map_get_loop.simps [simp del]

text \<open>The result \<open>Some v\<close> is \<open>true\<close> with \<open>*out_value = v\<close>, \<^theory_text>\<open>None\<close> is \<open>false\<close>.\<close>

definition map_get :: "mem \<Rightarrow> cmap \<Rightarrow> byte list \<Rightarrow> size_t option option" where
  "map_get mem m key = map_get_loop mem m key (os_memory_hash key) 0"

function map_set_loop :: "cmap \<Rightarrow> addr \<Rightarrow> size_t \<Rightarrow> hash_t \<Rightarrow> size_t \<Rightarrow> cmap option" where
  "map_set_loop m key_ptr val key_hash i =
     (if i < cm_capacity m
      then do {
        let index = map_loop key_hash i (cm_capacity m);
        item \<leftarrow> arr_get (cm_items m) index;
        if mi_key_addr item = NULL
        then do {
          items \<leftarrow> arr_set (cm_items m) index
            (item\<lparr>mi_key_addr := key_ptr, mi_key_hash := key_hash, mi_value := val\<rparr>);
          Some (m\<lparr>cm_items := items\<rparr>) }
        else do {
          items \<leftarrow> arr_set (cm_items m) index (item\<lparr>mi_chain := mi_chain item + 1\<rparr>);
          map_set_loop (m\<lparr>cm_items := items\<rparr>) key_ptr val key_hash (i + 1) } }
      else Some m)"
  by pat_completeness auto
termination
  by (relation "measure (\<lambda>(m, key_ptr, val, key_hash, i). unat (cm_capacity m - i))") auto

declare map_set_loop.simps [simp del]

definition map_set :: "mem \<Rightarrow> cmap \<Rightarrow> addr \<Rightarrow> size_t \<Rightarrow> cmap option" where
  "map_set mem m key_ptr val =
     map_set_loop m key_ptr val (os_memory_hash (chars mem key_ptr (unat (cm_key_size m)))) 0"

function map_remove_loop :: "mem \<Rightarrow> cmap \<Rightarrow> byte list \<Rightarrow> hash_t \<Rightarrow> size_t \<Rightarrow> cmap option" where
  "map_remove_loop mem m key key_hash i =
     (if i < cm_capacity m
      then do {
        let index = map_loop key_hash i (cm_capacity m);
        item \<leftarrow> arr_get (cm_items m) index;
        found \<leftarrow> (if mi_key_addr item \<noteq> NULL \<and> mi_key_hash item = key_hash
                  then os_memory_eq (chars mem (mi_key_addr item) (unat (cm_key_size m))) key (cm_key_size m)
                  else Some False);
        if found
        then do {
          items \<leftarrow> arr_set (cm_items m) index (item\<lparr>mi_key_addr := NULL\<rparr>);
          Some (m\<lparr>cm_items := items\<rparr>) }
        else do {
          items \<leftarrow> arr_set (cm_items m) index (item\<lparr>mi_chain := mi_chain item - 1\<rparr>);
          map_remove_loop mem (m\<lparr>cm_items := items\<rparr>) key key_hash (i + 1) } }
      else Some m)"
  by pat_completeness auto
termination
  by (relation "measure (\<lambda>(mem, m, key, key_hash, i). unat (cm_capacity m - i))") auto

declare map_remove_loop.simps [simp del]

definition map_remove :: "mem \<Rightarrow> cmap \<Rightarrow> byte list \<Rightarrow> cmap option" where
  "map_remove mem m key = map_remove_loop mem m key (os_memory_hash key) 0"

section \<open>Capacity\<close>

definition pow2_capacity :: "size_t \<Rightarrow> bool" where
  "pow2_capacity c \<longleftrightarrow> c = 0 \<or> (\<exists>k \<le> 63. unat c = 2 ^ k)"

lemma pow2_capacity_le: "pow2_capacity c \<Longrightarrow> unat c \<le> 2 ^ 63"
  unfolding pow2_capacity_def using pow2_mono [of _ 63] by fastforce

lemma unat_double: "unat r < 2 ^ 63 \<Longrightarrow> unat (r * 2) = 2 * unat r" for r :: size_t
  by (simp add: unat_word_ariths)

lemma get_real_capacity_loop:
  fixes capacity :: size_t
  assumes "capacity \<noteq> 0" "unat capacity \<le> 2 ^ 63"
  shows "\<exists>r. while_option (\<lambda>r. r < capacity) (\<lambda>r. r * 2) 1 = Some r
    \<and> capacity \<le> r \<and> unat r < 2 * unat capacity \<and> (\<exists>k \<le> 63. unat r = 2 ^ k)"
proof -
  let ?P = "\<lambda>r :: size_t. unat r < 2 * unat capacity \<and> (\<exists>k \<le> 63. unat r = 2 ^ k)"
  have step: "?P (r * 2) \<and> 2 ^ 64 - unat (r * 2) < 2 ^ 64 - unat r"
    if P: "?P r" and lt: "r < capacity" for r
  proof -
    have lt': "unat r < unat capacity" using lt by (simp add: word_less_nat_alt)
    with assms have d: "unat (r * 2) = 2 * unat r" by (intro unat_double) simp
    from P obtain k where k: "k \<le> 63" "unat r = 2 ^ k" by blast
    have "k \<noteq> 63" using k lt' assms by auto
    with k d have "\<exists>k \<le> 63. unat (r * 2) = 2 ^ k"
      by (intro exI [of _ "Suc k"]) simp
    moreover have "unat r \<noteq> 0" using k by simp
    moreover have "unat (r * 2) < 2 ^ 64" by (rule unat_lt64)
    ultimately show ?thesis using d lt' by simp
  qed
  have start: "?P 1"
    using assms by (auto simp: unat_eq_zero [symmetric] intro: exI [of _ 0])
  obtain r where r: "while_option (\<lambda>r. r < capacity) (\<lambda>r. r * 2) 1 = Some r"
    using measure_while_option_Some [where P = ?P and f = "\<lambda>r. 2 ^ 64 - unat r"
        and b = "\<lambda>r. r < capacity" and c = "\<lambda>r. r * 2" and s = 1] step start by blast
  have "?P r"
    using while_option_rule [where P = ?P, OF _ r start] step by blast
  moreover have "\<not> r < capacity" using while_option_stop [OF r] by simp
  ultimately show ?thesis using r by auto
qed

lemma get_real_capacity_correct:
  assumes "unat capacity \<le> 2 ^ 63"
  shows "\<exists>r. get_real_capacity capacity = Some r \<and> pow2_capacity r \<and> capacity \<le> r
    \<and> (r = 0 \<longleftrightarrow> capacity = 0) \<and> unat r \<le> 2 * unat capacity"
proof (cases "capacity = 0")
  case True
  then show ?thesis by (simp add: get_real_capacity_def pow2_capacity_def)
next
  case False
  from get_real_capacity_loop [OF False assms] obtain r where
    "get_real_capacity capacity = Some r" "capacity \<le> r" "unat r < 2 * unat capacity"
    "\<exists>k \<le> 63. unat r = 2 ^ k"
    using False by (auto simp: get_real_capacity_def)
  moreover from this have "r \<noteq> 0" by auto
  ultimately show ?thesis using False by (auto simp: pow2_capacity_def)
qed

text \<open>Above \<open>2\<^sup>6\<^sup>3\<close> the doubled counter wraps to 0 and the loop never ends.\<close>

lemma get_real_capacity_diverges:
  assumes "2 ^ 63 < unat capacity"
  shows "get_real_capacity capacity = None"
proof -
  have pow: "((\<lambda>r. r * 2) ^^ k) (1 :: size_t) = of_nat (2 ^ k)" for k
    by (induction k) simp_all
  have "((\<lambda>r. r * 2) ^^ k) 1 < capacity" for k
  proof (cases "k \<le> 63")
    case True
    then have "(2::nat) ^ k \<le> 2 ^ 63" by (rule power_increasing) simp
    then have "unat (of_nat (2 ^ k) :: size_t) \<le> 2 ^ 63" by (subst unat_of_nat64) simp_all
    with assms show ?thesis unfolding pow word_less_nat_alt by linarith
  next
    case False
    then have "(of_nat (2 ^ k) :: size_t) = 0" by simp
    with assms show ?thesis unfolding pow word_less_nat_alt by (simp del: of_nat_power)
  qed
  moreover have "capacity \<noteq> 0" using assms by auto
  ultimately show ?thesis
    by (simp add: get_real_capacity_def while_option_def)
qed

text \<open>The masked index is the linear probe: \<open>(hash + i) mod capacity\<close>.\<close>

lemma unat_map_loop:
  assumes "pow2_capacity c" "i < c"
  shows "unat (map_loop h i c) = (unat h mod unat c + unat i) mod unat c"
proof -
  from assms obtain k where k: "k \<le> 63" "unat c = 2 ^ k" by (auto simp: pow2_capacity_def)
  have sm: "unat (ucast h AND (c - 1) :: size_t) = unat h mod 2 ^ k"
    by (simp add: and_pow2_minus_1 [OF k(2)])
  have "unat h mod 2 ^ k < 2 ^ k" by simp
  moreover have "unat i < 2 ^ k" using assms k by (simp add: word_less_nat_alt)
  moreover have "(2::nat) ^ k \<le> 2 ^ 63" using k by (intro pow2_mono)
  moreover have "(2::nat) ^ 64 = 2 * 2 ^ 63" by simp
  ultimately have "unat h mod 2 ^ k + unat i < 2 ^ 64" by linarith
  then have "unat ((ucast h AND (c - 1)) + i :: size_t) = unat h mod 2 ^ k + unat i"
    by (simp add: unat_word_ariths sm)
  then show ?thesis
    unfolding map_loop_def Let_def and_pow2_minus_1 [OF k(2)] by (simp add: k)
qed

section \<open>Invariant and abstraction\<close>

text \<open>
  A slot is busy if it holds a key; its home is where its hash points; the slots that a busy
  slot's probe sequence visits before reaching it are the ones it passes.
\<close>

definition slot_busy :: "map_item list \<Rightarrow> nat \<Rightarrow> bool" where
  "slot_busy its j \<longleftrightarrow> mi_key_addr (its ! j) \<noteq> NULL"

definition slot_key :: "mem \<Rightarrow> nat \<Rightarrow> map_item list \<Rightarrow> nat \<Rightarrow> byte list" where
  "slot_key mem ks its j = chars mem (mi_key_addr (its ! j)) ks"

definition slot_home :: "map_item list \<Rightarrow> nat \<Rightarrow> nat" where
  "slot_home its j = unat (mi_key_hash (its ! j)) mod length its"

definition passing :: "map_item list \<Rightarrow> nat \<Rightarrow> nat set" where
  "passing its i = {j. j < length its \<and> slot_busy its j
     \<and> cdist (length its) (slot_home its j) i < cdist (length its) (slot_home its j) j}"

definition map_contents :: "mem \<Rightarrow> nat \<Rightarrow> map_item list \<Rightarrow> bool" where
  "map_contents mem ks its \<longleftrightarrow>
     (\<forall>j < length its. slot_busy its j \<longrightarrow> mi_key_hash (its ! j) = os_memory_hash (slot_key mem ks its j))
   \<and> (\<forall>i < length its. \<forall>j < length its. slot_busy its i \<longrightarrow> slot_busy its j
        \<longrightarrow> slot_key mem ks its i = slot_key mem ks its j \<longrightarrow> i = j)"

definition chains_ok :: "map_item list \<Rightarrow> bool" where
  "chains_ok its \<longleftrightarrow> (\<forall>i < length its. unat (mi_chain (its ! i)) = card (passing its i))"

text \<open>\<open>mapp\<close>: the invariant, for the capacity the map was allocated with.\<close>

definition map_inv :: "mem \<Rightarrow> size_t \<Rightarrow> cmap \<Rightarrow> bool" where
  "map_inv mem capacity m \<longleftrightarrow>
     length (cm_items m) = unat (cm_capacity m) \<and> pow2_capacity (cm_capacity m)
   \<and> capacity \<le> cm_capacity m
   \<and> map_contents mem (unat (cm_key_size m)) (cm_items m) \<and> chains_ok (cm_items m)"

text \<open>The finite map the structure stands for: key to value and key address.\<close>

definition map_abs :: "mem \<Rightarrow> cmap \<Rightarrow> byte list \<Rightarrow> (size_t \<times> addr) option" where
  "map_abs mem m = map_of (map (\<lambda>it. (chars mem (mi_key_addr it) (unat (cm_key_size m)),
       (mi_value it, mi_key_addr it))) (filter (\<lambda>it. mi_key_addr it \<noteq> NULL) (cm_items m)))"

lemma map_contents_distinct:
  "map_contents mem ks its \<Longrightarrow>
   distinct (map (\<lambda>it. chars mem (mi_key_addr it) ks) (filter (\<lambda>it. mi_key_addr it \<noteq> NULL) its))"
  by (intro distinct_map_filter_nth) (auto simp: map_contents_def slot_busy_def slot_key_def)

lemma map_abs_Some_iff:
  assumes "map_contents mem (unat (cm_key_size m)) (cm_items m)"
  shows "map_abs mem m k = Some (v, p) \<longleftrightarrow>
    (\<exists>j < length (cm_items m). slot_busy (cm_items m) j
      \<and> slot_key mem (unat (cm_key_size m)) (cm_items m) j = k
      \<and> mi_value (cm_items m ! j) = v \<and> mi_key_addr (cm_items m ! j) = p)"
proof -
  have "map_abs mem m k = Some (v, p) \<longleftrightarrow>
    (k, v, p) \<in> set (map (\<lambda>it. (chars mem (mi_key_addr it) (unat (cm_key_size m)),
       (mi_value it, mi_key_addr it))) (filter (\<lambda>it. mi_key_addr it \<noteq> NULL) (cm_items m)))"
    unfolding map_abs_def using map_contents_distinct [OF assms]
    by (intro map_of_eq_Some_iff) (simp add: comp_def)
  then show ?thesis
    by (auto simp: slot_busy_def slot_key_def in_set_conv_nth)
qed

lemma map_abs_None_iff:
  assumes "map_contents mem (unat (cm_key_size m)) (cm_items m)"
  shows "map_abs mem m k = None \<longleftrightarrow>
    (\<forall>j < length (cm_items m). slot_busy (cm_items m) j
      \<longrightarrow> slot_key mem (unat (cm_key_size m)) (cm_items m) j \<noteq> k)"
proof -
  have "map_abs mem m k = None \<longleftrightarrow> (\<forall>v p. map_abs mem m k \<noteq> Some (v, p))"
    by (cases "map_abs mem m k") auto
  then show ?thesis unfolding map_abs_Some_iff [OF assms] by blast
qed

lemma card_dom_map_abs:
  assumes "map_contents mem (unat (cm_key_size m)) (cm_items m)"
  shows "card (dom (map_abs mem m)) = card {j. j < length (cm_items m) \<and> slot_busy (cm_items m) j}"
proof -
  let ?its = "filter (\<lambda>it. mi_key_addr it \<noteq> NULL) (cm_items m)"
  have "card (dom (map_abs mem m)) = length ?its"
    unfolding map_abs_def dom_map_of_conv_image_fst
    using distinct_card [OF map_contents_distinct [OF assms]]
    by (simp add: image_image comp_def)
  then show ?thesis
    by (simp add: length_filter_conv_card slot_busy_def)
qed

lemma finite_passing [simp]: "finite (passing its i)"
  by (rule finite_subset [of _ "{..<length its}"]) (auto simp: passing_def)

lemma card_passing_less:
  assumes "i < length its"
  shows "card (passing its i) < length its"
proof -
  have "passing its i \<subseteq> {..<length its} - {i}" by (auto simp: passing_def)
  then have "card (passing its i) \<le> card ({..<length its} - {i})" by (intro card_mono) auto
  with assms show ?thesis by simp
qed

section \<open>Lookup\<close>

text \<open>The slot visited at step \<open>t\<close> is the only one at distance \<open>t\<close> from the key's home.\<close>

lemma map_loop_slot:
  fixes h :: hash_t
  assumes "length its = unat c" "pow2_capacity c" "i < c"
  defines "idx \<equiv> unat (map_loop h i c)"
  shows "idx < length its" "cdist (length its) (unat h mod length its) idx = unat i"
    "\<And>j. j < length its \<Longrightarrow> cdist (length its) (unat h mod length its) j = unat i \<Longrightarrow> j = idx"
proof -
  have i: "unat i < length its" and n: "0 < length its"
    using assms by (simp_all add: word_less_nat_alt)
  have idx: "idx = (unat h mod length its + unat i) mod length its"
    unfolding idx_def using assms unat_map_loop by metis
  show "idx < length its" using n idx by simp
  show "cdist (length its) (unat h mod length its) idx = unat i"
    unfolding idx using n i by (intro cdist_add) simp_all
  fix j assume j: "j < length its" "cdist (length its) (unat h mod length its) j = unat i"
  have "(unat h mod length its + cdist (length its) (unat h mod length its) j) mod length its = j"
    using n j by (intro add_cdist) simp_all
  then show "j = idx" unfolding idx j(2) by simp
qed

text \<open>
  Two facts carry every probing loop: an item with an empty chain has no key further along its
  probe sequence, and a key not found at step \<open>i\<close> lies at a distance of at least \<open>i + 1\<close>.
\<close>

lemma empty_chain_stops:
  assumes cont: "map_contents mem ks its" and chains: "chains_ok its"
    and idx: "idx < length its" "mi_chain (its ! idx) = 0"
    and j: "j < length its" "slot_busy its j" "slot_key mem ks its j = key"
  shows "cdist (length its) (unat (os_memory_hash key) mod length its) j
    \<le> cdist (length its) (unat (os_memory_hash key) mod length its) idx"
proof (rule ccontr)
  assume far: "\<not> ?thesis"
  have "unat (mi_chain (its ! idx)) = card (passing its idx)"
    using chains idx(1) unfolding chains_ok_def by blast
  then have "passing its idx = {}" using idx(2) by simp
  moreover have "slot_home its j = unat (os_memory_hash key) mod length its"
    using cont j by (auto simp: slot_home_def map_contents_def)
  ultimately show False using far j by (auto simp: passing_def)
qed

definition key_beyond :: "mem \<Rightarrow> nat \<Rightarrow> map_item list \<Rightarrow> byte list \<Rightarrow> nat \<Rightarrow> bool" where
  "key_beyond mem ks its key t \<longleftrightarrow>
     (\<forall>j < length its. slot_busy its j \<longrightarrow> slot_key mem ks its j = key
        \<longrightarrow> t \<le> cdist (length its) (unat (os_memory_hash key) mod length its) j)"

lemma key_beyond_0 [simp]: "key_beyond mem ks its key 0"
  by (simp add: key_beyond_def)

lemma key_beyond_end: "key_beyond mem ks its key (length its) \<Longrightarrow>
  j < length its \<Longrightarrow> slot_busy its j \<Longrightarrow> slot_key mem ks its j \<noteq> key"
  unfolding key_beyond_def by (metis cdist_less gr_implies_not0 leD neq0_conv)

lemma key_beyond_Suc:
  assumes "length its = unat c" "pow2_capacity c" "i < c" "key_beyond mem ks its key (unat i)"
    and "idx = unat (map_loop (os_memory_hash key) i c)"
    and "\<not> (slot_busy its idx \<and> slot_key mem ks its idx = key)"
  shows "key_beyond mem ks its key (unat (i + 1))"
  unfolding key_beyond_def
proof (intro allI impI)
  fix j assume j: "j < length its" "slot_busy its j" "slot_key mem ks its j = key"
  let ?d = "cdist (length its) (unat (os_memory_hash key) mod length its) j"
  have "unat i \<le> ?d" using assms(4) j by (simp add: key_beyond_def)
  moreover have "?d \<noteq> unat i"
  proof
    assume "?d = unat i"
    with assms(1-3) j(1) have "j = idx" unfolding assms(5) by (rule map_loop_slot(3))
    with j assms(6) show False by simp
  qed
  ultimately show "unat (i + 1) \<le> ?d" using unat_Suc_word [OF assms(3)] by simp
qed

lemma map_get_loop_correct:
  assumes "map_inv mem c m" "length key = unat (cm_key_size m)" "i \<le> cm_capacity m"
    "key_beyond mem (unat (cm_key_size m)) (cm_items m) key (unat i)"
  shows "map_get_loop mem m key (os_memory_hash key) i = Some (map_option fst (map_abs mem m key))"
  using assms
proof (induction mem m key "os_memory_hash key" i rule: map_get_loop.induct)
  case (1 mem m key i)
  let ?its = "cm_items m" and ?n = "length (cm_items m)" and ?ks = "unat (cm_key_size m)"
  let ?h = "os_memory_hash key"
  have len: "?n = unat (cm_capacity m)" and pow: "pow2_capacity (cm_capacity m)"
    and cont: "map_contents mem ?ks ?its" and chains: "chains_ok ?its"
    using "1.prems"(1) by (simp_all add: map_inv_def)
  show ?case
  proof (cases "i < cm_capacity m")
    case False
    then have "unat i = ?n" using "1.prems"(3) len by simp
    then have "map_abs mem m key = None"
      unfolding map_abs_None_iff [OF cont] using "1.prems"(4) key_beyond_end by metis
    then show ?thesis using False by (subst map_get_loop.simps) simp
  next
    case True
    define idx where "idx = unat (map_loop ?h i (cm_capacity m))"
    note slot = map_loop_slot [where h = ?h, OF len pow True, folded idx_def]
    have get: "arr_get ?its (map_loop ?h i (cm_capacity m)) = Some (?its ! idx)"
      using slot(1) by (simp add: idx_def)
    note further = key_beyond_Suc [OF len pow True "1.prems"(4) idx_def]
    have le: "i + 1 \<le> cm_capacity m" using True by (rule inc_le)
    consider (found) "mi_key_addr (?its ! idx) \<noteq> NULL \<and> mi_key_hash (?its ! idx) = ?h"
        "slot_key mem ?ks ?its idx = key"
      | (other) "mi_key_addr (?its ! idx) \<noteq> NULL \<and> mi_key_hash (?its ! idx) = ?h"
        "slot_key mem ?ks ?its idx \<noteq> key"
      | (miss) "\<not> (mi_key_addr (?its ! idx) \<noteq> NULL \<and> mi_key_hash (?its ! idx) = ?h)"
      by blast
    then show ?thesis
    proof cases
      case found
      then have "map_abs mem m key = Some (mi_value (?its ! idx), mi_key_addr (?its ! idx))"
        unfolding map_abs_Some_iff [OF cont] using slot(1) by (auto simp: slot_busy_def)
      then show ?thesis using True get found "1.prems"(2)
        by (subst map_get_loop.simps) (simp add: slot_key_def os_memory_eq_correct)
    next
      case other
      then have eq: "os_memory_eq (chars mem (mi_key_addr (?its ! idx)) ?ks) key (cm_key_size m) = Some False"
        using "1.prems"(2) by (simp add: slot_key_def os_memory_eq_correct)
      have "map_get_loop mem m key ?h (i + 1) = Some (map_option fst (map_abs mem m key))"
        using "1.hyps" (1) [OF True get other(1) eq] further other "1.prems" le by simp
      then show ?thesis using True get other(1) eq by (subst map_get_loop.simps) simp
    next
      case miss
      have not_here: "\<not> (slot_busy ?its idx \<and> slot_key mem ?ks ?its idx = key)"
        using miss cont slot(1) by (auto simp: slot_busy_def map_contents_def)
      show ?thesis
      proof (cases "mi_chain (?its ! idx) = 0")
        case stop: True
        have "map_abs mem m key = None"
          unfolding map_abs_None_iff [OF cont]
          using empty_chain_stops [OF cont chains slot(1) stop, of _ key] slot(2)
            further [OF not_here] unat_Suc_word [OF True] by (fastforce simp: key_beyond_def)
        then show ?thesis using True get miss stop by (subst map_get_loop.simps) auto
      next
        case go: False
        have "map_get_loop mem m key ?h (i + 1) = Some (map_option fst (map_abs mem m key))"
          using "1.hyps" (2) [OF True get miss go] further [OF not_here] "1.prems" le by simp
        then show ?thesis using True get miss go by (subst map_get_loop.simps) auto
      qed
    qed
  qed
qed

lemma map_get_correct:
  "map_inv mem c m \<Longrightarrow> length key = unat (cm_key_size m) \<Longrightarrow>
   map_get mem m key = Some (map_option fst (map_abs mem m key))"
  unfolding map_get_def by (rule map_get_loop_correct) simp_all

section \<open>Chains during an update\<close>

text \<open>
  \<open>map_set\<close> and \<open>map_remove\<close> adjust the chains along the probe sequence before they reach the
  slot they change. After \<open>t\<close> steps from home \<open>hm\<close> the chains are one too large, respectively
  one too small, on the first \<open>t\<close> slots of the sequence.
\<close>

definition same_slots :: "map_item list \<Rightarrow> map_item list \<Rightarrow> bool" where
  "same_slots its its' \<longleftrightarrow> length its' = length its
     \<and> (\<forall>j < length its. mi_key_addr (its' ! j) = mi_key_addr (its ! j)
          \<and> mi_key_hash (its' ! j) = mi_key_hash (its ! j) \<and> mi_value (its' ! j) = mi_value (its ! j))"

definition chains_plus :: "map_item list \<Rightarrow> nat \<Rightarrow> nat \<Rightarrow> bool" where
  "chains_plus its hm t \<longleftrightarrow> (\<forall>i < length its. unat (mi_chain (its ! i))
     = card (passing its i) + (if cdist (length its) hm i < t then 1 else 0))"

definition chains_minus :: "map_item list \<Rightarrow> nat \<Rightarrow> nat \<Rightarrow> bool" where
  "chains_minus its hm t \<longleftrightarrow> (\<forall>i < length its. unat (mi_chain (its ! i))
     + (if cdist (length its) hm i < t then 1 else 0) = card (passing its i))"

lemma chains_plus_0: "chains_plus its hm 0 = chains_ok its"
  by (simp add: chains_plus_def chains_ok_def)

lemma chains_minus_0: "chains_minus its hm 0 = chains_ok its"
  by (simp add: chains_minus_def chains_ok_def)

lemma same_slots_chain: "same_slots its (its[idx := (its ! idx)\<lparr>mi_chain := c\<rparr>])"
  by (simp add: same_slots_def nth_list_update_in)

lemma passing_same_slots: "same_slots its its' \<Longrightarrow> passing its' = passing its"
  by (rule ext) (auto simp: passing_def same_slots_def slot_busy_def slot_home_def)

lemma slot_at_distance:
  assumes "hm < n" "i < n" "idx < n" "cdist n hm i = cdist n hm idx"
  shows "i = idx"
  using add_cdist [OF assms(1,2)] add_cdist [OF assms(1,3)] unfolding assms(4) by (rule trans [OF sym])

lemma near_Suc:
  assumes "hm < n" "i < n" "idx < n" "cdist n hm idx = t"
  shows "cdist n hm i < Suc t \<longleftrightarrow> cdist n hm i < t \<or> i = idx"
proof -
  have "cdist n hm i = t \<longleftrightarrow> i = idx"
    using slot_at_distance [OF assms(1-3)] assms(4) by (cases "i = idx") auto
  then show ?thesis by (simp add: less_Suc_eq)
qed

lemma chains_plus_step:
  assumes "chains_plus its hm t" "idx < length its" "cdist (length its) hm idx = t"
    "hm < length its" "length its \<le> 2 ^ 63"
  shows "chains_plus (its[idx := (its ! idx)\<lparr>mi_chain := mi_chain (its ! idx) + 1\<rparr>]) hm (Suc t)"
proof -
  have "unat (mi_chain (its ! idx)) = card (passing its idx)"
    using assms by (simp add: chains_plus_def)
  moreover have "card (passing its idx) < length its" by (rule card_passing_less [OF assms(2)])
  ultimately have "unat (mi_chain (its ! idx) + 1) = Suc (card (passing its idx))"
    using assms(5) by (simp add: unat_word_ariths)
  then show ?thesis
    using assms(1-3) unfolding chains_plus_def passing_same_slots [OF same_slots_chain] length_list_update
    by (simp add: nth_list_update_in near_Suc [OF assms(4) _ assms(2,3)])
qed

lemma chains_minus_step:
  assumes "chains_minus its hm t" "idx < length its" "cdist (length its) hm idx = t"
    "hm < length its" "passing its idx \<noteq> {}"
  shows "chains_minus (its[idx := (its ! idx)\<lparr>mi_chain := mi_chain (its ! idx) - 1\<rparr>]) hm (Suc t)"
proof -
  have c: "unat (mi_chain (its ! idx)) = card (passing its idx)"
    using assms(1) [unfolded chains_minus_def, rule_format, OF assms(2)] assms(3) by simp
  have pos: "0 < card (passing its idx)" using assms(5) by (simp add: card_gt_0_iff)
  then have "1 \<le> mi_chain (its ! idx)" using c by (simp add: word_le_nat_alt)
  then have "unat (mi_chain (its ! idx) - 1) + 1 = card (passing its idx)"
    using c pos by (simp add: unat_sub)
  then show ?thesis
    using assms(1-3) unfolding chains_minus_def passing_same_slots [OF same_slots_chain] length_list_update
    by (auto simp: nth_list_update_in near_Suc [OF assms(4) _ assms(2,3)])
qed

lemma chains_put:
  assumes plus: "chains_plus its (unat h mod length its) t"
    and idx: "idx < length its" "\<not> slot_busy its idx" "cdist (length its) (unat h mod length its) idx = t"
    and p: "p \<noteq> NULL"
  shows "chains_ok (its[idx := (its ! idx)\<lparr>mi_key_addr := p, mi_key_hash := h, mi_value := v\<rparr>])"
    (is "chains_ok ?its'")
proof -
  let ?near = "\<lambda>i. cdist (length its) (unat h mod length its) i < t"
  have "passing ?its' i = (if ?near i then insert idx (passing its i) else passing its i)" for i
    using idx p by (auto simp: passing_def slot_busy_def slot_home_def nth_list_update split: if_splits)
  moreover have "idx \<notin> passing its i" for i using idx by (simp add: passing_def)
  ultimately have "card (passing ?its' i) = card (passing its i) + (if ?near i then 1 else 0)" for i
    by simp
  moreover have "mi_chain (?its' ! i) = mi_chain (its ! i)" if "i < length its" for i
    using that by (simp add: nth_list_update_in)
  ultimately show ?thesis using plus by (simp add: chains_ok_def chains_plus_def)
qed

lemma chains_drop:
  assumes minus: "chains_minus its (slot_home its idx) t"
    and idx: "idx < length its" "slot_busy its idx" "cdist (length its) (slot_home its idx) idx = t"
  shows "chains_ok (its[idx := (its ! idx)\<lparr>mi_key_addr := NULL\<rparr>])" (is "chains_ok ?its'")
proof -
  let ?near = "\<lambda>i. cdist (length its) (slot_home its idx) i < t"
  have "passing ?its' i = passing its i - {idx}" for i
    using idx by (auto simp: passing_def slot_busy_def slot_home_def nth_list_update split: if_splits)
  moreover have "idx \<in> passing its i \<longleftrightarrow> ?near i" for i using idx by (simp add: passing_def)
  ultimately have "card (passing ?its' i) = card (passing its i) - (if ?near i then 1 else 0)" for i
    by (simp add: card_Diff_singleton_if)
  moreover have "mi_chain (?its' ! i) = mi_chain (its ! i)" if "i < length its" for i
    using that by (simp add: nth_list_update_in)
  ultimately show ?thesis using minus unfolding chains_ok_def chains_minus_def by fastforce
qed

section \<open>Insertion\<close>

text \<open>All slots but one keep their key, hash and value.\<close>

definition changed_at :: "nat \<Rightarrow> map_item list \<Rightarrow> map_item list \<Rightarrow> bool" where
  "changed_at idx its its' \<longleftrightarrow> idx < length its \<and> length its' = length its
     \<and> (\<forall>j < length its. j \<noteq> idx \<longrightarrow> mi_key_addr (its' ! j) = mi_key_addr (its ! j)
          \<and> mi_key_hash (its' ! j) = mi_key_hash (its ! j) \<and> mi_value (its' ! j) = mi_value (its ! j))"

lemma changed_at_update: "idx < length its \<Longrightarrow> changed_at idx its (its[idx := x])"
  by (simp add: changed_at_def)

lemma changed_at_same_slots: "same_slots its its1 \<Longrightarrow> changed_at idx its1 its2 \<Longrightarrow> changed_at idx its its2"
  by (auto simp: changed_at_def same_slots_def)

lemma slot_busy_same_slots: "same_slots its its' \<Longrightarrow> j < length its \<Longrightarrow> slot_busy its' j = slot_busy its j"
  by (simp add: same_slots_def slot_busy_def)

lemma map_set_loop_correct:
  assumes "length (cm_items m) = unat (cm_capacity m)" "pow2_capacity (cm_capacity m)"
    "chains_plus (cm_items m) (unat h mod length (cm_items m)) (unat i)" "i \<le> cm_capacity m"
    "\<forall>j < length (cm_items m). cdist (length (cm_items m)) (unat h mod length (cm_items m)) j < unat i
       \<longrightarrow> slot_busy (cm_items m) j"
    "\<exists>j < length (cm_items m). \<not> slot_busy (cm_items m) j" "p \<noteq> NULL"
  shows "\<exists>its' idx. map_set_loop m p v h i = Some (m\<lparr>cm_items := its'\<rparr>) \<and> changed_at idx (cm_items m) its'
    \<and> \<not> slot_busy (cm_items m) idx \<and> mi_key_addr (its' ! idx) = p \<and> mi_key_hash (its' ! idx) = h
    \<and> mi_value (its' ! idx) = v \<and> chains_ok its'"
  using assms
proof (induction m p v h i rule: map_set_loop.induct)
  case (1 m p v h i)
  let ?its = "cm_items m" and ?n = "length (cm_items m)"
  let ?hm = "unat h mod ?n"
  have n: "0 < ?n" using "1.prems"(6) by auto
  have lt: "i < cm_capacity m"
  proof (rule ccontr)
    assume "\<not> ?thesis"
    then have "unat i = ?n" using "1.prems"(1,4) by simp
    moreover obtain j where "j < ?n" "\<not> slot_busy ?its j" using "1.prems"(6) by blast
    moreover have "cdist ?n ?hm j < ?n" using n by (rule cdist_less)
    ultimately show False using "1.prems"(5) by simp
  qed
  define idx where "idx = unat (map_loop h i (cm_capacity m))"
  note slot = map_loop_slot [where h = h, OF "1.prems"(1,2) lt, folded idx_def]
  have get: "arr_get ?its (map_loop h i (cm_capacity m)) = Some (?its ! idx)"
    and set: "arr_set ?its (map_loop h i (cm_capacity m)) x = Some (?its[idx := x])" for x
    using slot(1) by (simp_all add: idx_def)
  show ?case
  proof (cases "mi_key_addr (?its ! idx) = NULL")
    case True
    let ?its' = "?its[idx := (?its ! idx)\<lparr>mi_key_addr := p, mi_key_hash := h, mi_value := v\<rparr>]"
    have "map_set_loop m p v h i = Some (m\<lparr>cm_items := ?its'\<rparr>)"
      using lt True get set by (subst map_set_loop.simps) simp
    moreover have "chains_ok ?its'"
      by (rule chains_put [OF "1.prems"(3) slot(1) _ slot(2) "1.prems"(7)]) (simp add: slot_busy_def True)
    moreover have "changed_at idx ?its ?its'" by (rule changed_at_update [OF slot(1)])
    ultimately show ?thesis
      using slot(1) True by (intro exI [of _ ?its'] exI [of _ idx]) (simp add: slot_busy_def)
  next
    case False
    let ?its1 = "?its[idx := (?its ! idx)\<lparr>mi_chain := mi_chain (?its ! idx) + 1\<rparr>]"
    have same: "same_slots ?its ?its1" by (rule same_slots_chain)
    have i1: "unat (i + 1) = Suc (unat i)" by (rule unat_Suc_word [OF lt])
    have hm: "?hm < ?n" using n by simp
    have le63: "?n \<le> 2 ^ 63" unfolding "1.prems"(1) by (rule pow2_capacity_le [OF "1.prems"(2)])
    have plus: "chains_plus ?its1 ?hm (Suc (unat i))"
      by (rule chains_plus_step [OF "1.prems"(3) slot(1,2) hm le63])
    have busy: "slot_busy ?its1 j" if j: "j < ?n" "cdist ?n ?hm j < Suc (unat i)" for j
    proof (cases "j = idx")
      case True
      then show ?thesis using slot_busy_same_slots [OF same j(1)] False by (simp add: slot_busy_def)
    next
      case other: False
      with j have "cdist ?n ?hm j < unat i"
        using near_Suc [OF hm j(1) slot(1,2)] by simp
      then show ?thesis using slot_busy_same_slots [OF same j(1)] "1.prems"(5) j(1) by simp
    qed
    have free: "\<exists>j < ?n. \<not> slot_busy ?its1 j"
      using "1.prems"(6) slot_busy_same_slots [OF same] by blast
    have "\<exists>its' idx. map_set_loop (m\<lparr>cm_items := ?its1\<rparr>) p v h (i + 1) = Some (m\<lparr>cm_items := its'\<rparr>)
      \<and> changed_at idx ?its1 its' \<and> \<not> slot_busy ?its1 idx \<and> mi_key_addr (its' ! idx) = p
      \<and> mi_key_hash (its' ! idx) = h \<and> mi_value (its' ! idx) = v \<and> chains_ok its'"
      using "1.IH" [OF lt refl get False set] "1.prems"(1,2,7) plus busy free inc_le [OF lt]
      by (simp add: i1)
    then obtain its' idx' where *: "map_set_loop (m\<lparr>cm_items := ?its1\<rparr>) p v h (i + 1) = Some (m\<lparr>cm_items := its'\<rparr>)"
      "changed_at idx' ?its1 its'" "\<not> slot_busy ?its1 idx'" "mi_key_addr (its' ! idx') = p"
      "mi_key_hash (its' ! idx') = h" "mi_value (its' ! idx') = v" "chains_ok its'" by blast
    have ch: "changed_at idx' ?its its'" by (rule changed_at_same_slots [OF same *(2)])
    then have "\<not> slot_busy ?its idx'"
      using *(3) slot_busy_same_slots [OF same] by (simp add: changed_at_def)
    moreover have "map_set_loop m p v h i = map_set_loop (m\<lparr>cm_items := ?its1\<rparr>) p v h (i + 1)"
      using lt False get set by (subst map_set_loop.simps) simp
    ultimately show ?thesis using ch *(1,4-7) by (intro exI [of _ its'] exI [of _ idx']) simp
  qed
qed

text \<open>The keys of the table after one slot changed.\<close>

lemma changed_at_slot:
  assumes "changed_at idx its its'" "j < length its" "j \<noteq> idx"
  shows "slot_busy its' j = slot_busy its j" "slot_key mem ks its' j = slot_key mem ks its j"
    "mi_key_hash (its' ! j) = mi_key_hash (its ! j)" "mi_value (its' ! j) = mi_value (its ! j)"
    "mi_key_addr (its' ! j) = mi_key_addr (its ! j)"
  using assms by (simp_all add: changed_at_def slot_busy_def slot_key_def)

lemma changed_at_length: "changed_at idx its its' \<Longrightarrow> length its' = length its \<and> idx < length its"
  by (simp add: changed_at_def)

lemma map_contents_put:
  assumes cont: "map_contents mem ks its" and ch: "changed_at idx its its'"
    and hash: "mi_key_hash (its' ! idx) = os_memory_hash (slot_key mem ks its' idx)"
    and fresh: "\<And>j. j < length its \<Longrightarrow> slot_busy its j \<Longrightarrow> slot_key mem ks its j \<noteq> slot_key mem ks its' idx"
  shows "map_contents mem ks its'"
proof -
  note len = changed_at_length [OF ch] and slot = changed_at_slot [OF ch]
  have "mi_key_hash (its' ! j) = os_memory_hash (slot_key mem ks its' j)"
    if "j < length its" "slot_busy its' j" for j
    using that cont slot hash by (cases "j = idx") (simp_all add: map_contents_def)
  moreover have "i = j" if "i < length its" "j < length its" "slot_busy its' i" "slot_busy its' j"
    "slot_key mem ks its' i = slot_key mem ks its' j" for i j
  proof (cases "i = idx \<or> j = idx")
    case True
    then show ?thesis using that slot fresh by metis
  next
    case False
    then show ?thesis using that cont slot by (simp add: map_contents_def)
  qed
  ultimately show ?thesis using len by (simp add: map_contents_def)
qed

lemma map_contents_drop:
  assumes cont: "map_contents mem ks its" and ch: "changed_at idx its its'" and free: "\<not> slot_busy its' idx"
  shows "map_contents mem ks its'"
proof -
  note len = changed_at_length [OF ch] and slot = changed_at_slot [OF ch]
  have ne: "slot_busy its' j \<Longrightarrow> j \<noteq> idx" for j using free by blast
  show ?thesis
    using cont unfolding map_contents_def len [THEN conjunct1] by (metis ne slot)
qed

lemma map_abs_eqI:
  assumes "\<And>k v p. f k = Some (v, p) \<longleftrightarrow> g k = Some (v, p)"
  shows "f = (g :: byte list \<Rightarrow> (size_t \<times> addr) option)"
proof
  fix k show "f k = g k"
    using assms [of k] by (cases "f k"; cases "g k") auto
qed

lemma map_abs_put:
  assumes cont: "map_contents mem (unat (cm_key_size m)) (cm_items m)"
    and cont': "map_contents mem (unat (cm_key_size m)) its'" and ch: "changed_at idx (cm_items m) its'"
    and free: "\<not> slot_busy (cm_items m) idx" and busy: "slot_busy its' idx"
    and k: "k = slot_key mem (unat (cm_key_size m)) its' idx"
    and fresh: "map_abs mem m k = None"
  shows "map_abs mem (m\<lparr>cm_items := its'\<rparr>)
    = (map_abs mem m)(k \<mapsto> (mi_value (its' ! idx), mi_key_addr (its' ! idx)))"
proof (rule map_abs_eqI)
  fix k1 v p
  let ?m' = "m\<lparr>cm_items := its'\<rparr>" and ?ks = "unat (cm_key_size m)" and ?its = "cm_items m"
  note len = changed_at_length [OF ch] and slot = changed_at_slot [OF ch]
  have cm': "map_contents mem (unat (cm_key_size ?m')) (cm_items ?m')" using cont' by simp
  have "map_abs mem ?m' k1 = Some (v, p) \<longleftrightarrow>
    (\<exists>j < length its'. slot_busy its' j \<and> slot_key mem ?ks its' j = k1 \<and> mi_value (its' ! j) = v \<and> mi_key_addr (its' ! j) = p)"
    using map_abs_Some_iff [OF cm'] by simp
  also have "\<dots> \<longleftrightarrow> (k1 = k \<and> mi_value (its' ! idx) = v \<and> mi_key_addr (its' ! idx) = p)
    \<or> map_abs mem m k1 = Some (v, p)"
  proof
    assume "\<exists>j < length its'. slot_busy its' j \<and> slot_key mem ?ks its' j = k1 \<and> mi_value (its' ! j) = v \<and> mi_key_addr (its' ! j) = p"
    then obtain j where j: "j < length ?its" "slot_busy its' j" "slot_key mem ?ks its' j = k1"
      "mi_value (its' ! j) = v" "mi_key_addr (its' ! j) = p" using len by auto
    show "(k1 = k \<and> mi_value (its' ! idx) = v \<and> mi_key_addr (its' ! idx) = p) \<or> map_abs mem m k1 = Some (v, p)"
    proof (cases "j = idx")
      case True
      then show ?thesis using j k by simp
    next
      case False
      note old = slot [OF j(1) this]
      have "map_abs mem m k1 = Some (v, p)"
        unfolding map_abs_Some_iff [OF cont] using j old by auto
      then show ?thesis ..
    qed
  next
    assume "(k1 = k \<and> mi_value (its' ! idx) = v \<and> mi_key_addr (its' ! idx) = p) \<or> map_abs mem m k1 = Some (v, p)"
    then show "\<exists>j < length its'. slot_busy its' j \<and> slot_key mem ?ks its' j = k1 \<and> mi_value (its' ! j) = v \<and> mi_key_addr (its' ! j) = p"
    proof
      assume "k1 = k \<and> mi_value (its' ! idx) = v \<and> mi_key_addr (its' ! idx) = p"
      then show ?thesis using len busy k by (intro exI [of _ idx]) simp
    next
      assume "map_abs mem m k1 = Some (v, p)"
      then obtain j where j: "j < length ?its" "slot_busy ?its j" "slot_key mem ?ks ?its j = k1"
        "mi_value (?its ! j) = v" "mi_key_addr (?its ! j) = p"
        unfolding map_abs_Some_iff [OF cont] by blast
      then have "j \<noteq> idx" using free by blast
      with j slot [OF j(1) this] len show ?thesis by (intro exI [of _ j]) simp
    qed
  qed
  also have "\<dots> \<longleftrightarrow> ((map_abs mem m)(k \<mapsto> (mi_value (its' ! idx), mi_key_addr (its' ! idx)))) k1 = Some (v, p)"
    using fresh by auto
  finally show "map_abs mem ?m' k1 = Some (v, p) \<longleftrightarrow>
    ((map_abs mem m)(k \<mapsto> (mi_value (its' ! idx), mi_key_addr (its' ! idx)))) k1 = Some (v, p)" .
qed

lemma map_abs_drop:
  assumes cont: "map_contents mem (unat (cm_key_size m)) (cm_items m)"
    and cont': "map_contents mem (unat (cm_key_size m)) its'" and ch: "changed_at idx (cm_items m) its'"
    and free: "\<not> slot_busy its' idx" and busy: "slot_busy (cm_items m) idx"
    and k: "k = slot_key mem (unat (cm_key_size m)) (cm_items m) idx"
  shows "map_abs mem (m\<lparr>cm_items := its'\<rparr>) = (map_abs mem m)(k := None)"
proof (rule map_abs_eqI)
  fix k1 v p
  let ?m' = "m\<lparr>cm_items := its'\<rparr>" and ?ks = "unat (cm_key_size m)" and ?its = "cm_items m"
  note len = changed_at_length [OF ch] and slot = changed_at_slot [OF ch]
  have cm': "map_contents mem (unat (cm_key_size ?m')) (cm_items ?m')" using cont' by simp
  have other: "slot_key mem ?ks ?its j \<noteq> k" if "j < length ?its" "slot_busy ?its j" "j \<noteq> idx" for j
    using cont that len busy k by (auto simp: map_contents_def)
  have "map_abs mem ?m' k1 = Some (v, p) \<longleftrightarrow>
    (\<exists>j < length ?its. slot_busy its' j \<and> slot_key mem ?ks its' j = k1 \<and> mi_value (its' ! j) = v \<and> mi_key_addr (its' ! j) = p)"
    using map_abs_Some_iff [OF cm'] len by simp
  also have "\<dots> \<longleftrightarrow> k1 \<noteq> k \<and> map_abs mem m k1 = Some (v, p)"
  proof
    assume "\<exists>j < length ?its. slot_busy its' j \<and> slot_key mem ?ks its' j = k1 \<and> mi_value (its' ! j) = v \<and> mi_key_addr (its' ! j) = p"
    then obtain j where j: "j < length ?its" "slot_busy its' j" "slot_key mem ?ks its' j = k1"
      "mi_value (its' ! j) = v" "mi_key_addr (its' ! j) = p" by blast
    then have "j \<noteq> idx" using free by blast
    note old = slot [OF j(1) this]
    show "k1 \<noteq> k \<and> map_abs mem m k1 = Some (v, p)"
      unfolding map_abs_Some_iff [OF cont] using j old other [OF j(1) _ \<open>j \<noteq> idx\<close>] by auto
  next
    assume a: "k1 \<noteq> k \<and> map_abs mem m k1 = Some (v, p)"
    then obtain j where j: "j < length ?its" "slot_busy ?its j" "slot_key mem ?ks ?its j = k1"
      "mi_value (?its ! j) = v" "mi_key_addr (?its ! j) = p"
      unfolding map_abs_Some_iff [OF cont] by blast
    then have "j \<noteq> idx" using a k by blast
    with j slot [OF j(1) this]
    show "\<exists>j < length ?its. slot_busy its' j \<and> slot_key mem ?ks its' j = k1 \<and> mi_value (its' ! j) = v \<and> mi_key_addr (its' ! j) = p"
      by (intro exI [of _ j]) simp
  qed
  also have "\<dots> \<longleftrightarrow> ((map_abs mem m)(k := None)) k1 = Some (v, p)" by auto
  finally show "map_abs mem ?m' k1 = Some (v, p) \<longleftrightarrow> ((map_abs mem m)(k := None)) k1 = Some (v, p)" .
qed

lemma map_inv_free_slot:
  assumes inv: "map_inv mem c m" and room: "card (dom (map_abs mem m)) < unat c"
  shows "\<exists>j < length (cm_items m). \<not> slot_busy (cm_items m) j"
proof (rule ccontr)
  assume "\<not> ?thesis"
  then have "{j. j < length (cm_items m) \<and> slot_busy (cm_items m) j} = {..<length (cm_items m)}" by auto
  then have "card (dom (map_abs mem m)) = length (cm_items m)"
    using inv by (simp add: card_dom_map_abs map_inv_def)
  with inv room show False by (simp add: map_inv_def word_le_nat_alt)
qed

lemma map_set_correct:
  assumes inv: "map_inv mem c m" and k: "k = chars mem p (unat (cm_key_size m))"
    and fresh: "map_abs mem m k = None" and room: "card (dom (map_abs mem m)) < unat c" and p: "p \<noteq> NULL"
  shows "\<exists>its'. map_set mem m p v = Some (m\<lparr>cm_items := its'\<rparr>) \<and> map_inv mem c (m\<lparr>cm_items := its'\<rparr>)
    \<and> map_abs mem (m\<lparr>cm_items := its'\<rparr>) = (map_abs mem m)(k \<mapsto> (v, p))"
proof -
  let ?its = "cm_items m" and ?ks = "unat (cm_key_size m)"
  have len: "length ?its = unat (cm_capacity m)" and pow: "pow2_capacity (cm_capacity m)"
    and cont: "map_contents mem ?ks ?its" and chains: "chains_ok ?its" and c: "c \<le> cm_capacity m"
    using inv by (simp_all add: map_inv_def)
  have plus: "chains_plus ?its (unat (os_memory_hash k) mod length ?its) (unat (0 :: size_t))"
    using chains by (simp add: chains_plus_0)
  obtain its' idx where set: "map_set_loop m p v (os_memory_hash k) 0 = Some (m\<lparr>cm_items := its'\<rparr>)"
    and ch: "changed_at idx ?its its'" and free: "\<not> slot_busy ?its idx"
    and new: "mi_key_addr (its' ! idx) = p" "mi_key_hash (its' ! idx) = os_memory_hash k"
      "mi_value (its' ! idx) = v" and ok: "chains_ok its'"
    using map_set_loop_correct [OF len pow plus _ _ map_inv_free_slot [OF inv room] p, of v] by auto
  have key: "slot_key mem ?ks its' idx = k" and busy: "slot_busy its' idx"
    using new k p by (simp_all add: slot_key_def slot_busy_def)
  have cont': "map_contents mem ?ks its'"
    using fresh new(2) unfolding map_abs_None_iff [OF cont]
    by (intro map_contents_put [OF cont ch]) (auto simp: key)
  have "map_abs mem (m\<lparr>cm_items := its'\<rparr>) = (map_abs mem m)(k \<mapsto> (v, p))"
    using map_abs_put [OF cont cont' ch free busy key [symmetric] fresh] by (simp add: new)
  moreover have "map_inv mem c (m\<lparr>cm_items := its'\<rparr>)"
    using len pow cont' ok c changed_at_length [OF ch] by (simp add: map_inv_def)
  ultimately show ?thesis using set k by (auto simp: map_set_def)
qed

section \<open>Removal\<close>

lemma key_beyond_same_slots:
  "same_slots its its' \<Longrightarrow> key_beyond mem ks its key t \<Longrightarrow> key_beyond mem ks its' key t"
  by (simp add: key_beyond_def same_slots_def slot_busy_def slot_key_def)

lemma map_contents_same_slots: "same_slots its its' \<Longrightarrow> map_contents mem ks its \<Longrightarrow> map_contents mem ks its'"
  by (simp add: map_contents_def same_slots_def slot_busy_def slot_key_def)

lemma slot_key_same_slots: "same_slots its its' \<Longrightarrow> j < length its \<Longrightarrow> slot_key mem ks its' j = slot_key mem ks its j"
  by (simp add: same_slots_def slot_key_def)

lemma slot_home_key:
  "map_contents mem ks its \<Longrightarrow> j < length its \<Longrightarrow> slot_busy its j \<Longrightarrow>
   slot_home its j = unat (os_memory_hash (slot_key mem ks its j)) mod length its"
  by (simp add: slot_home_def map_contents_def)

text \<open>The items before the key's on its probe sequence are passed by the key.\<close>

lemma passing_not_empty:
  assumes "map_contents mem ks its" "key_beyond mem ks its key (Suc t)"
    "cdist (length its) (unat (os_memory_hash key) mod length its) idx = t"
    "j < length its" "slot_busy its j" "slot_key mem ks its j = key"
  shows "passing its idx \<noteq> {}"
proof -
  have "slot_home its j = unat (os_memory_hash key) mod length its"
    using slot_home_key [OF assms(1,4,5)] assms(6) by simp
  then have "j \<in> passing its idx" using assms by (auto simp: passing_def key_beyond_def)
  then show ?thesis by blast
qed

lemma map_remove_loop_correct:
  assumes "length (cm_items m) = unat (cm_capacity m)" "pow2_capacity (cm_capacity m)"
    "map_contents mem (unat (cm_key_size m)) (cm_items m)" "length key = unat (cm_key_size m)"
    "chains_minus (cm_items m) (unat (os_memory_hash key) mod length (cm_items m)) (unat i)"
    "i \<le> cm_capacity m" "key_beyond mem (unat (cm_key_size m)) (cm_items m) key (unat i)"
    "\<exists>j < length (cm_items m). slot_busy (cm_items m) j
       \<and> slot_key mem (unat (cm_key_size m)) (cm_items m) j = key"
  shows "\<exists>its' idx. map_remove_loop mem m key (os_memory_hash key) i = Some (m\<lparr>cm_items := its'\<rparr>)
    \<and> changed_at idx (cm_items m) its' \<and> slot_busy (cm_items m) idx
    \<and> slot_key mem (unat (cm_key_size m)) (cm_items m) idx = key
    \<and> mi_key_addr (its' ! idx) = NULL \<and> chains_ok its'"
  using assms
proof (induction mem m key "os_memory_hash key" i rule: map_remove_loop.induct)
  case (1 mem m key i)
  let ?its = "cm_items m" and ?n = "length (cm_items m)" and ?ks = "unat (cm_key_size m)"
  let ?h = "os_memory_hash key" let ?hm = "unat ?h mod ?n"
  note cont = "1.prems"(3)
  obtain j0 where j0: "j0 < ?n" "slot_busy ?its j0" "slot_key mem ?ks ?its j0 = key" using "1.prems"(8) by blast
  have n: "0 < ?n" using j0(1) by auto
  then have hm: "?hm < ?n" by simp
  have lt: "i < cm_capacity m"
  proof (rule ccontr)
    assume "\<not> ?thesis"
    then have "unat i = ?n" using "1.prems"(1,6) by simp
    then show False using key_beyond_end [OF _ j0(1,2)] "1.prems"(7) j0(3) by metis
  qed
  define idx where "idx = unat (map_loop ?h i (cm_capacity m))"
  note slot = map_loop_slot [where h = ?h, OF "1.prems"(1,2) lt, folded idx_def]
  have get: "arr_get ?its (map_loop ?h i (cm_capacity m)) = Some (?its ! idx)"
    and set: "arr_set ?its (map_loop ?h i (cm_capacity m)) x = Some (?its[idx := x])" for x
    using slot(1) by (simp_all add: idx_def)
  have eq: "os_memory_eq (chars mem (mi_key_addr (?its ! idx)) ?ks) key (cm_key_size m)
    = Some (slot_key mem ?ks ?its idx = key)"
    using "1.prems"(4) by (simp add: slot_key_def os_memory_eq_correct)
  define here where "here \<longleftrightarrow> slot_busy ?its idx \<and> slot_key mem ?ks ?its idx = key"
  have found: "(if mi_key_addr (?its ! idx) \<noteq> NULL \<and> mi_key_hash (?its ! idx) = ?h
      then os_memory_eq (chars mem (mi_key_addr (?its ! idx)) ?ks) key (cm_key_size m) else Some False) = Some here"
    using eq cont slot(1) by (auto simp: here_def slot_busy_def map_contents_def)
  show ?case
  proof (cases here)
    case True
    let ?its' = "?its[idx := (?its ! idx)\<lparr>mi_key_addr := NULL\<rparr>]"
    have key: "slot_busy ?its idx" "slot_key mem ?ks ?its idx = key" using True by (simp_all add: here_def)
    have home: "slot_home ?its idx = ?hm" using slot_home_key [OF cont slot(1) key(1)] key(2) by simp
    have "map_remove_loop mem m key ?h i = Some (m\<lparr>cm_items := ?its'\<rparr>)"
      using lt True get set found by (subst map_remove_loop.simps) simp
    moreover have "chains_ok ?its'"
      by (rule chains_drop [OF _ slot(1) key(1)]) (simp_all only: home slot(2) "1.prems"(5))
    moreover have "changed_at idx ?its ?its'" by (rule changed_at_update [OF slot(1)])
    ultimately show ?thesis
      using slot(1) key by (intro exI [of _ ?its'] exI [of _ idx]) simp
  next
    case False
    let ?its1 = "?its[idx := (?its ! idx)\<lparr>mi_chain := mi_chain (?its ! idx) - 1\<rparr>]"
    have same: "same_slots ?its ?its1" by (rule same_slots_chain)
    have i1: "unat (i + 1) = Suc (unat i)" by (rule unat_Suc_word [OF lt])
    have beyond: "key_beyond mem ?ks ?its key (Suc (unat i))"
      using key_beyond_Suc [OF "1.prems"(1,2) lt "1.prems"(7) idx_def] False by (simp add: here_def i1)
    have minus: "chains_minus ?its1 ?hm (Suc (unat i))"
      by (rule chains_minus_step [OF "1.prems"(5) slot(1,2) hm passing_not_empty [OF cont beyond slot(2) j0]])
    have beyond1: "key_beyond mem ?ks ?its1 key (Suc (unat i))" by (rule key_beyond_same_slots [OF same beyond])
    have cont1: "map_contents mem ?ks ?its1" by (rule map_contents_same_slots [OF same cont])
    have ex: "\<exists>j < ?n. slot_busy ?its1 j \<and> slot_key mem ?ks ?its1 j = key"
      using j0 slot_busy_same_slots [OF same] slot_key_same_slots [OF same] by blast
    have "\<exists>its' idx. map_remove_loop mem (m\<lparr>cm_items := ?its1\<rparr>) key ?h (i + 1) = Some (m\<lparr>cm_items := its'\<rparr>)
      \<and> changed_at idx ?its1 its' \<and> slot_busy ?its1 idx \<and> slot_key mem ?ks ?its1 idx = key
      \<and> mi_key_addr (its' ! idx) = NULL \<and> chains_ok its'"
      using "1.hyps" [OF lt refl get found False set] "1.prems"(1,2,4) minus beyond1 cont1 ex inc_le [OF lt]
      by (simp add: i1)
    then obtain its' idx' where *: "map_remove_loop mem (m\<lparr>cm_items := ?its1\<rparr>) key ?h (i + 1) = Some (m\<lparr>cm_items := its'\<rparr>)"
      "changed_at idx' ?its1 its'" "slot_busy ?its1 idx'" "slot_key mem ?ks ?its1 idx' = key"
      "mi_key_addr (its' ! idx') = NULL" "chains_ok its'" by blast
    have ch: "changed_at idx' ?its its'" by (rule changed_at_same_slots [OF same *(2)])
    then have idx': "idx' < ?n" by (simp add: changed_at_def)
    moreover have "map_remove_loop mem m key ?h i = map_remove_loop mem (m\<lparr>cm_items := ?its1\<rparr>) key ?h (i + 1)"
      using lt False get set found by (subst map_remove_loop.simps) simp
    ultimately show ?thesis
      using ch * slot_busy_same_slots [OF same idx'] slot_key_same_slots [OF same idx']
      by (intro exI [of _ its'] exI [of _ idx']) simp
  qed
qed

lemma map_remove_correct:
  assumes inv: "map_inv mem c m" and k: "length key = unat (cm_key_size m)"
    and present: "map_abs mem m key \<noteq> None"
  shows "\<exists>its'. map_remove mem m key = Some (m\<lparr>cm_items := its'\<rparr>) \<and> map_inv mem c (m\<lparr>cm_items := its'\<rparr>)
    \<and> map_abs mem (m\<lparr>cm_items := its'\<rparr>) = (map_abs mem m)(key := None)"
proof -
  let ?its = "cm_items m" and ?ks = "unat (cm_key_size m)"
  have len: "length ?its = unat (cm_capacity m)" and pow: "pow2_capacity (cm_capacity m)"
    and cont: "map_contents mem ?ks ?its" and chains: "chains_ok ?its" and c: "c \<le> cm_capacity m"
    using inv by (simp_all add: map_inv_def)
  have minus: "chains_minus ?its (unat (os_memory_hash key) mod length ?its) (unat (0 :: size_t))"
    using chains by (simp add: chains_minus_0)
  obtain its' idx where rem: "map_remove_loop mem m key (os_memory_hash key) 0 = Some (m\<lparr>cm_items := its'\<rparr>)"
    and ch: "changed_at idx ?its its'" and busy: "slot_busy ?its idx"
    and key: "slot_key mem ?ks ?its idx = key" and free: "mi_key_addr (its' ! idx) = NULL" and ok: "chains_ok its'"
    using map_remove_loop_correct [OF len pow cont k minus] present map_abs_None_iff [OF cont, of key] by auto
  have nb: "\<not> slot_busy its' idx" using free by (simp add: slot_busy_def)
  have cont': "map_contents mem ?ks its'" by (rule map_contents_drop [OF cont ch nb])
  have "map_abs mem (m\<lparr>cm_items := its'\<rparr>) = (map_abs mem m)(key := None)"
    by (rule map_abs_drop [OF cont cont' ch nb busy key [symmetric]])
  moreover have "map_inv mem c (m\<lparr>cm_items := its'\<rparr>)"
    using len pow cont' ok c changed_at_length [OF ch] by (simp add: map_inv_def)
  ultimately show ?thesis using rem by (auto simp: map_remove_def)
qed

section \<open>Framing and allocation\<close>

text \<open>The map only reads the keys its items point to.\<close>

definition keys_agree :: "mem \<Rightarrow> mem \<Rightarrow> cmap \<Rightarrow> bool" where
  "keys_agree mem mem' m \<longleftrightarrow> (\<forall>it \<in> set (cm_items m). mi_key_addr it \<noteq> NULL \<longrightarrow>
     chars mem' (mi_key_addr it) (unat (cm_key_size m)) = chars mem (mi_key_addr it) (unat (cm_key_size m)))"

lemma keys_agree_slot:
  "keys_agree mem mem' m \<Longrightarrow> j < length (cm_items m) \<Longrightarrow> slot_busy (cm_items m) j \<Longrightarrow>
   slot_key mem' (unat (cm_key_size m)) (cm_items m) j = slot_key mem (unat (cm_key_size m)) (cm_items m) j"
  by (simp add: keys_agree_def slot_key_def slot_busy_def)

lemma map_inv_frame: "keys_agree mem mem' m \<Longrightarrow> map_inv mem c m \<Longrightarrow> map_inv mem' c m"
  by (auto simp: map_inv_def map_contents_def keys_agree_slot)

lemma map_abs_frame: "keys_agree mem mem' m \<Longrightarrow> map_abs mem' m = map_abs mem m"
  unfolding map_abs_def by (rule arg_cong [where f = map_of]) (auto simp: keys_agree_def)

lemma map_abs_addr: "map_inv mem c m \<Longrightarrow> map_abs mem m k = Some (v, p) \<Longrightarrow>
  p \<noteq> NULL \<and> chars mem p (unat (cm_key_size m)) = k"
  by (auto simp: map_inv_def map_abs_Some_iff slot_busy_def slot_key_def)

lemma keys_agree_abs:
  assumes "map_inv mem c m"
    and "\<And>k v p. map_abs mem m k = Some (v, p) \<Longrightarrow>
      chars mem' p (unat (cm_key_size m)) = chars mem p (unat (cm_key_size m))"
  shows "keys_agree mem mem' m"
  unfolding keys_agree_def
proof (intro ballI impI)
  fix it assume it: "it \<in> set (cm_items m)" "mi_key_addr it \<noteq> NULL"
  then obtain j where "j < length (cm_items m)" "cm_items m ! j = it" by (auto simp: in_set_conv_nth)
  with it assms(1) have "map_abs mem m (chars mem (mi_key_addr it) (unat (cm_key_size m)))
    = Some (mi_value it, mi_key_addr it)"
    by (auto simp: map_inv_def map_abs_Some_iff slot_busy_def slot_key_def)
  then show "chars mem' (mi_key_addr it) (unat (cm_key_size m)) = chars mem (mi_key_addr it) (unat (cm_key_size m))"
    by (rule assms(2))
qed

definition free_item :: "map_item \<Rightarrow> bool" where
  "free_item it \<longleftrightarrow> mi_key_addr it = NULL \<and> mi_chain it = 0"

lemma map_alloc_loop_correct:
  assumes "length items = unat c" "n \<le> c" "\<forall>j < unat n. free_item (items ! j)"
  shows "\<exists>items'. map_alloc_loop items c n = Some items' \<and> length items' = unat c
    \<and> (\<forall>it \<in> set items'. free_item it)"
  using assms
proof (induction items c n rule: map_alloc_loop.induct)
  case (1 items c n)
  show ?case
  proof (cases "n < c")
    case True
    then have n: "unat n < length items" using "1.prems"(1) by (simp add: word_less_nat_alt)
    note i1 = unat_Suc_word [OF True]
    let ?items = "items[unat n := (items ! unat n)\<lparr>mi_key_addr := NULL, mi_chain := 0\<rparr>]"
    have "\<forall>j < Suc (unat n). free_item (?items ! j)"
      using "1.prems"(3) n by (simp add: nth_list_update_in free_item_def less_Suc_eq)
    then have "\<exists>items'. map_alloc_loop ?items c (n + 1) = Some items' \<and> length items' = unat c
      \<and> (\<forall>it \<in> set items'. free_item it)"
      using "1.IH" [OF True arr_get_in [OF n] arr_set_in [OF n]] "1.prems"(1) inc_le [OF True] by (simp add: i1)
    then show ?thesis using True n by (subst map_alloc_loop.simps) simp
  next
    case False
    then have "n = c" using "1.prems"(2) by simp
    then show ?thesis using "1.prems" by (subst map_alloc_loop.simps) (auto simp: in_set_conv_nth)
  qed
qed

lemma free_items_inv:
  assumes "\<forall>it \<in> set (cm_items m). free_item it" "length (cm_items m) = unat (cm_capacity m)"
    "pow2_capacity (cm_capacity m)" "c \<le> cm_capacity m"
  shows "map_inv mem c m" "map_abs mem m = Map.empty"
proof -
  have "\<not> slot_busy (cm_items m) j" if "j < length (cm_items m)" for j
    using assms(1) that by (simp add: slot_busy_def free_item_def)
  moreover from this have "passing (cm_items m) i = {}" for i by (auto simp: passing_def)
  ultimately show "map_inv mem c m"
    using assms by (simp add: map_inv_def map_contents_def chains_ok_def free_item_def)
  have "filter (\<lambda>it. mi_key_addr it \<noteq> NULL) (cm_items m) = []"
    using assms(1) by (simp add: filter_empty_conv free_item_def)
  then show "map_abs mem m = Map.empty" by (simp add: map_abs_def)
qed

text \<open>Where the allocator has room, the result is an empty map with room for \<open>capacity\<close> keys.\<close>

lemma map_alloc_correct:
  assumes "map_alloc om ks capacity = Some (m, om')" "unat capacity \<le> 2 ^ 63"
  shows "map_inv mem capacity m" "map_abs mem m = Map.empty" "cm_key_size m = ks"
proof -
  obtain r where r: "get_real_capacity capacity = Some r" "pow2_capacity r" "capacity \<le> r"
    using get_real_capacity_correct [OF assms(2)] by blast
  obtain items where items: "map_alloc_loop (replicate (unat r) zero_item) r 0 = Some items"
    "length items = unat r" "\<forall>it \<in> set items. free_item it"
    using map_alloc_loop_correct [of "replicate (unat r) zero_item" r 0] by auto
  have m: "m = \<lparr>cm_items = items, cm_capacity = r, cm_key_size = ks\<rparr>"
    using assms(1) r(1) items(1) by (auto simp: map_alloc_def split: Option.bind_splits)
  show "map_inv mem capacity m" "map_abs mem m = Map.empty" "cm_key_size m = ks"
    using free_items_inv [of m capacity mem] items r by (simp_all add: m)
qed
section \<open>Properties\<close>

text \<open>
  Rounding up to a power of two ends exactly for capacities up to \<open>2\<^sup>6\<^sup>3\<close>, and then gives a
  power of two that is at least the capacity and less than twice it.
\<close>

theorem get_real_capacity_total:
  "if unat capacity \<le> 2 ^ 63
   then \<exists>r. get_real_capacity capacity = Some r \<and> capacity \<le> r \<and> unat r \<le> 2 * unat capacity
     \<and> (r = 0 \<or> (\<exists>k. unat r = 2 ^ k))
   else get_real_capacity capacity = None"
  using get_real_capacity_correct [of capacity] get_real_capacity_diverges [of capacity]
  by (auto simp: pow2_capacity_def not_le)

text \<open>
  C19: A lookup in a well-formed map ends without an access out of bounds and finds exactly the
  value the abstract finite map has for the key, although it stops at the first empty chain.
\<close>

theorem map_get_refines:
  "map_inv mem c m \<Longrightarrow> length key = unat (cm_key_size m) \<Longrightarrow>
   map_get mem m key = Some (map_option fst (map_abs mem m key))"
  by (rule map_get_correct)

text \<open>A map with room for two keys of four bytes, holding one key, and the memory of the keys.\<close>

definition map_example_mem :: mem where
  "map_example_mem a = (if a = 64 then 7 else if a = 68 then 9 else 0)"

definition map_example :: cmap where
  "map_example = \<lparr>cm_items = [zero_item, zero_item], cm_capacity = 2, cm_key_size = 4\<rparr>"

lemma map_example_ok: "map_inv mem 2 map_example" "map_abs mem map_example = Map.empty"
  "unat (cm_key_size map_example) = 4"
proof -
  have "pow2_capacity 2" by (auto simp: pow2_capacity_def intro: exI [of _ 1])
  then show "map_inv mem 2 map_example" "map_abs mem map_example = Map.empty"
    by (auto intro!: free_items_inv simp: map_example_def free_item_def zero_item_def)
qed (simp add: map_example_def)

theorem map_get_refines_witness: "map_get map_example_mem map_example [7, 0, 0, 0] = Some None"
  using map_get_refines [OF map_example_ok(1), of "[7, 0, 0, 0]" map_example_mem]
  by (simp add: map_example_ok)

text \<open>
  C8: An insertion of a new key into a map that is not at its capacity succeeds without an
  access out of bounds, keeps the map well-formed and updates the abstract map at that key only.
\<close>

theorem map_set_refines:
  assumes "map_inv mem c m" "map_abs mem m (chars mem p (unat (cm_key_size m))) = None"
    "card (dom (map_abs mem m)) < unat c" "p \<noteq> NULL"
  shows "\<exists>m'. map_set mem m p v = Some m' \<and> map_inv mem c m' \<and> cm_key_size m' = cm_key_size m
    \<and> map_abs mem m' = (map_abs mem m)(chars mem p (unat (cm_key_size m)) \<mapsto> (v, p))"
  using map_set_correct [where v = v, OF assms(1) refl assms(2-4)] by auto

theorem map_set_refines_witness:
  "\<exists>m'. map_set map_example_mem map_example 64 5 = Some m'
    \<and> map_get map_example_mem m' [7, 0, 0, 0] = Some (Some 5)
    \<and> map_abs map_example_mem m' = [[7, 0, 0, 0] \<mapsto> (5, 64)]"
proof -
  have k: "chars map_example_mem 64 4 = [7, 0, 0, 0]" by code_simp
  from map_set_refines [OF map_example_ok(1), of map_example_mem 64 5] obtain m' where
    "map_set map_example_mem map_example 64 5 = Some m'" "map_inv map_example_mem 2 m'"
    "cm_key_size m' = cm_key_size map_example" "map_abs map_example_mem m' = [[7, 0, 0, 0] \<mapsto> (5, 64)]"
    by (auto simp: map_example_ok k)
  moreover from this have "map_get map_example_mem m' [7, 0, 0, 0] = Some (Some 5)"
    using map_get_correct [of map_example_mem 2 m' "[7, 0, 0, 0]"] by (simp add: map_example_ok)
  ultimately show ?thesis by blast
qed

text \<open>
  C20: Removing a key that the map holds succeeds without an access out of bounds, keeps the map
  well-formed, its chains included, and removes that key only.
\<close>

theorem map_remove_refines:
  assumes "map_inv mem c m" "length key = unat (cm_key_size m)" "map_abs mem m key \<noteq> None"
  shows "\<exists>m'. map_remove mem m key = Some m' \<and> map_inv mem c m' \<and> cm_key_size m' = cm_key_size m
    \<and> map_abs mem m' = (map_abs mem m)(key := None)"
  using map_remove_correct [OF assms] by auto

theorem map_remove_refines_witness:
  "\<exists>m m'. map_set map_example_mem map_example 64 5 = Some m
    \<and> map_remove map_example_mem m [7, 0, 0, 0] = Some m' \<and> map_abs map_example_mem m' = Map.empty"
proof -
  have k: "chars map_example_mem 64 4 = [7, 0, 0, 0]" by code_simp
  from map_set_correct [OF map_example_ok(1) refl, of map_example_mem 64 5] obtain m where
    m: "map_set map_example_mem map_example 64 5 = Some m" "map_inv map_example_mem 2 m"
    "unat (cm_key_size m) = 4" "map_abs map_example_mem m = [[7, 0, 0, 0] \<mapsto> (5, 64)]"
    by (auto simp: map_example_ok k)
  from map_remove_refines [OF m(2), of "[7, 0, 0, 0]"] m show ?thesis by auto
qed

text \<open>
  A map that was allocated is well-formed for the capacity asked for, and empty.
\<close>

theorem map_alloc_establishes:
  assumes "map_alloc om ks capacity = Some (m, om')" "unat capacity \<le> 2 ^ 63"
  shows "map_inv mem capacity m \<and> map_abs mem m = Map.empty \<and> cm_key_size m = ks"
  using map_alloc_correct [OF assms] by blast

lemma map_example_alloc:
  "map_alloc \<lparr>mem_base = 4096, mem_used = 0\<rparr> 4 2 = Some (map_example, \<lparr>mem_base = 4096, mem_used = 128\<rparr>)"
proof -
  have "get_real_capacity 2 = Some 2"
    "map_alloc_loop (replicate 2 zero_item) 2 0 = Some [zero_item, zero_item]" by code_simp+
  moreover have
    "os_memory_alloc \<lparr>mem_base = 4096, mem_used = 0\<rparr> 1 24 = Some (4096, \<lparr>mem_base = 4096, mem_used = 24\<rparr>)"
    "os_memory_alloc \<lparr>mem_base = 4096, mem_used = 24\<rparr> 2 32 = Some (4160, \<lparr>mem_base = 4096, mem_used = 128\<rparr>)"
    by (simp_all add: os_memory_alloc_def CACHE_LINE_SIZE_def OS_MEMORY_SIZE_def SIZE_MAX_def Let_def)
  ultimately show ?thesis by (simp add: map_alloc_def map_example_def)
qed

theorem map_alloc_establishes_witness: "map_inv map_example_mem 2 map_example"
  using map_alloc_establishes [OF map_example_alloc] by simp

text \<open>The allocation of a map keeps the allocator well-formed.\<close>

lemma map_alloc_ok:
  assumes "alloc_ok om" "map_alloc om ks n = Some (m, om')" "unat n < 2 ^ 58"
  shows "alloc_ok om'"
proof -
  from assms(2) obtain a1 om1 r a2 where al: "os_memory_alloc om 1 24 = Some (a1, om1)"
    "get_real_capacity n = Some r" "os_memory_alloc om1 r 32 = Some (a2, om')"
    by (auto simp: map_alloc_def split: Option.bind_splits)
  have r: "unat r \<le> 2 * unat n" using get_real_capacity_correct [of n] al(2) assms(3) by auto
  have "alloc_ok om1" using os_memory_alloc_correct [OF assms(1) _ al(1)] by simp
  then show ?thesis using os_memory_alloc_correct [OF _ _ al(3)] r assms(3) by simp
qed

end
