(* ===== verification/Struct_Index_Pool.thy ===== *)
theory Struct_Index_Pool
  imports Os_Memory
begin

text \<open>
  The index pool of \<open>env/src/structs/index_pool.c\<close>: an array of timestamps, where \<open>TIME_MAX\<close>
  marks a free index. Borrowing resumes its search at the last borrowed index and hands out
  a free or an expired one.
\<close>

section \<open>The model\<close>

record index_pool =
  ip_timestamps :: "time_t list"
  ip_size :: size_t
  ip_expiration_time :: time_t
  ip_last_borrowed_index :: size_t

text \<open>The initialisation loop runs downwards.\<close>

function index_pool_alloc_loop :: "time_t list \<Rightarrow> size_t \<Rightarrow> time_t list option" where
  "index_pool_alloc_loop timestamps n =
     (if 0 < n
      then do {
        timestamps \<leftarrow> arr_set timestamps (n - 1) TIME_MAX;
        index_pool_alloc_loop timestamps (n - 1) }
      else Some timestamps)"
  by pat_completeness auto
termination
  by (relation "measure (\<lambda>(timestamps, n). unat n)")
    (simp_all add: unat_pred_word)

declare index_pool_alloc_loop.simps [simp del]

text \<open>\<open>sizeof (struct index_pool)\<close> is 32.\<close>

definition index_pool_alloc :: "os_mem \<Rightarrow> size_t \<Rightarrow> time_t \<Rightarrow> (index_pool \<times> os_mem) option" where
  "index_pool_alloc om sz expiration_time = do {
     (pool, om) \<leftarrow> os_memory_alloc om 1 32;
     (ts, om) \<leftarrow> os_memory_alloc om sz 8;
     timestamps \<leftarrow> index_pool_alloc_loop (replicate (unat sz) 0) sz;
     Some (\<lparr>ip_timestamps = timestamps, ip_size = sz, ip_expiration_time = expiration_time,
            ip_last_borrowed_index = 0\<rparr>, om) }"

text \<open>One of the two search loops; the result is the index and whether it was used.\<close>

function index_pool_borrow_loop ::
    "index_pool \<Rightarrow> time_t \<Rightarrow> size_t \<Rightarrow> size_t \<Rightarrow> (index_pool \<times> (size_t \<times> bool) option) option" where
  "index_pool_borrow_loop pool time n bound =
     (if n < bound
      then do {
        ts \<leftarrow> arr_get (ip_timestamps pool) n;
        if ts = TIME_MAX
        then do {
          timestamps \<leftarrow> arr_set (ip_timestamps pool) n time;
          Some (pool\<lparr>ip_timestamps := timestamps, ip_last_borrowed_index := n\<rparr>, Some (n, False)) }
        else if time \<ge> ip_expiration_time pool \<and> time - ip_expiration_time pool > ts
        then do {
          timestamps \<leftarrow> arr_set (ip_timestamps pool) n time;
          Some (pool\<lparr>ip_timestamps := timestamps, ip_last_borrowed_index := n\<rparr>, Some (n, True)) }
        else index_pool_borrow_loop pool time (n + 1) bound }
      else Some (pool, None))"
  by pat_completeness auto
termination
  by (relation "measure (\<lambda>(pool, time, n, bound). unat (bound - n))") auto

declare index_pool_borrow_loop.simps [simp del]

definition index_pool_borrow ::
    "index_pool \<Rightarrow> time_t \<Rightarrow> (index_pool \<times> (size_t \<times> bool) option) option" where
  "index_pool_borrow pool time = do {
     (pool, res) \<leftarrow> index_pool_borrow_loop pool time (ip_last_borrowed_index pool) (ip_size pool);
     if res \<noteq> None then Some (pool, res)
     else index_pool_borrow_loop pool time 0 (ip_last_borrowed_index pool) }"

definition index_pool_refresh :: "index_pool \<Rightarrow> time_t \<Rightarrow> size_t \<Rightarrow> index_pool option" where
  "index_pool_refresh pool time index = do {
     timestamps \<leftarrow> arr_set (ip_timestamps pool) index time;
     Some (pool\<lparr>ip_timestamps := timestamps\<rparr>) }"

definition index_pool_used :: "index_pool \<Rightarrow> time_t \<Rightarrow> size_t \<Rightarrow> bool option" where
  "index_pool_used pool time index =
     (if index \<ge> ip_size pool then Some False
      else do {
        ts \<leftarrow> arr_get (ip_timestamps pool) index;
        if ts = TIME_MAX then Some False
        else if time \<ge> ip_expiration_time pool \<and> time - ip_expiration_time pool > ts then Some False
        else Some True })"

definition index_pool_return :: "index_pool \<Rightarrow> size_t \<Rightarrow> index_pool option" where
  "index_pool_return pool index = do {
     timestamps \<leftarrow> arr_set (ip_timestamps pool) index TIME_MAX;
     Some (pool\<lparr>ip_timestamps := timestamps\<rparr>) }"

section \<open>Contract\<close>

text \<open>\<open>poolp\<close>: the invariant, and the items (index to time of last use) of the contract.\<close>

definition pool_inv :: "index_pool \<Rightarrow> bool" where
  "pool_inv pool \<longleftrightarrow> length (ip_timestamps pool) = unat (ip_size pool)
     \<and> ip_last_borrowed_index pool \<le> ip_size pool"

definition pool_items :: "index_pool \<Rightarrow> size_t \<Rightarrow> time_t option" where
  "pool_items pool index =
     (if index < ip_size pool \<and> ip_timestamps pool ! unat index \<noteq> TIME_MAX
      then Some (ip_timestamps pool ! unat index) else None)"

definition pool_young :: "time_t \<Rightarrow> time_t \<Rightarrow> time_t \<Rightarrow> bool" where
  "pool_young time expiration_time v \<longleftrightarrow> time < expiration_time \<or> time - expiration_time \<le> v"

text \<open>An index can be borrowed if it is free or its item is not young any more.\<close>

definition available :: "index_pool \<Rightarrow> time_t \<Rightarrow> size_t \<Rightarrow> bool" where
  "available pool time index \<longleftrightarrow> index < ip_size pool \<and>
     (case pool_items pool index of None \<Rightarrow> True
      | Some t \<Rightarrow> \<not> pool_young time (ip_expiration_time pool) t)"

lemma pool_items_dom: "pool_items pool index = Some t \<Longrightarrow> index < ip_size pool \<and> t \<noteq> TIME_MAX"
  by (auto simp: pool_items_def split: if_splits)

lemma not_young: "\<not> pool_young time e v \<longleftrightarrow> time \<ge> e \<and> time - e > v"
  by (auto simp: pool_young_def not_less not_le)

text \<open>Writing a timestamp is an update of the items.\<close>

lemma pool_items_write:
  assumes "pool_inv pool" "index < ip_size pool"
  shows "pool_items (pool\<lparr>ip_timestamps := (ip_timestamps pool)[unat index := time]\<rparr>)
    = (pool_items pool)(index := (if time = TIME_MAX then None else Some time))"
proof
  fix k
  show "pool_items (pool\<lparr>ip_timestamps := (ip_timestamps pool)[unat index := time]\<rparr>) k
    = ((pool_items pool)(index := (if time = TIME_MAX then None else Some time))) k"
  proof (cases "k < ip_size pool")
    case True
    then have "unat k < length (ip_timestamps pool)"
      using assms(1) by (simp add: pool_inv_def word_less_nat_alt)
    with True show ?thesis by (simp add: pool_items_def nth_list_update_in word_unat_eq_iff)
  next
    case False
    then have "k \<noteq> index" using assms(2) by blast
    with False show ?thesis by (simp add: pool_items_def)
  qed
qed

lemma pool_items_lbi [simp]: "pool_items (pool\<lparr>ip_last_borrowed_index := n\<rparr>) = pool_items pool"
  by (rule ext) (simp add: pool_items_def)

lemma index_pool_borrow_loop_correct:
  assumes "pool_inv pool" "bound \<le> ip_size pool" "n \<le> bound"
  shows "(\<exists>index. n \<le> index \<and> index < bound \<and> available pool time index
      \<and> index_pool_borrow_loop pool time n bound =
          Some (pool\<lparr>ip_timestamps := (ip_timestamps pool)[unat index := time], ip_last_borrowed_index := index\<rparr>,
            Some (index, pool_items pool index \<noteq> None)))
    \<or> (index_pool_borrow_loop pool time n bound = Some (pool, None)
      \<and> (\<forall>index. n \<le> index \<longrightarrow> index < bound \<longrightarrow> \<not> available pool time index))"
  using assms
proof (induction pool time n bound rule: index_pool_borrow_loop.induct)
  case (1 pool time n bound)
  show ?case
  proof (cases "n < bound")
    case False
    then have "index_pool_borrow_loop pool time n bound = Some (pool, None)"
      by (subst index_pool_borrow_loop.simps) simp
    with False show ?thesis by auto
  next
    case True
    then have ns: "n < ip_size pool" using "1.prems"(2) by simp
    then have n: "unat n < length (ip_timestamps pool)"
      using "1.prems"(1) by (simp add: pool_inv_def word_less_nat_alt)
    let ?ts = "ip_timestamps pool ! unat n"
    consider (free) "?ts = TIME_MAX"
      | (old) "?ts \<noteq> TIME_MAX" "time \<ge> ip_expiration_time pool \<and> time - ip_expiration_time pool > ?ts"
      | (young) "?ts \<noteq> TIME_MAX" "\<not> (time \<ge> ip_expiration_time pool \<and> time - ip_expiration_time pool > ?ts)"
      by blast
    then show ?thesis
    proof cases
      case free
      then have "available pool time n" "pool_items pool n = None"
        using ns by (simp_all add: available_def pool_items_def)
      with True n free show ?thesis
        by (intro disjI1 exI [of _ n]) (subst index_pool_borrow_loop.simps, simp)
    next
      case old
      then have "available pool time n" "pool_items pool n = Some ?ts"
        using ns by (simp_all add: available_def pool_items_def not_young)
      with True n old show ?thesis
        by (intro disjI1 exI [of _ n]) (subst index_pool_borrow_loop.simps, simp)
    next
      case young
      have na: "\<not> available pool time n"
        using ns young by (simp add: available_def pool_items_def not_young)
      have step: "index_pool_borrow_loop pool time n bound = index_pool_borrow_loop pool time (n + 1) bound"
        using True n young by (subst index_pool_borrow_loop.simps) auto
      have up: "n \<le> index \<longleftrightarrow> index = n \<or> n + 1 \<le> index" if "index < bound" for index
        using True unat_Suc_word [OF True] by (auto simp: word_le_nat_alt word_unat_eq_iff)
      note IH = "1.IH" [OF True arr_get_in [OF n] young "1.prems"(1,2) inc_le [OF True]]
      show ?thesis unfolding step using IH up na by blast
    qed
  qed
qed

text \<open>The two loops together look at every index.\<close>

lemma index_pool_borrow_cases:
  assumes inv: "pool_inv pool"
  obtains (borrowed) index where "available pool time index"
    "index_pool_borrow pool time =
       Some (pool\<lparr>ip_timestamps := (ip_timestamps pool)[unat index := time], ip_last_borrowed_index := index\<rparr>,
         Some (index, pool_items pool index \<noteq> None))"
  | (full) "\<And>index. \<not> available pool time index" "index_pool_borrow pool time = Some (pool, None)"
proof -
  let ?l = "ip_last_borrowed_index pool"
  have le: "?l \<le> ip_size pool" using inv by (simp add: pool_inv_def)
  from index_pool_borrow_loop_correct [OF inv order_refl le, of time] show ?thesis
  proof
    assume "\<exists>index. ?l \<le> index \<and> index < ip_size pool \<and> available pool time index
      \<and> index_pool_borrow_loop pool time ?l (ip_size pool) =
          Some (pool\<lparr>ip_timestamps := (ip_timestamps pool)[unat index := time], ip_last_borrowed_index := index\<rparr>,
            Some (index, pool_items pool index \<noteq> None))"
    then show ?thesis using borrowed by (auto simp: index_pool_borrow_def)
  next
    assume first: "index_pool_borrow_loop pool time ?l (ip_size pool) = Some (pool, None)
      \<and> (\<forall>index. ?l \<le> index \<longrightarrow> index < ip_size pool \<longrightarrow> \<not> available pool time index)"
    from index_pool_borrow_loop_correct [OF inv le word_zero_le, of time] show ?thesis
    proof
      assume "\<exists>index. 0 \<le> index \<and> index < ?l \<and> available pool time index
        \<and> index_pool_borrow_loop pool time 0 ?l =
            Some (pool\<lparr>ip_timestamps := (ip_timestamps pool)[unat index := time], ip_last_borrowed_index := index\<rparr>,
              Some (index, pool_items pool index \<noteq> None))"
      then show ?thesis using borrowed first by (auto simp: index_pool_borrow_def)
    next
      assume second: "index_pool_borrow_loop pool time 0 ?l = Some (pool, None)
        \<and> (\<forall>index. 0 \<le> index \<longrightarrow> index < ?l \<longrightarrow> \<not> available pool time index)"
      then have "\<not> available pool time index" for index
        using first by (cases "?l \<le> index") (auto simp: available_def not_le)
      then show ?thesis using full first second by (simp add: index_pool_borrow_def)
    qed
  qed
qed

lemma pool_inv_write:
  "pool_inv pool \<Longrightarrow> pool_inv (pool\<lparr>ip_timestamps := (ip_timestamps pool)[i := t]\<rparr>)"
  by (simp add: pool_inv_def)

lemma index_pool_refresh_correct:
  assumes "pool_inv pool" "index < ip_size pool" "time \<noteq> TIME_MAX"
  shows "\<exists>pool'. index_pool_refresh pool time index = Some pool' \<and> pool_inv pool'
    \<and> ip_size pool' = ip_size pool \<and> ip_expiration_time pool' = ip_expiration_time pool
    \<and> pool_items pool' = (pool_items pool)(index \<mapsto> time)"
  using assms pool_items_write [OF assms(1,2), of time] pool_inv_write [OF assms(1)]
  by (simp add: index_pool_refresh_def pool_inv_def word_less_nat_alt)

lemma index_pool_return_correct:
  assumes "pool_inv pool" "index < ip_size pool"
  shows "\<exists>pool'. index_pool_return pool index = Some pool' \<and> pool_inv pool'
    \<and> ip_size pool' = ip_size pool \<and> ip_expiration_time pool' = ip_expiration_time pool
    \<and> pool_items pool' = (pool_items pool)(index := None)"
  using assms pool_items_write [OF assms(1,2), of TIME_MAX] pool_inv_write [OF assms(1)]
  by (simp add: index_pool_return_def pool_inv_def word_less_nat_alt)

lemma index_pool_used_correct:
  assumes "pool_inv pool"
  shows "index_pool_used pool time index = Some (case pool_items pool index of None \<Rightarrow> False
    | Some t \<Rightarrow> pool_young time (ip_expiration_time pool) t)"
proof (cases "index < ip_size pool")
  case True
  then have "unat index < length (ip_timestamps pool)"
    using assms by (simp add: pool_inv_def word_less_nat_alt)
  with True show ?thesis
    by (auto simp: index_pool_used_def pool_items_def pool_young_def)
next
  case False
  then have "pool_items pool index = None" by (simp add: pool_items_def)
  moreover have "ip_size pool \<le> index" using False by simp
  ultimately show ?thesis by (simp add: index_pool_used_def)
qed

lemma index_pool_borrow_correct:
  assumes inv: "pool_inv pool" and time: "time \<noteq> TIME_MAX"
  shows "(\<exists>pool' index. available pool time index
      \<and> index_pool_borrow pool time = Some (pool', Some (index, pool_items pool index \<noteq> None))
      \<and> pool_inv pool' \<and> ip_size pool' = ip_size pool \<and> ip_expiration_time pool' = ip_expiration_time pool
      \<and> pool_items pool' = (pool_items pool)(index \<mapsto> time))
    \<or> (index_pool_borrow pool time = Some (pool, None) \<and> (\<forall>index. \<not> available pool time index))"
  using inv
proof (cases rule: index_pool_borrow_cases [of pool time])
  case (borrowed index)
  then have index: "index < ip_size pool" by (simp add: available_def)
  show ?thesis
    using borrowed index inv time pool_items_write [OF inv index, of time]
    by (intro disjI1 exI [of _ "pool\<lparr>ip_timestamps := (ip_timestamps pool)[unat index := time], ip_last_borrowed_index := index\<rparr>"]
        exI [of _ index]) (simp add: pool_inv_def)
next
  case full
  then show ?thesis by blast
qed

text \<open>A fresh pool: every index is free.\<close>

lemma index_pool_alloc_loop_correct:
  assumes "unat n \<le> length ts"
  shows "index_pool_alloc_loop ts n = Some (replicate (unat n) TIME_MAX @ drop (unat n) ts)"
  using assms
proof (induction ts n rule: index_pool_alloc_loop.induct)
  case (1 ts n)
  show ?case
  proof (cases "0 < n")
    case True
    then obtain m where m: "unat n = Suc m" "unat (n - 1) = m"
      using unat_pred_word by blast
    then have w: "unat (n - 1) < length ts" using "1.prems" by simp
    have "index_pool_alloc_loop (ts[m := TIME_MAX]) (n - 1)
      = Some (replicate m TIME_MAX @ drop m (ts[m := TIME_MAX]))"
      using "1.IH" [OF True arr_set_in [OF w]] w by (simp add: m)
    moreover have "drop m (ts[m := TIME_MAX]) = TIME_MAX # drop (Suc m) ts"
      using w m Cons_nth_drop_Suc [of m "ts[m := TIME_MAX]"] by (simp add: drop_update_cancel)
    ultimately show ?thesis
      using True w by (subst index_pool_alloc_loop.simps) (simp add: m replicate_app_Cons_same)
  next
    case False
    then have "n = 0" by (simp add: word_gt_0)
    then show ?thesis by (subst index_pool_alloc_loop.simps) simp
  qed
qed

lemma index_pool_alloc_correct:
  assumes "index_pool_alloc om sz e = Some (pool, om')"
  shows "pool_inv pool" "ip_size pool = sz" "ip_expiration_time pool = e" "pool_items pool = Map.empty"
proof -
  have pool: "pool = \<lparr>ip_timestamps = replicate (unat sz) TIME_MAX, ip_size = sz, ip_expiration_time = e,
      ip_last_borrowed_index = 0\<rparr>"
    using assms by (auto simp: index_pool_alloc_def index_pool_alloc_loop_correct split: Option.bind_splits)
  show "pool_inv pool" "ip_size pool = sz" "ip_expiration_time pool = e" by (simp_all add: pool pool_inv_def)
  show "pool_items pool = Map.empty" by (rule ext) (simp add: pool pool_items_def word_less_nat_alt)
qed
section \<open>Properties\<close>

text \<open>
  C14: Borrowing does what \<open>index_pool.h\<close> promises: it succeeds exactly if some index is free or
  expired, hands out such an index, says whether it was in use, and marks it as used now.
\<close>

theorem index_pool_borrow_contract:
  assumes "pool_inv pool" "time \<noteq> TIME_MAX"
  shows "\<exists>pool' r. index_pool_borrow pool time = Some (pool', r) \<and> pool_inv pool'
    \<and> (r = None \<longleftrightarrow> (\<forall>i < ip_size pool. \<exists>t. pool_items pool i = Some t
          \<and> pool_young time (ip_expiration_time pool) t))
    \<and> (case r of None \<Rightarrow> pool' = pool
       | Some (i, was_used) \<Rightarrow> i < ip_size pool \<and> was_used = (pool_items pool i \<noteq> None)
           \<and> (\<forall>t. pool_items pool i = Some t \<longrightarrow> \<not> pool_young time (ip_expiration_time pool) t)
           \<and> pool_items pool' = (pool_items pool)(i \<mapsto> time))"
  using index_pool_borrow_correct [OF assms]
proof (elim disjE exE conjE)
  fix pool' index
  assume a: "available pool time index" "index_pool_borrow pool time = Some (pool', Some (index, pool_items pool index \<noteq> None))"
    "pool_inv pool'" "pool_items pool' = (pool_items pool)(index \<mapsto> time)"
  then show ?thesis
    by (intro exI [of _ pool'] exI [of _ "Some (index, pool_items pool index \<noteq> None)"])
      (auto simp: available_def split: option.splits)
next
  assume "index_pool_borrow pool time = Some (pool, None)" "\<forall>index. \<not> available pool time index"
  then show ?thesis using assms(1)
    by (intro exI [of _ pool] exI [of _ None]) (auto simp: available_def split: option.splits)
qed

text \<open>Three indices: one in use since 10, one free, one in use since 40; entries expire after 20.\<close>

definition pool_example :: index_pool where
  "pool_example = \<lparr>ip_timestamps = [10, TIME_MAX, 40], ip_size = 3, ip_expiration_time = 20, ip_last_borrowed_index = 2\<rparr>"

lemma pool_example_ok: "pool_inv pool_example"
  by (simp add: pool_inv_def pool_example_def)

theorem index_pool_borrow_contract_witness:
  "\<exists>pool'. index_pool_borrow pool_example 50 = Some (pool', Some (0, True)) \<and> pool_inv pool'
    \<and> \<not> pool_young 50 20 10"
proof -
  have run: "index_pool_borrow pool_example 50
      = Some (pool_example\<lparr>ip_timestamps := [50, TIME_MAX, 40], ip_last_borrowed_index := 0\<rparr>, Some (0, True))"
    and item: "pool_items pool_example 0 = Some 10" by code_simp+
  from index_pool_borrow_contract [OF pool_example_ok, of 50] show ?thesis
    unfolding run using item by (simp add: TIME_MAX_def pool_example_def)
qed

text \<open>
  Refreshing sets an index's time, returning frees it, and an index counts as used exactly
  while its item is young; none of them touches another index.
\<close>

theorem index_pool_operations_contract:
  assumes "pool_inv pool" "i < ip_size pool" "time \<noteq> TIME_MAX"
  shows "(\<exists>pool'. index_pool_refresh pool time i = Some pool' \<and> pool_inv pool'
      \<and> pool_items pool' = (pool_items pool)(i \<mapsto> time))
    \<and> (\<exists>pool'. index_pool_return pool i = Some pool' \<and> pool_inv pool'
      \<and> pool_items pool' = (pool_items pool)(i := None))
    \<and> (\<forall>j. index_pool_used pool time j = Some (case pool_items pool j of None \<Rightarrow> False
        | Some t \<Rightarrow> time < ip_expiration_time pool \<or> time - ip_expiration_time pool \<le> t))"
  unfolding index_pool_used_correct [OF assms(1)]
  using index_pool_refresh_correct [OF assms] index_pool_return_correct [OF assms(1,2)]
  by (auto simp: pool_young_def split: option.splits)

theorem index_pool_operations_contract_witness:
  "(\<exists>pool'. index_pool_refresh pool_example 60 2 = Some pool' \<and> pool_inv pool'
      \<and> pool_items pool' = (pool_items pool_example)(2 \<mapsto> 60))
    \<and> (\<exists>pool'. index_pool_return pool_example 2 = Some pool' \<and> pool_inv pool'
      \<and> pool_items pool' = (pool_items pool_example)(2 := None))"
  using index_pool_operations_contract [OF pool_example_ok, of 2 60]
  by (simp add: pool_example_def TIME_MAX_def)

text \<open>The allocation of a pool keeps the allocator well-formed.\<close>

lemma index_pool_alloc_ok:
  assumes "alloc_ok om" "index_pool_alloc om n e = Some (pool, om')" "unat n < 2 ^ 61"
  shows "alloc_ok om'"
proof -
  from assms(2) obtain a1 om1 a2 where al: "os_memory_alloc om 1 32 = Some (a1, om1)" "os_memory_alloc om1 n 8 = Some (a2, om')"
    by (auto simp: index_pool_alloc_def split: Option.bind_splits)
  have "alloc_ok om1" using os_memory_alloc_correct [OF assms(1) _ al(1)] by simp
  then show ?thesis using os_memory_alloc_correct [OF _ _ al(2)] assms(3) by simp
qed

end
