(* ===== verification/Expiring_Table.thy ===== *)
theory Expiring_Table
  imports Struct_Map Struct_Index_Pool
begin

text \<open>
  The pattern that the firewall, the NAT, the bridge, the policer and the load balancer share:
  an array of keys, a map from a key to its index whose items point into that array, and an
  index pool that says which entries of the array are in use and expires them.

  The two structures are used through their contracts only, which are the locales
  \<open>key_map\<close> and \<open>expiring_pool\<close>; \<open>keyed_table\<close> combines them and is interpreted on the
  models of \<open>map.c\<close> and \<open>index_pool.c\<close> at the end.
\<close>

section \<open>The key array in memory\<close>

definition mem_at :: "addr \<Rightarrow> byte list \<Rightarrow> mem" where
  "mem_at base bs a = (if base \<le> a \<and> a - base < length bs then bs ! (a - base) else 0)"

text \<open>The memory that the map reads: the encoded keys, one after the other.\<close>

definition key_mem :: "('k \<Rightarrow> byte list) \<Rightarrow> addr \<Rightarrow> 'k list \<Rightarrow> mem" where
  "key_mem enc base keys = mem_at base (concat (map enc keys))"

lemma concat_equal_lengths:
  assumes "\<And>x. x \<in> set xss \<Longrightarrow> length x = n" "i < length xss"
  shows "take n (drop (n * i) (concat xss)) = xss ! i"
  using assms
proof (induction xss arbitrary: i)
  case (Cons xs xss)
  then show ?case by (cases i) simp_all
qed simp

lemma length_concat_equal: "(\<And>x. x \<in> set xss \<Longrightarrow> length x = n) \<Longrightarrow> length (concat xss) = n * length xss"
  by (induction xss) simp_all

lemma chars_mem_at:
  assumes "off + n \<le> length bs"
  shows "chars (mem_at base bs) (base + off) n = take n (drop off bs)"
  using assms by (intro nth_equalityI) (simp_all add: chars_def mem_at_def)

lemma chars_key_mem:
  assumes "\<And>k. length (enc k) = ks" "i < length keys"
  shows "chars (key_mem enc base keys) (base + ks * i) ks = enc (keys ! i)"
proof -
  have "ks * i + ks \<le> ks * length keys"
    using assms(2) by (metis Suc_leI add.commute mult_Suc_right mult_le_mono2)
  moreover have "length (concat (map enc keys)) = ks * length keys"
    using length_concat_equal [of "map enc keys" ks] assms(1) by auto
  moreover have "take ks (drop (ks * i) (concat (map enc keys))) = enc (keys ! i)"
    using concat_equal_lengths [of "map enc keys" ks i] assms by auto
  ultimately show ?thesis unfolding key_mem_def by (subst chars_mem_at) simp_all
qed

lemma card_word_less: "card {v :: 'a::len word. v < n} = unat n"
proof -
  have "unat ` {v. v < n} = {..<unat n}"
  proof (intro set_eqI iffI)
    fix x assume "x \<in> {..<unat n}"
    then have "x < unat n" by simp
    then have "x < 2 ^ LENGTH('a)" using unsigned_less by (rule less_trans)
    then have "unat (of_nat x :: 'a word) = x" by (rule unat_of_nat_less)
    with \<open>x < unat n\<close> show "x \<in> unat ` {v. v < n}"
      by (intro image_eqI [of _ _ "of_nat x"]) (simp_all add: word_less_nat_alt)
  qed (auto simp: word_less_nat_alt)
  moreover have "inj_on unat {v. v < n}" by (auto intro!: inj_onI simp: word_unat_eq_iff)
  ultimately show ?thesis using card_image by fastforce
qed

section \<open>The contracts\<close>

text \<open>What a client relies on of the map: \<open>env/include/structs/map.h\<close>.\<close>

locale key_map =
  fixes lookup :: "mem \<Rightarrow> 'm \<Rightarrow> byte list \<Rightarrow> size_t option option"
    and put :: "mem \<Rightarrow> 'm \<Rightarrow> addr \<Rightarrow> size_t \<Rightarrow> 'm option"
    and delete :: "mem \<Rightarrow> 'm \<Rightarrow> byte list \<Rightarrow> 'm option"
    and minv :: "mem \<Rightarrow> size_t \<Rightarrow> 'm \<Rightarrow> bool"
    and contents :: "mem \<Rightarrow> 'm \<Rightarrow> byte list \<Rightarrow> (size_t \<times> addr) option"
    and key_len :: "'m \<Rightarrow> nat"
  assumes lookup_law: "minv mem c m \<Longrightarrow> length k = key_len m \<Longrightarrow>
      lookup mem m k = Some (map_option fst (contents mem m k))"
    and put_law: "minv mem c m \<Longrightarrow> chars mem p (key_len m) = k \<Longrightarrow> contents mem m k = None \<Longrightarrow>
      card (dom (contents mem m)) < unat c \<Longrightarrow> p \<noteq> NULL \<Longrightarrow>
      \<exists>m'. put mem m p v = Some m' \<and> minv mem c m' \<and> key_len m' = key_len m
        \<and> contents mem m' = (contents mem m)(k \<mapsto> (v, p))"
    and delete_law: "minv mem c m \<Longrightarrow> length k = key_len m \<Longrightarrow> contents mem m k \<noteq> None \<Longrightarrow>
      \<exists>m'. delete mem m k = Some m' \<and> minv mem c m' \<and> key_len m' = key_len m
        \<and> contents mem m' = (contents mem m)(k := None)"
    and frame_law: "minv mem c m \<Longrightarrow>
      (\<And>k v p. contents mem m k = Some (v, p) \<Longrightarrow> chars mem' p (key_len m) = chars mem p (key_len m)) \<Longrightarrow>
      minv mem' c m \<and> contents mem' m = contents mem m"

text \<open>And of the pool: \<open>env/include/structs/index_pool.h\<close>.\<close>

locale expiring_pool =
  fixes borrow :: "'p \<Rightarrow> time_t \<Rightarrow> ('p \<times> (size_t \<times> bool) option) option"
    and refresh :: "'p \<Rightarrow> time_t \<Rightarrow> size_t \<Rightarrow> 'p option"
    and used :: "'p \<Rightarrow> time_t \<Rightarrow> size_t \<Rightarrow> bool option"
    and give_back :: "'p \<Rightarrow> size_t \<Rightarrow> 'p option"
    and pinv :: "'p \<Rightarrow> bool"
    and items :: "'p \<Rightarrow> size_t \<Rightarrow> time_t option"
    and room :: "'p \<Rightarrow> size_t"
    and expiry :: "'p \<Rightarrow> time_t"
  assumes items_dom: "items p i \<noteq> None \<Longrightarrow> i < room p"
    and borrow_law: "pinv p \<Longrightarrow> time \<noteq> TIME_MAX \<Longrightarrow>
      (\<exists>p' i. i < room p \<and> (\<forall>t. items p i = Some t \<longrightarrow> \<not> pool_young time (expiry p) t)
        \<and> borrow p time = Some (p', Some (i, items p i \<noteq> None)) \<and> pinv p' \<and> room p' = room p
        \<and> expiry p' = expiry p \<and> items p' = (items p)(i \<mapsto> time))
      \<or> (borrow p time = Some (p, None)
        \<and> (\<forall>i < room p. \<exists>t. items p i = Some t \<and> pool_young time (expiry p) t))"
    and refresh_law: "pinv p \<Longrightarrow> i < room p \<Longrightarrow> time \<noteq> TIME_MAX \<Longrightarrow>
      \<exists>p'. refresh p time i = Some p' \<and> pinv p' \<and> room p' = room p \<and> expiry p' = expiry p
        \<and> items p' = (items p)(i \<mapsto> time)"
    and used_law: "pinv p \<Longrightarrow>
      used p time i = Some (case items p i of None \<Rightarrow> False | Some t \<Rightarrow> pool_young time (expiry p) t)"
    and give_back_law: "pinv p \<Longrightarrow> i < room p \<Longrightarrow>
      \<exists>p'. give_back p i = Some p' \<and> pinv p' \<and> room p' = room p \<and> expiry p' = expiry p
        \<and> items p' = (items p)(i := None)"

section \<open>The table\<close>

text \<open>
  The link between the three parts: the map holds exactly the keys of the entries in use, each
  with its index and its address. Two entries in use therefore never hold the same key.
\<close>

definition linked :: "('k \<Rightarrow> byte list) \<Rightarrow> nat \<Rightarrow> addr \<Rightarrow> size_t \<Rightarrow> 'k list \<Rightarrow>
    (size_t \<Rightarrow> time_t option) \<Rightarrow> (byte list \<Rightarrow> (size_t \<times> addr) option) \<Rightarrow> bool" where
  "linked enc ks base n keys its ct \<longleftrightarrow> length keys = unat n \<and> base \<noteq> NULL
     \<and> (\<forall>k v p. ct k = Some (v, p) \<longleftrightarrow>
          v < n \<and> its v \<noteq> None \<and> k = enc (keys ! unat v) \<and> p = base + ks * unat v)"

text \<open>What the table stands for: from a key to its index and the time it was last used.\<close>

definition entry :: "'k list \<Rightarrow> (size_t \<Rightarrow> time_t option) \<Rightarrow> 'k \<Rightarrow> size_t \<Rightarrow> time_t \<Rightarrow> bool" where
  "entry keys its key i t \<longleftrightarrow> its i = Some t \<and> keys ! unat i = key"

lemma linked_D:
  "linked enc ks base n keys its ct \<Longrightarrow> ct k = Some (v, p) \<longleftrightarrow>
    v < n \<and> its v \<noteq> None \<and> k = enc (keys ! unat v) \<and> p = base + ks * unat v"
  by (simp add: linked_def)

lemma linked_Some:
  "linked enc ks base n keys its ct \<Longrightarrow> v < n \<Longrightarrow> its v \<noteq> None \<Longrightarrow>
   ct (enc (keys ! unat v)) = Some (v, base + ks * unat v)"
  by (simp add: linked_def)

lemma linked_unique:
  assumes "linked enc ks base n keys its ct" "i < n" "j < n" "its i \<noteq> None" "its j \<noteq> None"
    "keys ! unat i = keys ! unat j"
  shows "i = j"
  using linked_Some [OF assms(1,2,4)] linked_Some [OF assms(1,3,5)] unfolding assms(6) by simp

lemma linked_card:
  assumes l: "linked enc ks base n keys its ct" and i: "i < n" "its i = None"
  shows "card (dom ct) < unat n"
proof -
  have "dom ct \<subseteq> (\<lambda>v. enc (keys ! unat v)) ` ({v. v < n} - {i})"
  proof
    fix k assume "k \<in> dom ct"
    then obtain v p where "ct k = Some (v, p)" by auto
    then have v: "v < n" "its v \<noteq> None" "k = enc (keys ! unat v)" by (simp_all add: linked_D [OF l])
    then have "v \<noteq> i" using i(2) by metis
    with v show "k \<in> (\<lambda>v. enc (keys ! unat v)) ` ({v. v < n} - {i})"
      by (intro image_eqI [of _ _ v]) simp_all
  qed
  then have "card (dom ct) \<le> card ({v. v < n} - {i})" by (rule surj_card_le [rotated]) (rule finite)
  also have "\<dots> < card {v. v < n}" using i(1) by (intro psubset_card_mono finite) blast
  finally show ?thesis by (simp add: card_word_less)
qed

lemma linked_refresh:
  "linked enc ks base n keys its ct \<Longrightarrow> its i \<noteq> None \<Longrightarrow> linked enc ks base n keys (its(i \<mapsto> t)) ct"
  by (auto simp: linked_def)

lemma linked_delete:
  assumes l: "linked enc ks base n keys its ct" and i: "i < n" "its i \<noteq> None"
  shows "linked enc ks base n keys (its(i := None)) (ct(enc (keys ! unat i) := None))"
proof -
  have "(ct(enc (keys ! unat i) := None)) k = Some (v, p) \<longleftrightarrow>
    v < n \<and> (its(i := None)) v \<noteq> None \<and> k = enc (keys ! unat v) \<and> p = base + ks * unat v" for k v p
  proof (cases "k = enc (keys ! unat i)")
    case True
    then show ?thesis using linked_Some [OF l i] linked_Some [OF l, of v] by auto
  next
    case False
    then show ?thesis using linked_D [OF l, of k v p] by auto
  qed
  then show ?thesis using l unfolding linked_def by blast
qed

lemma linked_insert:
  assumes l: "linked enc ks base n keys its ct" and i: "i < n" "its i = None" and fresh: "ct (enc key) = None"
  shows "linked enc ks base n (keys[unat i := key]) (its(i \<mapsto> t)) (ct(enc key \<mapsto> (i, base + ks * unat i)))"
proof -
  let ?keys = "keys[unat i := key]"
  have len: "length keys = unat n" using l by (simp add: linked_def)
  have at: "?keys ! unat v = (if v = i then key else keys ! unat v)" if "v < n" for v
    using that i(1) len by (simp add: nth_list_update_in word_unat_eq_iff word_less_nat_alt)
  have "(ct(enc key \<mapsto> (i, base + ks * unat i))) k = Some (v, p) \<longleftrightarrow>
    v < n \<and> (its(i \<mapsto> t)) v \<noteq> None \<and> k = enc (?keys ! unat v) \<and> p = base + ks * unat v" for k v p
  proof (cases "k = enc key")
    case True
    have "v < n \<Longrightarrow> its v \<noteq> None \<Longrightarrow> enc (keys ! unat v) \<noteq> enc key"
      using linked_Some [OF l, of v] fresh by auto
    then show ?thesis using True at i(1) by auto
  next
    case False
    then show ?thesis using linked_D [OF l, of k v p] at i by auto
  qed
  then show ?thesis using l unfolding linked_def by simp
qed

locale keyed_table =
  key_map lookup put delete minv contents key_len +
  expiring_pool borrow refresh used give_back pinv items room expiry
  for lookup put delete minv contents and key_len :: "'m \<Rightarrow> nat"
    and borrow refresh used give_back pinv items room and expiry :: "'p \<Rightarrow> time_t" +
  fixes enc :: "'k \<Rightarrow> byte list" and ks :: nat
  assumes enc_length: "length (enc k) = ks" and enc_inj: "enc k = enc k' \<Longrightarrow> k = k'"
begin

text \<open>The invariant of the three parts together, written out over the contracts.\<close>

lemma table_lookup:
  assumes "minv (key_mem enc base keys) n m" "key_len m = ks"
    "linked enc ks base n keys its (contents (key_mem enc base keys) m)"
  shows "(\<exists>i < n. its i \<noteq> None \<and> keys ! unat i = key
        \<and> lookup (key_mem enc base keys) m (enc key) = Some (Some i))
    \<or> ((\<forall>i < n. its i \<noteq> None \<longrightarrow> keys ! unat i \<noteq> key)
        \<and> contents (key_mem enc base keys) m (enc key) = None
        \<and> lookup (key_mem enc base keys) m (enc key) = Some None)"
proof (cases "contents (key_mem enc base keys) m (enc key)")
  case None
  then have "lookup (key_mem enc base keys) m (enc key) = Some None"
    using lookup_law [OF assms(1), of "enc key"] assms(2) enc_length by simp
  moreover have "keys ! unat i \<noteq> key" if "i < n" "its i \<noteq> None" for i
    using linked_Some [OF assms(3) that] None by auto
  ultimately show ?thesis using None by blast
next
  case (Some vp)
  obtain v p where vp: "vp = (v, p)" by fastforce
  have "v < n" "its v \<noteq> None" "enc key = enc (keys ! unat v)"
    using Some unfolding vp linked_D [OF assms(3)] by blast+
  moreover from this(3) have "keys ! unat v = key" by (rule enc_inj [symmetric])
  moreover have "lookup (key_mem enc base keys) m (enc key) = Some (Some v)"
    using lookup_law [OF assms(1), of "enc key"] assms(2) enc_length Some vp by simp
  ultimately show ?thesis by (intro disjI1 exI [of _ v]) simp
qed

lemma table_delete:
  assumes "minv (key_mem enc base keys) n m" "key_len m = ks"
    "linked enc ks base n keys its (contents (key_mem enc base keys) m)" "i < n" "its i \<noteq> None"
  shows "\<exists>m'. delete (key_mem enc base keys) m (enc (keys ! unat i)) = Some m'
    \<and> minv (key_mem enc base keys) n m' \<and> key_len m' = ks
    \<and> linked enc ks base n keys (its(i := None)) (contents (key_mem enc base keys) m')
    \<and> contents (key_mem enc base keys) m'
        = (contents (key_mem enc base keys) m)(enc (keys ! unat i) := None)"
proof -
  let ?k = "enc (keys ! unat i)"
  have "contents (key_mem enc base keys) m ?k \<noteq> None" using linked_Some [OF assms(3-5)] by simp
  then obtain m' where "delete (key_mem enc base keys) m ?k = Some m'" "minv (key_mem enc base keys) n m'"
    "key_len m' = ks" "contents (key_mem enc base keys) m' = (contents (key_mem enc base keys) m)(?k := None)"
    using delete_law [OF assms(1), of ?k] enc_length assms(2) by auto
  then show ?thesis using linked_delete [OF assms(3-5)] by auto
qed

text \<open>Writing an entry that is not in use does not disturb the map.\<close>

lemma table_write:
  assumes "minv (key_mem enc base keys) n m" "key_len m = ks"
    "linked enc ks base n keys its (contents (key_mem enc base keys) m)" "its i = None"
  shows "minv (key_mem enc base (keys[unat i := key])) n m
    \<and> contents (key_mem enc base (keys[unat i := key])) m = contents (key_mem enc base keys) m"
proof (rule frame_law [OF assms(1)])
  fix k v p
  assume "contents (key_mem enc base keys) m k = Some (v, p)"
  then have v: "v < n" "its v \<noteq> None" "p = base + ks * unat v" by (simp_all add: linked_D [OF assms(3)])
  have "unat v < length keys" using v(1) assms(3) by (simp add: linked_def word_less_nat_alt)
  moreover have "unat v \<noteq> unat i" using v(2) assms(4) by (auto simp: word_unat_eq_iff [symmetric])
  ultimately show "chars (key_mem enc base (keys[unat i := key])) p (key_len m)
    = chars (key_mem enc base keys) p (key_len m)"
    unfolding assms(2) v(3) by (simp add: chars_key_mem [where enc = enc, OF enc_length])
qed

lemma table_put:
  assumes inv: "minv (key_mem enc base keys) n m" and kl: "key_len m = ks"
    and l: "linked enc ks base n keys its (contents (key_mem enc base keys) m)"
    and i: "i < n" "its i = None" and fresh: "contents (key_mem enc base keys) m (enc key) = None"
  shows "\<exists>m'. put (key_mem enc base (keys[unat i := key])) m (base + ks * unat i) i = Some m'
    \<and> minv (key_mem enc base (keys[unat i := key])) n m' \<and> key_len m' = ks
    \<and> linked enc ks base n (keys[unat i := key]) (its(i \<mapsto> t))
        (contents (key_mem enc base (keys[unat i := key])) m')"
proof -
  let ?mem' = "key_mem enc base (keys[unat i := key])"
  have w: "minv ?mem' n m" "contents ?mem' m = contents (key_mem enc base keys) m"
    using table_write [OF inv kl l i(2)] by simp_all
  have len: "unat i < length keys" using l i(1) by (simp add: linked_def word_less_nat_alt)
  have ch: "chars ?mem' (base + ks * unat i) (key_len m) = enc key"
    using len by (simp add: kl chars_key_mem [where enc = enc, OF enc_length])
  have "base + ks * unat i \<noteq> NULL" using l by (simp add: linked_def)
  then show ?thesis
    using put_law [OF w(1) ch, of i] w(2) fresh linked_card [OF l i] linked_insert [OF l i fresh, of t] kl
    by auto
qed

text \<open>
  The learning step of every client, after a lookup that found nothing: borrow an index, drop
  the key it had if it was in use, write the new key and put it into the map. It either hands
  out an entry for the key, or finds every entry in use and young.
\<close>

lemma table_learn:
  assumes inv: "minv (key_mem enc base keys) n m" and kl: "key_len m = ks" and p: "pinv p" and n: "room p = n"
    and l: "linked enc ks base n keys (items p) (contents (key_mem enc base keys) m)"
    and fresh: "contents (key_mem enc base keys) m (enc key) = None" and t: "time \<noteq> TIME_MAX"
  shows "(\<exists>p' i was_used m1 m2. borrow p time = Some (p', Some (i, was_used)) \<and> i < n
        \<and> was_used = (items p i \<noteq> None)
        \<and> (\<forall>t. items p i = Some t \<longrightarrow> \<not> pool_young time (expiry p) t)
        \<and> (if was_used then delete (key_mem enc base keys) m (enc (keys ! unat i)) else Some m) = Some m1
        \<and> put (key_mem enc base (keys[unat i := key])) m1 (base + ks * unat i) i = Some m2
        \<and> minv (key_mem enc base (keys[unat i := key])) n m2 \<and> key_len m2 = ks
        \<and> pinv p' \<and> room p' = n \<and> expiry p' = expiry p \<and> items p' = (items p)(i \<mapsto> time)
        \<and> linked enc ks base n (keys[unat i := key]) (items p')
            (contents (key_mem enc base (keys[unat i := key])) m2))
    \<or> (borrow p time = Some (p, None)
        \<and> (\<forall>i < n. \<exists>t. items p i = Some t \<and> pool_young time (expiry p) t))"
proof -
  from borrow_law [OF p t] consider
    (got) p' i where "i < n" "\<forall>t. items p i = Some t \<longrightarrow> \<not> pool_young time (expiry p) t"
      "borrow p time = Some (p', Some (i, items p i \<noteq> None))" "pinv p'" "room p' = n" "expiry p' = expiry p"
      "items p' = (items p)(i \<mapsto> time)"
    | (full) "borrow p time = Some (p, None)" "\<forall>i < n. \<exists>t. items p i = Some t \<and> pool_young time (expiry p) t"
    unfolding n by blast
  then show ?thesis
  proof cases
    case got
    let ?its = "(items p)(i := None)"
    obtain m1 where m1: "(if items p i \<noteq> None then delete (key_mem enc base keys) m (enc (keys ! unat i)) else Some m)
        = Some m1" "minv (key_mem enc base keys) n m1" "key_len m1 = ks"
      and l1: "linked enc ks base n keys ?its (contents (key_mem enc base keys) m1)"
      and f1: "contents (key_mem enc base keys) m1 (enc key) = None"
    proof (cases "items p i = None")
      case True
      then have "?its = items p" by (simp add: fun_upd_idem)
      with True that inv kl l fresh show ?thesis by simp
    next
      case False
      with that table_delete [OF inv kl l got(1) False] fresh show ?thesis by auto
    qed
    have upd: "?its(i \<mapsto> time) = items p'" by (simp add: got)
    have "?its i = None" by simp
    from table_put [OF m1(2,3) l1 got(1) this f1, of time] obtain m2 where
      "put (key_mem enc base (keys[unat i := key])) m1 (base + ks * unat i) i = Some m2"
      "minv (key_mem enc base (keys[unat i := key])) n m2" "key_len m2 = ks"
      "linked enc ks base n (keys[unat i := key]) (items p') (contents (key_mem enc base (keys[unat i := key])) m2)"
      unfolding upd by blast
    with got m1(1) show ?thesis by blast
  qed blast
qed

end

text \<open>The models of \<open>map.c\<close> and \<open>index_pool.c\<close> satisfy the contracts.\<close>

interpretation cm: key_map map_get map_set map_remove map_inv map_abs "\<lambda>m. unat (cm_key_size m)"
proof unfold_locales
  fix mem c m p k v
  assume "map_inv mem c m" "chars mem p (unat (cm_key_size m)) = k" "map_abs mem m k = None"
    "card (dom (map_abs mem m)) < unat c" "p \<noteq> NULL"
  then show "\<exists>m'. map_set mem m p v = Some m' \<and> map_inv mem c m'
      \<and> unat (cm_key_size m') = unat (cm_key_size m) \<and> map_abs mem m' = (map_abs mem m)(k \<mapsto> (v, p))"
    using map_set_correct [of mem c m k p v] by auto
next
  fix mem c m k
  assume "map_inv mem c m" "length k = unat (cm_key_size m)" "map_abs mem m k \<noteq> None"
  then show "\<exists>m'. map_remove mem m k = Some m' \<and> map_inv mem c m'
      \<and> unat (cm_key_size m') = unat (cm_key_size m) \<and> map_abs mem m' = (map_abs mem m)(k := None)"
    using map_remove_correct [of mem c m k] by auto
next
  fix mem c m mem'
  assume inv: "map_inv mem c m" and same: "\<And>k v p. map_abs mem m k = Some (v, p) \<Longrightarrow>
    chars mem' p (unat (cm_key_size m)) = chars mem p (unat (cm_key_size m))"
  have "keys_agree mem mem' m" by (rule keys_agree_abs [OF inv same])
  with inv show "map_inv mem' c m \<and> map_abs mem' m = map_abs mem m"
    by (simp add: map_inv_frame map_abs_frame)
qed (rule map_get_correct)

interpretation pool: expiring_pool index_pool_borrow index_pool_refresh index_pool_used index_pool_return
  pool_inv pool_items ip_size ip_expiration_time
proof unfold_locales
  fix p i assume "pool_items p i \<noteq> None"
  then show "i < ip_size p" using pool_items_dom by fastforce
next
  fix p and time :: time_t
  assume "pool_inv p" "time \<noteq> TIME_MAX"
  from index_pool_borrow_correct [OF this]
  show "(\<exists>p' i. i < ip_size p \<and> (\<forall>t. pool_items p i = Some t \<longrightarrow> \<not> pool_young time (ip_expiration_time p) t)
        \<and> index_pool_borrow p time = Some (p', Some (i, pool_items p i \<noteq> None)) \<and> pool_inv p'
        \<and> ip_size p' = ip_size p \<and> ip_expiration_time p' = ip_expiration_time p
        \<and> pool_items p' = (pool_items p)(i \<mapsto> time))
      \<or> (index_pool_borrow p time = Some (p, None)
        \<and> (\<forall>i < ip_size p. \<exists>t. pool_items p i = Some t \<and> pool_young time (ip_expiration_time p) t))"
    by (auto simp: available_def split: option.splits)
qed (use index_pool_refresh_correct index_pool_used_correct index_pool_return_correct in blast)+
section \<open>Tables over the two models\<close>

text \<open>
  A network function's key array, map and pool, taken together: the invariant, and the table
  they stand for, which holds a key at an index with the time it was last used.
\<close>

definition table_ok :: "('k \<Rightarrow> byte list) \<Rightarrow> nat \<Rightarrow> size_t \<Rightarrow> addr \<Rightarrow> 'k list \<Rightarrow> cmap \<Rightarrow> index_pool \<Rightarrow> bool" where
  "table_ok enc ks n base keys m pool \<longleftrightarrow>
     map_inv (key_mem enc base keys) n m \<and> unat (cm_key_size m) = ks \<and> pool_inv pool \<and> ip_size pool = n
   \<and> linked enc ks base n keys (pool_items pool) (map_abs (key_mem enc base keys) m)"

definition table_maps :: "'k list \<Rightarrow> index_pool \<Rightarrow> 'k \<Rightarrow> size_t \<Rightarrow> time_t \<Rightarrow> bool" where
  "table_maps keys pool key i t \<longleftrightarrow> pool_items pool i = Some t \<and> keys ! unat i = key"

lemma table_ok_length: "table_ok enc ks n base keys m pool \<Longrightarrow> length keys = unat n"
  by (simp add: table_ok_def linked_def)

lemma table_maps_bound: "table_ok enc ks n base keys m pool \<Longrightarrow> table_maps keys pool key i t \<Longrightarrow> i < n"
  unfolding table_ok_def table_maps_def using pool_items_dom by blast

lemma table_maps_nth: "table_ok enc ks n base keys m pool \<Longrightarrow> table_maps keys pool key i t \<Longrightarrow>
  unat i < length keys \<and> keys ! unat i = key"
  using table_ok_length table_maps_bound by (metis table_maps_def word_less_nat_alt)

lemma table_maps_fun: "table_maps keys pool key i t \<Longrightarrow> table_maps keys pool key' i t' \<Longrightarrow> key' = key \<and> t' = t"
  by (simp add: table_maps_def)

lemma table_maps_unique:
  assumes "table_ok enc ks n base keys m pool" "table_maps keys pool key i t" "table_maps keys pool key j t'"
  shows "i = j"
proof (rule linked_unique [of enc ks base n keys "pool_items pool" _ i j])
  show "linked enc ks base n keys (pool_items pool) (map_abs (key_mem enc base keys) m)"
    using assms(1) by (simp add: table_ok_def)
qed (use assms table_maps_bound [OF assms(1)] in \<open>simp_all add: table_maps_def\<close>)

text \<open>The table as a finite map from keys to times, and what an update of one entry does to it.\<close>

definition table_holds :: "'k list \<Rightarrow> index_pool \<Rightarrow> 'k \<Rightarrow> time_t \<Rightarrow> bool" where
  "table_holds keys pool key t \<longleftrightarrow> (\<exists>i. table_maps keys pool key i t)"

lemma table_holds_unique:
  "table_ok enc ks n base keys m pool \<Longrightarrow> table_holds keys pool key t \<Longrightarrow> table_holds keys pool key t' \<Longrightarrow> t = t'"
  unfolding table_holds_def using table_maps_unique table_maps_fun by metis

lemma table_holds_refresh:
  assumes "table_ok enc ks n base keys m pool" "table_maps keys pool key i t0"
    and upd: "\<And>key' j t. table_maps keys' pool' key' j t \<longleftrightarrow>
      (if j = i then key' = key \<and> t = time else table_maps keys pool key' j t)"
  shows "table_holds keys' pool' f t \<longleftrightarrow> (if f = key then t = time else table_holds keys pool f t)"
proof (cases "f = key")
  case True
  then have "table_maps keys' pool' f j t \<longleftrightarrow> j = i \<and> t = time" for j
    using upd [of f j t] table_maps_unique [OF assms(1,2)] by (cases "j = i") auto
  with True show ?thesis by (simp add: table_holds_def)
next
  case False
  then have "table_maps keys' pool' f j t \<longleftrightarrow> table_maps keys pool f j t" for j
    using upd [of f j t] table_maps_fun [OF assms(2), of f t] by (cases "j = i") auto
  with False show ?thesis by (simp add: table_holds_def)
qed

lemma table_holds_learn:
  assumes fresh: "\<And>i t. \<not> table_maps keys pool key i t"
    and upd: "\<And>key' j t. table_maps keys' pool' key' j t \<longleftrightarrow>
      (if j = i then key' = key \<and> t = time else table_maps keys pool key' j t)"
  shows "table_holds keys' pool' f t \<longleftrightarrow>
    (if f = key then t = time else \<exists>j. j \<noteq> i \<and> table_maps keys pool f j t)"
proof (cases "f = key")
  case False
  then have "table_maps keys' pool' f j t \<longleftrightarrow> j \<noteq> i \<and> table_maps keys pool f j t" for j
    using upd [of f j t] by auto
  with False show ?thesis by (simp add: table_holds_def)
qed (use fresh upd in \<open>auto simp: table_holds_def\<close>)

text \<open>The encoders are those of the network functions' key types.\<close>

locale encoded_keys =
  fixes enc :: "'k \<Rightarrow> byte list" and ks :: nat
  assumes encoding_length: "length (enc k) = ks" and encoding_inj: "enc k = enc k' \<Longrightarrow> k = k'"

sublocale encoded_keys \<subseteq> keyed_table map_get map_set map_remove map_inv map_abs "\<lambda>m. unat (cm_key_size m)"
  index_pool_borrow index_pool_refresh index_pool_used index_pool_return pool_inv pool_items
  ip_size ip_expiration_time enc ks
  by unfold_locales (rule encoding_length, erule encoding_inj)

context encoded_keys
begin

lemma ok_lookup:
  assumes "table_ok enc ks n base keys m pool"
  obtains (known) i t where "table_maps keys pool key i t"
      "map_get (key_mem enc base keys) m (enc key) = Some (Some i)"
  | (unknown) "\<And>i t. \<not> table_maps keys pool key i t"
      "map_get (key_mem enc base keys) m (enc key) = Some None"
proof -
  have ok: "map_inv (key_mem enc base keys) n m" "unat (cm_key_size m) = ks" "ip_size pool = n"
    "linked enc ks base n keys (pool_items pool) (map_abs (key_mem enc base keys) m)"
    using assms by (simp_all add: table_ok_def)
  from table_lookup [OF ok(1,2,4), of key] show ?thesis
  proof
    assume "\<exists>i<n. pool_items pool i \<noteq> None \<and> keys ! unat i = key
      \<and> map_get (key_mem enc base keys) m (enc key) = Some (Some i)"
    then show ?thesis using known by (auto simp: table_maps_def)
  next
    assume no: "(\<forall>i<n. pool_items pool i \<noteq> None \<longrightarrow> keys ! unat i \<noteq> key)
      \<and> map_abs (key_mem enc base keys) m (enc key) = None
      \<and> map_get (key_mem enc base keys) m (enc key) = Some None"
    have "\<not> table_maps keys pool key i t" for i t
      using no table_maps_bound [OF assms, of key i t] by (auto simp: table_maps_def)
    then show ?thesis using unknown no by blast
  qed
qed

lemma ok_refresh:
  assumes ok: "table_ok enc ks n base keys m pool" and i: "table_maps keys pool key i t0"
    and t: "time \<noteq> TIME_MAX"
  obtains pool' where "index_pool_refresh pool time i = Some pool'" "table_ok enc ks n base keys m pool'"
    "ip_expiration_time pool' = ip_expiration_time pool"
    "\<And>key' j t. table_maps keys pool' key' j t \<longleftrightarrow>
      (if j = i then key' = key \<and> t = time else table_maps keys pool key' j t)"
proof -
  have p: "pool_inv pool" "ip_size pool = n" and item: "pool_items pool i \<noteq> None"
    and l: "linked enc ks base n keys (pool_items pool) (map_abs (key_mem enc base keys) m)"
    using ok i by (simp_all add: table_ok_def table_maps_def)
  have "i < ip_size pool" using table_maps_bound [OF ok i] p by simp
  from refresh_law [OF p(1) this t] obtain pool' where
    pool': "index_pool_refresh pool time i = Some pool'" "pool_inv pool'" "ip_size pool' = ip_size pool"
      "ip_expiration_time pool' = ip_expiration_time pool" "pool_items pool' = (pool_items pool)(i \<mapsto> time)" by blast
  have "table_ok enc ks n base keys m pool'"
    using ok pool' linked_refresh [OF l item, of time] by (simp add: table_ok_def)
  then show ?thesis by (rule that [OF pool'(1) _ pool'(4)]) (use pool'(5) i in \<open>auto simp: table_maps_def\<close>)
qed

lemma ok_used:
  "table_ok enc ks n base keys m pool \<Longrightarrow> table_maps keys pool key i t \<Longrightarrow>
   index_pool_used pool time i = Some (pool_young time (ip_expiration_time pool) t)"
  by (simp add: table_ok_def table_maps_def used_law)

text \<open>The learning step; \<open>learn_map\<close> is the map's part of it, as the clients write it.\<close>

lemma ok_learn:
  assumes ok: "table_ok enc ks n base keys m pool" and fresh: "\<And>i t. \<not> table_maps keys pool key i t"
    and t: "time \<noteq> TIME_MAX"
  obtains (learned) pool' i was_used m1 m2 where
      "index_pool_borrow pool time = Some (pool', Some (i, was_used))"
      "unat i < length keys" "was_used \<longleftrightarrow> pool_items pool i \<noteq> None"
      "\<And>t key'. table_maps keys pool key' i t \<Longrightarrow> \<not> pool_young time (ip_expiration_time pool) t"
      "(if was_used then map_remove (key_mem enc base keys) m (enc (keys ! unat i)) else Some m) = Some m1"
      "map_set (key_mem enc base (keys[unat i := key])) m1 (base + ks * unat i) i = Some m2"
      "table_ok enc ks n base (keys[unat i := key]) m2 pool'"
      "ip_expiration_time pool' = ip_expiration_time pool"
      "\<And>key' j t. table_maps (keys[unat i := key]) pool' key' j t \<longleftrightarrow>
        (if j = i then key' = key \<and> t = time else table_maps keys pool key' j t)"
  | (full) "index_pool_borrow pool time = Some (pool, None)"
      "\<And>i. i < n \<Longrightarrow> \<exists>key t. table_maps keys pool key i t \<and> pool_young time (ip_expiration_time pool) t"
proof -
  have o: "map_inv (key_mem enc base keys) n m" "unat (cm_key_size m) = ks" "pool_inv pool" "ip_size pool = n"
    "linked enc ks base n keys (pool_items pool) (map_abs (key_mem enc base keys) m)"
    using ok by (simp_all add: table_ok_def)
  have none: "map_abs (key_mem enc base keys) m (enc key) = None"
    using ok
  proof (cases rule: ok_lookup [where key = key])
    case unknown
    then show ?thesis using lookup_law [OF o(1), of "enc key"] enc_length o(2) by simp
  qed (use fresh in blast)
  from table_learn [OF o(1,2,3,4,5) none t] show ?thesis
  proof (elim disjE exE conjE)
    fix pool' i was_used m1 m2
    assume a: "index_pool_borrow pool time = Some (pool', Some (i, was_used))" "i < n"
      "was_used = (pool_items pool i \<noteq> None)"
      "\<forall>t. pool_items pool i = Some t \<longrightarrow> \<not> pool_young time (ip_expiration_time pool) t"
      "(if was_used then map_remove (key_mem enc base keys) m (enc (keys ! unat i)) else Some m) = Some m1"
      "map_set (key_mem enc base (keys[unat i := key])) m1 (base + ks * unat i) i = Some m2"
      "map_inv (key_mem enc base (keys[unat i := key])) n m2" "unat (cm_key_size m2) = ks" "pool_inv pool'"
      "ip_size pool' = n" "ip_expiration_time pool' = ip_expiration_time pool"
      "pool_items pool' = (pool_items pool)(i \<mapsto> time)"
      "linked enc ks base n (keys[unat i := key]) (pool_items pool')
        (map_abs (key_mem enc base (keys[unat i := key])) m2)"
    have i: "unat i < length keys" using a(2) table_ok_length [OF ok] by (simp add: word_less_nat_alt)
    have ok': "table_ok enc ks n base (keys[unat i := key]) m2 pool'"
      using a(7-10,13) by (simp add: table_ok_def)
    have maps: "table_maps (keys[unat i := key]) pool' key' j t \<longleftrightarrow>
        (if j = i then key' = key \<and> t = time else table_maps keys pool key' j t)" for key' j t
    proof (cases "j = i")
      case True
      then show ?thesis using i a(12) by (auto simp: table_maps_def)
    next
      case False
      then have "unat i \<noteq> unat j" by (simp add: word_unat_eq_iff)
      with False show ?thesis using a(12) by (simp add: table_maps_def)
    qed
    show ?thesis
      by (rule learned [OF a(1) i a(3) _ a(5,6) ok' a(11) maps]) (use a(4) in \<open>auto simp: table_maps_def\<close>)
  next
    assume "index_pool_borrow pool time = Some (pool, None)"
      "\<forall>i<n. \<exists>t. pool_items pool i = Some t \<and> pool_young time (ip_expiration_time pool) t"
    then show ?thesis by (intro full) (auto simp: table_maps_def)
  qed
qed

text \<open>Giving an entry back, as the load balancer does.\<close>

lemma ok_forget:
  assumes ok: "table_ok enc ks n base keys m pool" and i: "table_maps keys pool key i t0"
  obtains m' pool' where "map_remove (key_mem enc base keys) m (enc key) = Some m'"
    "index_pool_return pool i = Some pool'" "table_ok enc ks n base keys m' pool'"
    "ip_expiration_time pool' = ip_expiration_time pool"
    "\<And>key' j t. table_maps keys pool' key' j t \<longleftrightarrow> j \<noteq> i \<and> table_maps keys pool key' j t"
proof -
  have o: "map_inv (key_mem enc base keys) n m" "unat (cm_key_size m) = ks" "pool_inv pool" "ip_size pool = n"
    "linked enc ks base n keys (pool_items pool) (map_abs (key_mem enc base keys) m)"
    and item: "pool_items pool i \<noteq> None" and key: "keys ! unat i = key"
    using ok i by (simp_all add: table_ok_def table_maps_def)
  have lt: "i < n" by (rule table_maps_bound [OF ok i])
  from table_delete [OF o(1,2,5) lt item] obtain m' where
    m': "map_remove (key_mem enc base keys) m (enc key) = Some m'" "map_inv (key_mem enc base keys) n m'"
      "unat (cm_key_size m') = ks"
      "linked enc ks base n keys ((pool_items pool)(i := None)) (map_abs (key_mem enc base keys) m')"
    unfolding key by blast
  from give_back_law [OF o(3), of i] lt o(4) obtain pool' where
    pool': "index_pool_return pool i = Some pool'" "pool_inv pool'" "ip_size pool' = n"
      "ip_expiration_time pool' = ip_expiration_time pool" "pool_items pool' = (pool_items pool)(i := None)" by auto
  have "table_ok enc ks n base keys m' pool'" using m' pool' by (simp add: table_ok_def)
  then show ?thesis by (rule that [OF m'(1) pool'(1) _ pool'(4)]) (auto simp: table_maps_def pool'(5))
qed

text \<open>A fresh table is empty.\<close>

lemma ok_alloc:
  assumes "map_alloc om (of_nat ks) n = Some (m, om')" "index_pool_alloc om2 n e = Some (pool, om2')"
    and "unat n \<le> 2 ^ 63" "ks < 2 ^ 64" "base \<noteq> NULL" "length keys = unat n"
  shows "table_ok enc ks n base keys m pool" "\<And>key i t. \<not> table_maps keys pool key i t"
    "ip_expiration_time pool = e"
proof -
  note m = map_alloc_correct [OF assms(1,3)] and p = index_pool_alloc_correct [OF assms(2)]
  have "unat (cm_key_size m) = ks" using m(3) assms(4) by simp
  moreover have "linked enc ks base n keys Map.empty Map.empty" using assms(5,6) by (simp add: linked_def)
  ultimately show "table_ok enc ks n base keys m pool" using m p by (simp add: table_ok_def)
  show "\<And>key i t. \<not> table_maps keys pool key i t" using p by (simp add: table_maps_def)
  show "ip_expiration_time pool = e" by (rule p(3))
qed

end

text \<open>A table with nothing in it, given outright.\<close>

definition empty_cmap :: "size_t \<Rightarrow> nat \<Rightarrow> cmap" where
  "empty_cmap n ks = \<lparr>cm_items = replicate (unat n) zero_item, cm_capacity = n, cm_key_size = of_nat ks\<rparr>"

definition empty_pool :: "size_t \<Rightarrow> time_t \<Rightarrow> index_pool" where
  "empty_pool n e = \<lparr>ip_timestamps = replicate (unat n) TIME_MAX, ip_size = n, ip_expiration_time = e,
     ip_last_borrowed_index = 0\<rparr>"

lemma pow2_capacity_2 [simp]: "pow2_capacity 2"
  by (auto simp: pow2_capacity_def intro: exI [of _ 1])

lemma empty_pool_expiration [simp]: "ip_expiration_time (empty_pool n e) = e"
  by (simp add: empty_pool_def)

lemma empty_pool_items: "pool_items (empty_pool n e) = Map.empty"
  by (intro ext) (simp add: pool_items_def word_less_nat_alt empty_pool_def)

lemma empty_pool_maps [simp]: "\<not> table_maps keys (empty_pool n e) key i t"
  by (simp add: table_maps_def empty_pool_items)

lemma empty_table_ok:
  assumes "pow2_capacity n" "ks < 2 ^ 64" "base \<noteq> NULL" "length keys = unat n"
  shows "table_ok enc ks n base keys (empty_cmap n ks) (empty_pool n e)"
proof -
  have free: "\<forall>it \<in> set (cm_items (empty_cmap n ks)). free_item it"
    by (simp add: empty_cmap_def free_item_def zero_item_def)
  have "map_inv mem n (empty_cmap n ks)" "map_abs mem (empty_cmap n ks) = Map.empty" for mem
    using free_items_inv [OF free, of n mem] assms(1) by (simp_all add: empty_cmap_def)
  then show ?thesis
    using assms(2-4) empty_pool_items by (simp add: table_ok_def pool_inv_def linked_def)
      (simp add: empty_cmap_def empty_pool_def)
qed

text \<open>Two of the key types are integers, compared as their bytes.\<close>

interpretation u32_keys: encoded_keys "le_bytes 4 :: u32 \<Rightarrow> byte list" 4
  by unfold_locales (auto dest: le_bytes_inj [rotated])

end
