(* ===== verification/Net_Flow.thy ===== *)
theory Net_Flow
  imports Net_Packet Expiring_Table
begin

text \<open>
  Flows: \<open>struct flow\<close>, which the firewall, the NAT and the load balancer each declare with the
  same layout, and the flow of a packet as its headers give it.
\<close>

section \<open>Flows as keys\<close>

record flow =
  src_ip :: u32
  dst_ip :: u32
  src_port :: u16
  dst_port :: u16
  protocol :: byte

text \<open>
  The 16 bytes of a flow. \<open>_padding\<close> is 0 in every flow of the program: the initialisers leave
  it out, and the arrays come zeroed from the allocator.
\<close>

definition flow_bytes :: "flow \<Rightarrow> byte list" where
  "flow_bytes f = le_bytes 4 (src_ip f) @ le_bytes 4 (dst_ip f) @ le_bytes 2 (src_port f)
     @ le_bytes 2 (dst_port f) @ [protocol f] @ [0, 0, 0]"

definition zero_flow :: flow where
  "zero_flow = \<lparr>src_ip = 0, dst_ip = 0, src_port = 0, dst_port = 0, protocol = 0\<rparr>"

lemma flow_bytes_inj: "flow_bytes f = flow_bytes g \<Longrightarrow> f = g"
proof -
  assume "flow_bytes f = flow_bytes g"
  then have "le_bytes 4 (src_ip f) = le_bytes 4 (src_ip g)" "le_bytes 4 (dst_ip f) = le_bytes 4 (dst_ip g)"
    "le_bytes 2 (src_port f) = le_bytes 2 (src_port g)" "le_bytes 2 (dst_port f) = le_bytes 2 (dst_port g)"
    "protocol f = protocol g"
    unfolding flow_bytes_def by simp_all
  then show ?thesis
    by (intro flow.equality) (auto dest!: le_bytes_inj [rotated])
qed

interpretation flow_keys: encoded_keys flow_bytes 16
  by unfold_locales (simp add: flow_bytes_def, rule flow_bytes_inj)

text \<open>
  An Ethernet address as a key is the number that its 6 bytes are in little-endian order, which
  is how the bridge and the DHCP server store and compare it here.
\<close>

type_synonym mac = "48 word"

interpretation mac_keys: encoded_keys "le_bytes 6 :: mac \<Rightarrow> byte list" 6
  by unfold_locales (auto dest: le_bytes_inj [rotated])

section \<open>The flow of a packet\<close>

text \<open>The buffer holds the headers that the network functions look at.\<close>

definition headers_fit :: "net_packet \<Rightarrow> bool" where
  "headers_fit packet \<longleftrightarrow> 38 \<le> length (pkt_data packet)"

definition is_tcpudp :: "net_packet \<Rightarrow> bool" where
  "is_tcpudp packet \<longleftrightarrow> (le_word (take 2 (drop 12 (pkt_data packet))) :: u16) = 8
     \<and> (pkt_data packet ! 23 = IP_PROTOCOL_TCP \<or> pkt_data packet ! 23 = IP_PROTOCOL_UDP)"

text \<open>The EtherType of IPv4.\<close>

definition is_ipv4 :: "net_packet \<Rightarrow> bool" where
  "is_ipv4 packet \<longleftrightarrow> (le_word (take 2 (drop 12 (pkt_data packet))) :: u16) = 8"

definition packet_flow :: "net_packet \<Rightarrow> flow" where
  "packet_flow packet =
     \<lparr>src_ip = le_word (take 4 (drop 26 (pkt_data packet))),
      dst_ip = le_word (take 4 (drop 30 (pkt_data packet))),
      src_port = le_word (take 2 (drop 34 (pkt_data packet))),
      dst_port = le_word (take 2 (drop 36 (pkt_data packet))),
      protocol = pkt_data packet ! 23\<rparr>"

definition flow_inverse :: "flow \<Rightarrow> flow" where
  "flow_inverse f = \<lparr>src_ip = dst_ip f, dst_ip = src_ip f, src_port = dst_port f, dst_port = src_port f,
     protocol = protocol f\<rparr>"

lemma flow_inverse_inverse [simp]: "flow_inverse (flow_inverse f) = f"
  by (simp add: flow_inverse_def)

lemma flow_inverse_inj: "flow_inverse f = flow_inverse g \<longleftrightarrow> f = g"
  by (metis flow_inverse_inverse)

text \<open>What the header accessors read, for the offsets the network functions use.\<close>

named_theorems header_reads \<open>header accesses within the buffer\<close>

lemma rd8_in: "off < length d \<Longrightarrow> rd8 d off = Some (d ! off)"
  by (simp add: rd8_def rd_bytes_def take_Suc_conv_app_nth hd_drop_conv_nth take_Suc)

lemma ether_type_read [header_reads]:
  "headers_fit packet \<Longrightarrow> ether_type (pkt_data packet) 0 = Some (le_word (take 2 (drop 12 (pkt_data packet))))"
  by (simp add: headers_fit_def ether_type_def rd16_def rd_bytes_def)

lemma ip_next_proto_id_read [header_reads]:
  "headers_fit packet \<Longrightarrow> ip_next_proto_id (pkt_data packet) 14 = Some (protocol (packet_flow packet))"
  by (simp add: headers_fit_def ip_next_proto_id_def rd8_in packet_flow_def)

lemma ip_src_addr_read [header_reads]:
  "headers_fit packet \<Longrightarrow> ip_src_addr (pkt_data packet) 14 = Some (src_ip (packet_flow packet))"
  by (simp add: headers_fit_def ip_src_addr_def rd32_def rd_bytes_def packet_flow_def)

lemma ip_dst_addr_read [header_reads]:
  "headers_fit packet \<Longrightarrow> ip_dst_addr (pkt_data packet) 14 = Some (dst_ip (packet_flow packet))"
  by (simp add: headers_fit_def ip_dst_addr_def rd32_def rd_bytes_def packet_flow_def)

lemma l4_src_port_read [header_reads]:
  "headers_fit packet \<Longrightarrow> l4_src_port (pkt_data packet) 34 = Some (src_port (packet_flow packet))"
  by (simp add: headers_fit_def l4_src_port_def rd16_def rd_bytes_def packet_flow_def)

lemma l4_dst_port_read [header_reads]:
  "headers_fit packet \<Longrightarrow> l4_dst_port (pkt_data packet) 34 = Some (dst_port (packet_flow packet))"
  by (simp add: headers_fit_def l4_dst_port_def rd16_def rd_bytes_def packet_flow_def)

lemma ether_header_read [header_reads]: "net_get_ether_header packet = Some (True, 0)"
  by (simp add: net_get_ether_header_def)

text \<open>
  The three header lookups that open most packet handlers, up to the TCP/UDP header; they give
  the three header pointers.
\<close>

lemma header_lookups:
  assumes "headers_fit packet"
  shows "net_get_ether_header packet = Some (True, 0)"
    "net_get_ipv4_header (pkt_data packet) 0
      = Some ((le_word (take 2 (drop 12 (pkt_data packet))) :: u16) = 8, 14)"
    "net_get_tcpudp_header (pkt_data packet) 14
      = Some (protocol (packet_flow packet) = IP_PROTOCOL_TCP \<or> protocol (packet_flow packet) = IP_PROTOCOL_UDP, 34)"
  by (simp_all add: net_get_ether_header_def net_get_ipv4_header_def net_get_tcpudp_header_def
      ether_type_read [OF assms] ip_next_proto_id_read [OF assms])

lemma ipv4_header_read [header_reads]:
  "headers_fit packet \<Longrightarrow> net_get_ipv4_header (pkt_data packet) 0 = Some (is_ipv4 packet, 14)"
  by (simp add: header_lookups is_ipv4_def)

lemma is_tcpudp_iff: "is_tcpudp packet \<longleftrightarrow> (le_word (take 2 (drop 12 (pkt_data packet))) :: u16) = 8
  \<and> (protocol (packet_flow packet) = IP_PROTOCOL_TCP \<or> protocol (packet_flow packet) = IP_PROTOCOL_UDP)"
  by (simp add: is_tcpudp_def packet_flow_def)

lemma is_tcpudp_ipv4 [header_reads]: "is_tcpudp packet \<Longrightarrow> is_ipv4 packet"
  by (simp add: is_tcpudp_def is_ipv4_def)

lemma tcpudp_headers [header_reads]:
  assumes "headers_fit packet" "is_tcpudp packet"
  shows "net_get_ipv4_header (pkt_data packet) 0 = Some (True, 14)"
    "net_get_tcpudp_header (pkt_data packet) 14 = Some (True, 34)"
  using assms by (simp_all add: header_lookups is_tcpudp_iff)

lemma not_tcpudp_headers:
  assumes "headers_fit packet" "\<not> is_tcpudp packet"
  obtains "net_get_ipv4_header (pkt_data packet) 0 = Some (False, 14)"
  | "net_get_ipv4_header (pkt_data packet) 0 = Some (True, 14)"
    "net_get_tcpudp_header (pkt_data packet) 14 = Some (False, 34)"
  using assms by (auto simp: header_lookups is_tcpudp_iff)

lemma flow_fields [simp]:
  "\<lparr>src_ip = src_ip f, dst_ip = dst_ip f, src_port = src_port f, dst_port = dst_port f, protocol = protocol f\<rparr> = f"
  by (rule flow.equality) simp_all

section \<open>Entries that stay in use\<close>

text \<open>
  An entry of a table, last used at \<open>t\<close>, that is never idle for longer than the expiration time \<open>e\<close>
  while the packets arrive, where \<open>uses\<close> are the packets that use it; and when it was last used
  after them.
\<close>

fun kept_alive :: "(net_packet \<Rightarrow> bool) \<Rightarrow> time_t \<Rightarrow> time_t \<Rightarrow> net_packet list \<Rightarrow> bool" where
  "kept_alive uses e t [] = True"
| "kept_alive uses e t (q # packets) \<longleftrightarrow> pool_young (pkt_time q) e t
     \<and> kept_alive uses e (if uses q then pkt_time q else t) packets"

fun last_use :: "(net_packet \<Rightarrow> bool) \<Rightarrow> time_t \<Rightarrow> net_packet list \<Rightarrow> time_t" where
  "last_use uses t [] = t"
| "last_use uses t (q # packets) = last_use uses (if uses q then pkt_time q else t) packets"

lemma kept_alive_snoc:
  "kept_alive uses e t (packets @ [q]) \<longleftrightarrow> kept_alive uses e t packets \<and> pool_young (pkt_time q) e (last_use uses t packets)"
  by (induction packets arbitrary: t) simp_all

lemma last_use_snoc: "last_use uses t (packets @ [q]) = (if uses q then pkt_time q else last_use uses t packets)"
  by (induction packets arbitrary: t) simp_all

section \<open>Example packets\<close>

text \<open>
  A UDP packet with the given address and port fields, as the end of its first 38 bytes, and
  one that is not IPv4.
\<close>

definition example_udp :: "device_t \<Rightarrow> time_t \<Rightarrow> byte list \<Rightarrow> net_packet" where
  "example_udp dev time ends =
     \<lparr>pkt_data = replicate 12 0 @ [8, 0] @ replicate 9 0 @ [17] @ replicate 2 0 @ ends,
      pkt_length = 60, pkt_time = time, pkt_device = dev\<rparr>"

definition example_request :: net_packet where
  "example_request = example_udp 0 5 [10, 0, 0, 1, 20, 0, 0, 2, 1, 0, 2, 0]"

definition example_reply :: net_packet where
  "example_reply = example_udp 1 6 [20, 0, 0, 2, 10, 0, 0, 1, 2, 0, 1, 0]"

lemma example_packets:
  "headers_fit example_request" "headers_fit example_reply"
  "is_tcpudp example_request" "is_tcpudp example_reply"
  "pkt_time example_request = 5" "pkt_time example_reply = 6"
  "pkt_device example_request = 0" "pkt_device example_reply = 1"
  "packet_flow example_reply = flow_inverse (packet_flow example_request)"
  by code_simp+

end
