(* ===== verification/Os_Config.thy ===== *)
theory Os_Config
  imports Prelude
begin

text \<open>
  Configuration: \<open>env/src/os/config.c\<close>, \<open>env/include/os/config.h\<close> and the device helper of
  \<open>env/include/net/skeleton.h\<close>. The build generates the table \<open>NF_CONFIG_DATA\<close>; here it is a
  list of names and values.
\<close>

type_synonym config = "(string \<times> u64) list"

section \<open>The model\<close>

text \<open>A C string is its characters, then a NUL.\<close>

definition c_str :: "string \<Rightarrow> string" where
  "c_str s = s @ [CHR 0x00]"

text \<open>
  \<open>string_compare\<close>: the C loop leaves with \<open>n = SIZE_MAX\<close> for equal strings and with a smaller
  \<open>n\<close> for different ones; the result here is that final test. \<^theory_text>\<open>None\<close> is a read past
  the end of a string.
\<close>

function string_compare_loop :: "string \<Rightarrow> string \<Rightarrow> nat \<Rightarrow> bool option" where
  "string_compare_loop a b n =
     (if n < length a \<and> n < length b
      then if a ! n \<noteq> b ! n then Some False
           else if a ! n = CHR 0x00 then Some True
           else string_compare_loop a b (n + 1)
      else None)"
  by pat_completeness auto
termination
  by (relation "measure (\<lambda>(a, b, n). length a - n)") auto

declare string_compare_loop.simps [simp del]

definition string_compare :: "string \<Rightarrow> string \<Rightarrow> bool option" where
  "string_compare a b = string_compare_loop a b 0"

fun os_config_try_get :: "config \<Rightarrow> string \<Rightarrow> u64 option option" where
  "os_config_try_get [] name = Some None"
| "os_config_try_get ((item, v) # items) name = do {
     eq \<leftarrow> string_compare (c_str item) (c_str name);
     if eq then Some (Some v) else os_config_try_get items name }"

text \<open>The lower bound is compared as a signed number, and only when it is not 0.\<close>

definition os_config_get :: "config \<Rightarrow> string \<Rightarrow> u64 \<Rightarrow> u64 \<Rightarrow> u64 option option" where
  "os_config_get items name mn mx = do {
     r \<leftarrow> os_config_try_get items name;
     case r of None \<Rightarrow> Some None
     | Some v \<Rightarrow>
         if mn \<noteq> 0 \<and> sint v < sint mn then Some None
         else if v \<le> mx then Some (Some v) else Some None }"

definition os_config_get_u64 :: "config \<Rightarrow> string \<Rightarrow> u64 option option" where
  "os_config_get_u64 items name = os_config_get items name 0 0xFFFFFFFFFFFFFFFF"

definition os_config_get_u32 :: "config \<Rightarrow> string \<Rightarrow> u32 option option" where
  "os_config_get_u32 items name = do {
     r \<leftarrow> os_config_get items name 0 0xFFFFFFFF;
     Some (map_option (\<lambda>v. ucast v) r) }"

definition os_config_get_u16 :: "config \<Rightarrow> string \<Rightarrow> u16 option option" where
  "os_config_get_u16 items name = do {
     r \<leftarrow> os_config_get items name 0 0xFFFF;
     Some (map_option (\<lambda>v. ucast v) r) }"

text \<open>The special maximum \<open>SIZE_MAX / 64\<close> is what the data structures rely on.\<close>

definition os_config_get_size :: "config \<Rightarrow> string \<Rightarrow> size_t option option" where
  "os_config_get_size items name = os_config_get items name 0 (0xFFFFFFFFFFFFFFFF div 64)"

definition TIME_MIN :: time_t where
  "TIME_MIN = 0"

definition os_config_get_time :: "config \<Rightarrow> string \<Rightarrow> time_t option option" where
  "os_config_get_time items name = os_config_get items name TIME_MIN TIME_MAX"

text \<open>
  \<open>devices_count - 1\<close> is computed as an \<open>int\<close>, so for \<open>devices_count = 0\<close> the maximum is
  \<open>UINT64_MAX\<close>.
\<close>

definition os_config_get_device :: "config \<Rightarrow> string \<Rightarrow> device_t \<Rightarrow> device_t option option" where
  "os_config_get_device items name devices_count = do {
     r \<leftarrow> os_config_get items name 0 (ucast devices_count - 1);
     Some (map_option (\<lambda>v. ucast v) r) }"

section \<open>Properties\<close>

definition c_string :: "string \<Rightarrow> bool" where
  "c_string s \<longleftrightarrow> CHR 0x00 \<notin> set s"

lemma c_str_nth: "n < length s \<Longrightarrow> c_str s ! n = s ! n" "c_str s ! length s = CHR 0x00"
  by (simp_all add: c_str_def nth_append)

lemma length_c_str [simp]: "length (c_str s) = Suc (length s)"
  by (simp add: c_str_def)

lemma string_compare_loop_correct:
  assumes "c_string a" "c_string b" "n \<le> length a" "n \<le> length b" "take n a = take n b"
  shows "string_compare_loop (c_str a) (c_str b) n = Some (a = b)"
  using assms
proof (induction "length a - n" arbitrary: n)
  case 0
  then have n: "n = length a" by simp
  show ?case
  proof (cases "length b = n")
    case True
    with 0 n have "a = b" by simp
    with n show ?thesis by (subst string_compare_loop.simps) (simp add: c_str_nth)
  next
    case False
    then have lt: "n < length b" using 0 by simp
    then have "b ! n \<noteq> CHR 0x00" using 0(3) by (metis c_string_def nth_mem)
    moreover have "a \<noteq> b" using lt n by auto
    ultimately show ?thesis using n lt by (subst string_compare_loop.simps) (simp add: c_str_nth)
  qed
next
  case (Suc d)
  then have lt: "n < length a" by simp
  then have nz: "a ! n \<noteq> CHR 0x00" using Suc.prems(1) by (metis c_string_def nth_mem)
  show ?case
  proof (cases "n < length b \<and> a ! n = b ! n")
    case True
    then have "take (n + 1) a = take (n + 1) b" using lt Suc.prems(5) by (simp add: take_Suc_conv_app_nth)
    then have "string_compare_loop (c_str a) (c_str b) (n + 1) = Some (a = b)"
      using Suc.hyps(1) [of "n + 1"] Suc.hyps(2) Suc.prems lt True by simp
    with True lt nz show ?thesis by (subst string_compare_loop.simps) (simp add: c_str_nth)
  next
    case False
    then have ne: "a \<noteq> b" using lt by auto
    have "c_str b ! n \<noteq> a ! n"
    proof (cases "n < length b")
      case True
      with False show ?thesis by (simp add: c_str_nth)
    next
      case False
      with Suc.prems(4) have "n = length b" by simp
      with nz show ?thesis by (simp add: c_str_nth)
    qed
    with ne lt Suc.prems(4) show ?thesis by (subst string_compare_loop.simps) (auto simp: c_str_nth)
  qed
qed

lemma string_compare_correct: "c_string a \<Longrightarrow> c_string b \<Longrightarrow> string_compare (c_str a) (c_str b) = Some (a = b)"
  by (simp add: string_compare_def string_compare_loop_correct)

text \<open>The configuration is the finite map its table lists, the first entry of a name counting.\<close>

definition config_ok :: "config \<Rightarrow> bool" where
  "config_ok items \<longleftrightarrow> (\<forall>(name, v) \<in> set items. c_string name)"

lemma os_config_try_get_correct:
  "config_ok items \<Longrightarrow> c_string name \<Longrightarrow> os_config_try_get items name = Some (map_of items name)"
  by (induction items name rule: os_config_try_get.induct)
    (auto simp: config_ok_def string_compare_correct)

lemma os_config_get_correct:
  assumes "config_ok items" "c_string name"
  shows "os_config_get items name 0 mx = Some (case map_of items name of None \<Rightarrow> None
    | Some v \<Rightarrow> if v \<le> mx then Some v else None)"
  by (simp add: os_config_get_def os_config_try_get_correct [OF assms] split: option.splits)

lemma os_config_get_bound: "os_config_get items name mn mx = Some (Some v) \<Longrightarrow> v \<le> mx"
  by (auto simp: os_config_get_def split: Option.bind_splits option.splits if_splits)

lemma os_config_get_size_bound:
  assumes "os_config_get_size items name = Some (Some v)"
  shows "unat v < 2 ^ 58"
proof -
  have "v \<le> 0xFFFFFFFFFFFFFFFF div 64" using assms unfolding os_config_get_size_def by (rule os_config_get_bound)
  then show ?thesis by (simp add: word_le_nat_alt unat_div)
qed

lemma os_config_get_device_bound:
  assumes "os_config_get_device items name devices_count = Some (Some d)" "0 < devices_count"
  shows "d < devices_count"
proof -
  obtain v where v: "os_config_get items name 0 (ucast devices_count - 1) = Some (Some v)" and d: "d = ucast v"
    using assms(1) by (auto simp: os_config_get_device_def split: Option.bind_splits)
  have "(ucast devices_count :: u64) > 0" using assms(2) by (simp add: word_less_nat_alt)
  then have "unat (ucast devices_count - 1 :: u64) = unat devices_count - 1"
    using unat_pred_word [of "ucast devices_count :: u64"] by simp
  moreover have "v \<le> ucast devices_count - 1" using v by (rule os_config_get_bound)
  moreover have "0 < unat devices_count" using assms(2) by (simp add: word_less_nat_alt)
  ultimately have lt: "unat v < unat devices_count" by (simp add: word_le_nat_alt)
  moreover have "unat devices_count < 2 ^ 16" using unsigned_less [of devices_count] by simp
  ultimately have "unat d = unat v" by (simp add: d unsigned_ucast_eq take_bit_nat_eq_self)
  with lt show ?thesis by (simp add: word_less_nat_alt)
qed

end
