(* ===== verification/Nf_Router.thy ===== *)
theory Nf_Router
  imports Net_Flow Os_Config
begin

text \<open>
  The router: \<open>nf/router/router.c\<close>. Data packets are validated and sent to the device that the
  longest-prefix-match table gives for their destination; packets from the last device are
  commands that add a route.

  The repository declares the table, \<open>env/include/structs/lpm.h\<close>, but does not implement it. Its
  three functions are parameters here, on a type \<^typ>\<open>'l\<close> of tables.
\<close>

section \<open>The model\<close>

record 'l router =
  rt_devices_count :: device_t
  rt_lpm :: 'l

text \<open>\<open>lpm_alloc (key_size, value_size, capacity)\<close>.\<close>

definition rt_nf_init ::
    "(size_t \<Rightarrow> size_t \<Rightarrow> size_t \<Rightarrow> 'l) \<Rightarrow> config \<Rightarrow> device_t \<Rightarrow> 'l router option option" where
  "rt_nf_init lpm_alloc cfg devices_count = do {
     c \<leftarrow> os_config_get_size cfg ''capacity'';
     case c of None \<Rightarrow> Some None
     | Some capacity \<Rightarrow> Some (Some \<lparr>rt_devices_count = devices_count, rt_lpm = lpm_alloc 4 2 capacity\<rparr>) }"

text \<open>A command: 4 bytes of key, 8 bytes of prefix width and 2 bytes of device.\<close>

definition rt_command ::
    "('l \<Rightarrow> u32 \<Rightarrow> size_t \<Rightarrow> device_t \<Rightarrow> 'l) \<Rightarrow> 'l router \<Rightarrow> byte list \<Rightarrow> 'l router option" where
  "rt_command lpm_set st d = do {
     key \<leftarrow> rd32 d 0;
     width \<leftarrow> rd64 d 4;
     if width > 32 then Some st
     else do {
       val \<leftarrow> rd16 d 12;
       Some (st\<lparr>rt_lpm := lpm_set (rt_lpm st) key width val\<rparr>) } }"

definition rt_nf_handle ::
    "('l \<Rightarrow> u32 \<Rightarrow> size_t \<Rightarrow> device_t \<Rightarrow> 'l) \<Rightarrow> ('l \<Rightarrow> u32 \<Rightarrow> device_t option) \<Rightarrow>
     'l router \<Rightarrow> net_packet \<Rightarrow> ('l router \<times> net_packet \<times> tx list) option" where
  "rt_nf_handle lpm_set lpm_search st packet = do {
     let d = pkt_data packet;
     if pkt_device packet = rt_devices_count st - 1 then do {
       st \<leftarrow> rt_command lpm_set st d;
       Some (st, packet, []) }
     else do {
     (ok1, ether_header) \<leftarrow> net_get_ether_header packet;
     if \<not> ok1 then Some (st, packet, []) else do {
     (ok2, ipv4_header) \<leftarrow> net_get_ipv4_header d ether_header;
     if \<not> ok2 then Some (st, packet, []) else do {
     version_ihl \<leftarrow> ip_version_ihl d ipv4_header;
     if drop_bit 4 version_ihl \<noteq> 4 then Some (st, packet, [])
     else if version_ihl AND 0xF < 5 then Some (st, packet, [])
     else do {
     total_length \<leftarrow> ip_total_length d ipv4_header;
     if (ucast total_length :: u32) < ucast (version_ihl AND 0xF) * 4 then Some (st, packet, [])
     else if \<not> net_ipv4_checksum_valid ipv4_header then Some (st, packet, [])
     else do {
     ttl \<leftarrow> ip_time_to_live d ipv4_header;
     if ttl = 0 then Some (st, packet, [])
     else do {
     dst \<leftarrow> ip_dst_addr d ipv4_header;
     case lpm_search (rt_lpm st) dst of
       None \<Rightarrow> Some (st, packet, [])
     | Some dst_device \<Rightarrow> Some (st, packet, [Net_Transmit dst_device UPDATE_ETHER_ADDRS]) } } } } } } }"

section \<open>Validation\<close>

text \<open>
  The fields that the validation reads, for a packet whose headers lie in the buffer, as numbers:
  the version and the length of the header in words of 4 bytes, and the two bytes of the total
  length, which are in network order.
\<close>

abbreviation rt_version_ihl :: "net_packet \<Rightarrow> byte" where
  "rt_version_ihl packet \<equiv> pkt_data packet ! 14"

definition rt_version :: "net_packet \<Rightarrow> nat" where
  "rt_version packet = unat (rt_version_ihl packet) div 16"

definition rt_ihl :: "net_packet \<Rightarrow> nat" where
  "rt_ihl packet = unat (rt_version_ihl packet) mod 16"

definition rt_length_high :: "net_packet \<Rightarrow> nat" where
  "rt_length_high packet = unat (pkt_data packet ! 16)"

definition rt_length_low :: "net_packet \<Rightarrow> nat" where
  "rt_length_low packet = unat (pkt_data packet ! 17)"

abbreviation rt_total_length :: "net_packet \<Rightarrow> u16" where
  "rt_total_length packet \<equiv> le_word (take 2 (drop 16 (pkt_data packet)))"

lemma le16_bytes: "unat (le_word [a, b] :: u16) = unat a + 256 * unat b" for a b :: byte
proof -
  have l: "unat a < 256" "unat b < 256" using unsigned_less [of a] unsigned_less [of b] by simp_all
  have s: "unat (ucast a :: u16) = unat a" "unat (push_bit 8 (ucast b :: u16)) = push_bit 8 (unat b)"
    using l by (simp_all add: unsigned_push_bit_eq unsigned_ucast_eq take_bit_nat_eq_self push_bit_nat_def)
  have a8: "unat a = take_bit 8 (unat a)" using l by (simp add: take_bit_nat_eq_self)
  have "unat (le_word [a, b] :: u16) = unat a OR push_bit 8 (unat b)"
    by (simp only: le_word.simps push_bit_of_0 or.right_neutral or.left_neutral unsigned_or_eq s)
  also have "\<dots> = unat a + push_bit 8 (unat b)"
    by (subst (1 2) a8) (rule disjunctive_add_eq_or [symmetric], simp add: bit_eq_iff bit_simps)
  finally show ?thesis by (simp add: push_bit_eq_mult)
qed

lemma unat_ucast_wider:
  fixes x :: "'a::len word"
  assumes "LENGTH('a) \<le> LENGTH('b::len)"
  shows "unat (ucast x :: 'b word) = unat x"
proof -
  have "unat x < 2 ^ LENGTH('a)" by simp
  also have "\<dots> \<le> 2 ^ LENGTH('b)" using assms by (rule power_increasing) simp
  finally show ?thesis by (simp add: unsigned_ucast_eq take_bit_nat_eq_self)
qed

lemma rt_version_nibble: "drop_bit 4 (rt_version_ihl packet) = 4 \<longleftrightarrow> rt_version packet = 4"
  by (simp add: rt_version_def word_unat_eq_iff drop_bit_eq_div unat_div)

lemma rt_ihl_nibble: "unat (rt_version_ihl packet AND 0xF) = rt_ihl packet"
proof -
  have "rt_version_ihl packet AND 0xF = take_bit 4 (rt_version_ihl packet)"
    by (simp add: take_bit_eq_mask mask_eq_exp_minus_1)
  then show ?thesis by (simp add: rt_ihl_def take_bit_eq_mod unat_mod)
qed

lemma rt_ihl_short: "rt_version_ihl packet AND 0xF < 5 \<longleftrightarrow> rt_ihl packet < 5"
  by (simp add: word_less_nat_alt rt_ihl_nibble)

text \<open>
  The comparison of the total length in host order: the low byte counts 256, so a length with a
  low byte other than 0 always passes, and one with a low byte of 0 passes by its high byte.
\<close>

lemma rt_length_check:
  assumes "headers_fit packet"
  shows "(ucast (rt_total_length packet) :: u32) < ucast (rt_version_ihl packet AND 0xF) * 4
    \<longleftrightarrow> rt_length_low packet = 0 \<and> rt_length_high packet < 4 * rt_ihl packet"
proof -
  have "18 \<le> length (pkt_data packet)" using assms by (simp add: headers_fit_def)
  then have bytes: "take 2 (drop 16 (pkt_data packet)) = [pkt_data packet ! 16, pkt_data packet ! 17]"
    by (simp add: numeral_2_eq_2 take_Suc_conv_app_nth)
  have ihl: "rt_ihl packet < 16" by (simp add: rt_ihl_def)
  have "unat (ucast (rt_total_length packet) :: u32) = rt_length_high packet + 256 * rt_length_low packet"
    unfolding bytes rt_length_high_def rt_length_low_def le16_bytes [symmetric]
    by (rule unat_ucast_wider) simp
  moreover have "unat (ucast (rt_version_ihl packet AND 0xF) * 4 :: u32) = 4 * rt_ihl packet"
    using ihl by (simp add: unat_word_ariths unat_ucast_wider rt_ihl_nibble)
  ultimately show ?thesis using ihl unfolding word_less_nat_alt by (cases "rt_length_low packet") auto
qed

lemma rt_reads:
  assumes "headers_fit packet"
  shows "ip_version_ihl (pkt_data packet) 14 = Some (rt_version_ihl packet)"
    "ip_total_length (pkt_data packet) 14 = Some (rt_total_length packet)"
    "ip_time_to_live (pkt_data packet) 14 = Some (pkt_data packet ! 22)"
  using assms by (simp_all add: headers_fit_def ip_version_ihl_def ip_total_length_def ip_time_to_live_def
      rd8_in rd16_def rd_bytes_def)

text \<open>A command reads the first 14 bytes.\<close>

lemma rt_command_reads:
  assumes "headers_fit packet"
  shows "rd32 (pkt_data packet) 0 = Some (le_word (take 4 (pkt_data packet)))"
    "rd64 (pkt_data packet) 4 = Some (le_word (take 8 (drop 4 (pkt_data packet))))"
    "rd16 (pkt_data packet) 12 = Some (le_word (take 2 (drop 12 (pkt_data packet))))"
  using assms by (simp_all add: headers_fit_def rd32_def rd64_def rd16_def rd_bytes_def)

section \<open>Properties\<close>


text \<open>A table with one route for everything.\<close>

definition rt_example_set :: "device_t \<Rightarrow> u32 \<Rightarrow> size_t \<Rightarrow> device_t \<Rightarrow> device_t" where
  "rt_example_set l key width dst = dst"

definition rt_example_search :: "device_t \<Rightarrow> u32 \<Rightarrow> device_t option" where
  "rt_example_search l key = Some l"

definition rt_example_packet :: net_packet where
  "rt_example_packet = \<lparr>pkt_data = replicate 12 0 @ [8, 0] @ [0x45, 0, 0, 60] @ replicate 4 0 @ [64, 17]
      @ [0, 0, 10, 0, 0, 1, 20, 0, 0, 2, 0, 0, 0, 0], pkt_length = 74, pkt_time = 5, pkt_device = 0\<rparr>"


text \<open>
  The checksum of the example is wrong: the 16-bit words of its header, whose one's complement sum has to
  be \<open>0xFFFF\<close>, are 0x4500, 60, 0, 0, 0x4011, 0, 0x0A00, 1, 0x1400 and 2, which is 41808. A packet
  with a total length of 10 bytes, less than its header, is forwarded as well.
\<close>

lemma rt_example_header:
  "take 20 (drop 14 (pkt_data rt_example_packet))
    = [0x45, 0, 0, 60, 0, 0, 0, 0, 0x40, 0x11, 0, 0, 10, 0, 0, 1, 20, 0, 0, 2]"
  by code_simp

lemma rt_forwards_short_length:
  "map_option snd (rt_nf_handle rt_example_set rt_example_search \<lparr>rt_devices_count = 3, rt_lpm = 1\<rparr>
     (rt_example_packet\<lparr>pkt_data := (pkt_data rt_example_packet)[16 := 0, 17 := 10]\<rparr>))
   = Some (rt_example_packet\<lparr>pkt_data := (pkt_data rt_example_packet)[16 := 0, 17 := 10]\<rparr>, [Net_Transmit 1 UPDATE_ETHER_ADDRS])"
  by code_simp

text \<open>
  A packet from the last device is a command and is never sent on. A width of at most 32
  adds the route it holds, a larger one changes nothing.
\<close>

theorem rt_commands:
  assumes "headers_fit packet" "pkt_device packet = rt_devices_count st - 1"
  shows "rt_nf_handle lpm_set lpm_search st packet = Some (
    let key = le_word (take 4 (pkt_data packet)); width = le_word (take 8 (drop 4 (pkt_data packet)));
        dst = le_word (take 2 (drop 12 (pkt_data packet)))
    in if width \<le> (32 :: size_t) then st\<lparr>rt_lpm := lpm_set (rt_lpm st) key width dst\<rparr> else st, packet, [])"
  using assms by (simp add: rt_nf_handle_def rt_command_def Let_def rt_command_reads not_le)

definition rt_example_command :: net_packet where
  "rt_example_command = \<lparr>pkt_data = [10, 0, 0, 0] @ [8, 0, 0, 0, 0, 0, 0, 0] @ [1, 0] @ replicate 46 0,
     pkt_length = 60, pkt_time = 5, pkt_device = 2\<rparr>"

theorem rt_commands_witness:
  "rt_nf_handle rt_example_set rt_example_search \<lparr>rt_devices_count = 3, rt_lpm = 0\<rparr> rt_example_command
    = Some (\<lparr>rt_devices_count = 3, rt_lpm = 1\<rparr>, rt_example_command, [])"
proof -
  have "headers_fit rt_example_command" "(le_word (take 2 (drop 12 (pkt_data rt_example_command))) :: u16) = 1"
    "(le_word (take 8 (drop 4 (pkt_data rt_example_command))) :: size_t) = 8" by code_simp+
  then show ?thesis
    by (subst rt_commands) (simp_all add: rt_example_set_def, simp add: rt_example_command_def)
qed

text \<open>
  The validation reads the total length in host order. A well-formed packet of 256 bytes,
  whose field is the bytes 1 and 0, is therefore taken to be shorter than its header and
  dropped, whatever the routes are.
\<close>

theorem rt_drops_256_bytes:
  "rt_nf_handle lpm_set lpm_search \<lparr>rt_devices_count = 3, rt_lpm = l\<rparr>
     \<lparr>pkt_data = replicate 12 0 @ [8, 0] @ [0x45, 0, 1, 0] @ replicate 4 0 @ [64, 17]
        @ [0, 0, 10, 0, 0, 1, 20, 0, 0, 2, 0, 0, 0, 0] @ replicate 222 0, pkt_length = 270, pkt_time = t, pkt_device = 0\<rparr>
   = Some (\<lparr>rt_devices_count = 3, rt_lpm = l\<rparr>,
     \<lparr>pkt_data = replicate 12 0 @ [8, 0] @ [0x45, 0, 1, 0] @ replicate 4 0 @ [64, 17]
        @ [0, 0, 10, 0, 0, 1, 20, 0, 0, 2, 0, 0, 0, 0] @ replicate 222 0, pkt_length = 270, pkt_time = t, pkt_device = 0\<rparr>, [])"
  (is "rt_nf_handle _ _ ?st ?p = _")
proof -
  have fit: "headers_fit ?p" by (simp add: headers_fit_def)
  have "ip_version_ihl (pkt_data ?p) 14 = Some 0x45" "ip_total_length (pkt_data ?p) 14 = Some 1"
    "net_get_ipv4_header (pkt_data ?p) 0 = Some (True, 14)" by code_simp+
  moreover have "drop_bit 4 (0x45 :: byte) = 4" "\<not> (0x45 AND 0xF < (5 :: byte))"
    "(ucast (1 :: u16) :: u32) < ucast ((0x45 :: byte) AND 0xF) * 4" by code_simp+
  ultimately show ?thesis by (simp add: rt_nf_handle_def Let_def net_get_ether_header_def)
qed

end
