(* ===== verification/Ixgbe_Regs.thy ===== *)
theory Ixgbe_Regs
  imports Prelude
begin

text \<open>
  The registers of the Intel 82599 network card and the accesses to them: the data and
  \<open>Operations on the NIC\<close> sections of \<open>env/src/net/tinynf/ixgbe.c\<close>.

  The card, the PCI bus and the operating system are not part of the program. A
  \<open>hardware\<close> record holds their behaviour: what a volatile access to a device register, an
  access to the PCI configuration space and a sleep do to the state of the outside world, which
  is of any type \<open>'h\<close>, and the two address translations of the operating system. Every
  function of the driver takes such a record and passes the state on, so its accesses happen in
  the order of the code. The driver runs on a little-endian machine, where \<open>le_to_cpu32\<close>
  and \<open>cpu_to_le32\<close> are the identity.
\<close>

named_theorems ixgbe_constants \<open>the constants and parameters of the driver\<close>
named_theorems ixgbe_regs \<open>the addresses of the registers\<close>
named_theorems ixgbe_fields \<open>the bit masks of the fields\<close>

section \<open>Constants, registers and fields\<close>

definition BIT :: "nat \<Rightarrow> u32" where
  "BIT n = push_bit n 1"

definition BITS :: "nat \<Rightarrow> nat \<Rightarrow> u32" where
  "BITS lo hi = (if hi = 31 then 0 else push_bit (hi + 1) 0xFFFFFFFF) XOR push_bit lo 0xFFFFFFFF"

definition BITL :: "nat \<Rightarrow> u64" where
  "BITL n = push_bit n 1"

text \<open>
  The number of a queue or table entry is a \<open>size_t\<close>, so the address of an indexed register
  is computed in 64 bits and truncated to the 32 bits of the parameter \<open>reg\<close>.
\<close>

definition FIVETUPLE_FILTERS_COUNT :: size_t where [ixgbe_constants]:
  "FIVETUPLE_FILTERS_COUNT = 128"

definition INTERRUPT_REGISTERS_COUNT :: size_t where [ixgbe_constants]:
  "INTERRUPT_REGISTERS_COUNT = 3"

definition MULTICAST_TABLE_ARRAY_SIZE :: size_t where [ixgbe_constants]:
  "MULTICAST_TABLE_ARRAY_SIZE = 4 * 1024"

definition POOLS_COUNT :: size_t where [ixgbe_constants]:
  "POOLS_COUNT = 64"

definition RECEIVE_ADDRS_COUNT :: size_t where [ixgbe_constants]:
  "RECEIVE_ADDRS_COUNT = 128"

definition RECEIVE_QUEUES_COUNT :: size_t where [ixgbe_constants]:
  "RECEIVE_QUEUES_COUNT = 128"

definition TRANSMIT_QUEUES_COUNT :: size_t where [ixgbe_constants]:
  "TRANSMIT_QUEUES_COUNT = 128"

definition TRAFFIC_CLASSES_COUNT :: size_t where [ixgbe_constants]:
  "TRAFFIC_CLASSES_COUNT = 8"

definition UNICAST_TABLE_ARRAY_SIZE :: size_t where [ixgbe_constants]:
  "UNICAST_TABLE_ARRAY_SIZE = 4 * 1024"

definition PCIREG_BAR0_LOW :: byte where [ixgbe_regs]:
  "PCIREG_BAR0_LOW = 0x10"

definition PCIREG_BAR0_HIGH :: byte where [ixgbe_regs]:
  "PCIREG_BAR0_HIGH = 0x14"

definition PCIREG_COMMAND :: byte where [ixgbe_regs]:
  "PCIREG_COMMAND = 0x04"

definition PCIREG_COMMAND_MEMORY_ACCESS_ENABLE :: u32 where [ixgbe_fields]:
  "PCIREG_COMMAND_MEMORY_ACCESS_ENABLE = BIT 1"

definition PCIREG_COMMAND_BUS_MASTER_ENABLE :: u32 where [ixgbe_fields]:
  "PCIREG_COMMAND_BUS_MASTER_ENABLE = BIT 2"

definition PCIREG_COMMAND_INTERRUPT_DISABLE :: u32 where [ixgbe_fields]:
  "PCIREG_COMMAND_INTERRUPT_DISABLE = BIT 10"

definition PCIREG_DEVICESTATUS :: byte where [ixgbe_regs]:
  "PCIREG_DEVICESTATUS = 0xAA"

definition PCIREG_DEVICESTATUS_TRANSACTIONPENDING :: u32 where [ixgbe_fields]:
  "PCIREG_DEVICESTATUS_TRANSACTIONPENDING = BIT 5"

definition PCIREG_ID :: byte where [ixgbe_regs]:
  "PCIREG_ID = 0x00"

definition PCIREG_PMCSR :: byte where [ixgbe_regs]:
  "PCIREG_PMCSR = 0x44"

definition PCIREG_PMCSR_POWER_STATE :: u32 where [ixgbe_fields]:
  "PCIREG_PMCSR_POWER_STATE = BITS 0 1"

definition REG_CTRL :: u32 where [ixgbe_regs]:
  "REG_CTRL = 0x00000"

definition REG_CTRL_MASTER_DISABLE :: u32 where [ixgbe_fields]:
  "REG_CTRL_MASTER_DISABLE = BIT 2"

definition REG_CTRL_RST :: u32 where [ixgbe_fields]:
  "REG_CTRL_RST = BIT 26"

definition REG_CTRLEXT :: u32 where [ixgbe_regs]:
  "REG_CTRLEXT = 0x00018"

definition REG_CTRLEXT_NSDIS :: u32 where [ixgbe_fields]:
  "REG_CTRLEXT_NSDIS = BIT 16"

definition REG_DCARXCTRL :: "size_t \<Rightarrow> u32" where [ixgbe_regs]:
  "REG_DCARXCTRL n = (if n \<le> 63 then ucast (0x0100C + 0x40 * n) else ucast (0x0D00C + 0x40 * (n - 64)))"

definition REG_DCARXCTRL_UNKNOWN :: u32 where [ixgbe_fields]:
  "REG_DCARXCTRL_UNKNOWN = BIT 12"

definition REG_DCATXCTRL :: "size_t \<Rightarrow> u32" where [ixgbe_regs]:
  "REG_DCATXCTRL n = ucast (0x0600C + 0x40 * n)"

definition REG_DCATXCTRL_TX_DESC_WB_RO_EN :: u32 where [ixgbe_fields]:
  "REG_DCATXCTRL_TX_DESC_WB_RO_EN = BIT 11"

definition REG_DMATXCTL :: u32 where [ixgbe_regs]:
  "REG_DMATXCTL = 0x04A80"

definition REG_DMATXCTL_TE :: u32 where [ixgbe_fields]:
  "REG_DMATXCTL_TE = BIT 0"

definition REG_DTXMXSZRQ :: u32 where [ixgbe_regs]:
  "REG_DTXMXSZRQ = 0x08100"

definition REG_DTXMXSZRQ_MAX_BYTES_NUM_REQ :: u32 where [ixgbe_fields]:
  "REG_DTXMXSZRQ_MAX_BYTES_NUM_REQ = BITS 0 11"

definition REG_EEC :: u32 where [ixgbe_regs]:
  "REG_EEC = 0x10010"

definition REG_EEC_EE_PRES :: u32 where [ixgbe_fields]:
  "REG_EEC_EE_PRES = BIT 8"

definition REG_EEC_AUTO_RD :: u32 where [ixgbe_fields]:
  "REG_EEC_AUTO_RD = BIT 9"

definition REG_EIMC :: "size_t \<Rightarrow> u32" where [ixgbe_regs]:
  "REG_EIMC n = (if n = 0 then 0x00888 else ucast (0x00AB0 + 4 * (n - 1)))"

definition REG_FCCFG :: u32 where [ixgbe_regs]:
  "REG_FCCFG = 0x03D00"

definition REG_FCCFG_TFCE :: u32 where [ixgbe_fields]:
  "REG_FCCFG_TFCE = BITS 3 4"

definition REG_FCRTH :: "size_t \<Rightarrow> u32" where [ixgbe_regs]:
  "REG_FCRTH n = ucast (0x03260 + 4 * n)"

definition REG_FCRTH_RTH :: u32 where [ixgbe_fields]:
  "REG_FCRTH_RTH = BITS 5 18"

definition REG_FCTRL :: u32 where [ixgbe_regs]:
  "REG_FCTRL = 0x05080"

definition REG_FCTRL_MPE :: u32 where [ixgbe_fields]:
  "REG_FCTRL_MPE = BIT 8"

definition REG_FCTRL_UPE :: u32 where [ixgbe_fields]:
  "REG_FCTRL_UPE = BIT 9"

definition REG_FTQF :: "size_t \<Rightarrow> u32" where [ixgbe_regs]:
  "REG_FTQF n = ucast (0x0E600 + 4 * n)"

definition REG_FTQF_QUEUE_ENABLE :: u32 where [ixgbe_fields]:
  "REG_FTQF_QUEUE_ENABLE = BIT 31"

definition REG_FWSM :: u32 where [ixgbe_regs]:
  "REG_FWSM = 0x10148"

definition REG_FWSM_EXT_ERR_IND :: u32 where [ixgbe_fields]:
  "REG_FWSM_EXT_ERR_IND = BITS 19 24"

definition REG_GCREXT :: u32 where [ixgbe_regs]:
  "REG_GCREXT = 0x11050"

definition REG_GCREXT_BUFFERS_CLEAR_FUNC :: u32 where [ixgbe_fields]:
  "REG_GCREXT_BUFFERS_CLEAR_FUNC = BIT 30"

definition REG_HLREG0 :: u32 where [ixgbe_regs]:
  "REG_HLREG0 = 0x04240"

definition REG_HLREG0_LPBK :: u32 where [ixgbe_fields]:
  "REG_HLREG0_LPBK = BIT 15"

definition REG_MFLCN :: u32 where [ixgbe_regs]:
  "REG_MFLCN = 0x04294"

definition REG_MFLCN_RFCE :: u32 where [ixgbe_fields]:
  "REG_MFLCN_RFCE = BIT 3"

definition REG_MPSAR :: "size_t \<Rightarrow> u32" where [ixgbe_regs]:
  "REG_MPSAR n = ucast (0x0A600 + 4 * n)"

definition REG_MTA :: "size_t \<Rightarrow> u32" where [ixgbe_regs]:
  "REG_MTA n = ucast (0x05200 + 4 * n)"

definition REG_PFUTA :: "size_t \<Rightarrow> u32" where [ixgbe_regs]:
  "REG_PFUTA n = ucast (0x0F400 + 4 * n)"

definition REG_PFVLVF :: "size_t \<Rightarrow> u32" where [ixgbe_regs]:
  "REG_PFVLVF n = ucast (0x0F100 + 4 * n)"

definition REG_PFVLVFB :: "size_t \<Rightarrow> u32" where [ixgbe_regs]:
  "REG_PFVLVFB n = ucast (0x0F200 + 4 * n)"

definition REG_RAH :: "size_t \<Rightarrow> u32" where [ixgbe_regs]:
  "REG_RAH n = ucast (0x0A204 + 8 * n)"

definition REG_RAL :: "size_t \<Rightarrow> u32" where [ixgbe_regs]:
  "REG_RAL n = ucast (0x0A200 + 8 * n)"

definition REG_RDBAH :: "size_t \<Rightarrow> u32" where [ixgbe_regs]:
  "REG_RDBAH n = (if n \<le> 63 then ucast (0x01004 + 0x40 * n) else ucast (0x0D004 + 0x40 * (n - 64)))"

definition REG_RDBAL :: "size_t \<Rightarrow> u32" where [ixgbe_regs]:
  "REG_RDBAL n = (if n \<le> 63 then ucast (0x01000 + 0x40 * n) else ucast (0x0D000 + 0x40 * (n - 64)))"

definition REG_RDLEN :: "size_t \<Rightarrow> u32" where [ixgbe_regs]:
  "REG_RDLEN n = (if n \<le> 63 then ucast (0x01008 + 0x40 * n) else ucast (0x0D008 + 0x40 * (n - 64)))"

definition REG_RDRXCTL :: u32 where [ixgbe_regs]:
  "REG_RDRXCTL = 0x02F00"

definition REG_RDRXCTL_CRC_STRIP :: u32 where [ixgbe_fields]:
  "REG_RDRXCTL_CRC_STRIP = BIT 1"

definition REG_RDRXCTL_DMAIDONE :: u32 where [ixgbe_fields]:
  "REG_RDRXCTL_DMAIDONE = BIT 3"

definition REG_RDRXCTL_RSCFRSTSIZE :: u32 where [ixgbe_fields]:
  "REG_RDRXCTL_RSCFRSTSIZE = BITS 17 21"

definition REG_RDRXCTL_RSCACKC :: u32 where [ixgbe_fields]:
  "REG_RDRXCTL_RSCACKC = BIT 25"

definition REG_RDRXCTL_FCOE_WRFIX :: u32 where [ixgbe_fields]:
  "REG_RDRXCTL_FCOE_WRFIX = BIT 26"

definition REG_RDT :: "size_t \<Rightarrow> u32" where [ixgbe_regs]:
  "REG_RDT n = (if n \<le> 63 then ucast (0x01018 + 0x40 * n) else ucast (0x0D018 + 0x40 * (n - 64)))"

definition REG_RTTDCS :: u32 where [ixgbe_regs]:
  "REG_RTTDCS = 0x04900"

definition REG_RTTDCS_ARBDIS :: u32 where [ixgbe_fields]:
  "REG_RTTDCS_ARBDIS = BIT 6"

definition REG_RTTDQSEL :: u32 where [ixgbe_regs]:
  "REG_RTTDQSEL = 0x04904"

definition REG_RTTDT1C :: u32 where [ixgbe_regs]:
  "REG_RTTDT1C = 0x04908"

definition REG_RXCTRL :: u32 where [ixgbe_regs]:
  "REG_RXCTRL = 0x03000"

definition REG_RXCTRL_RXEN :: u32 where [ixgbe_fields]:
  "REG_RXCTRL_RXEN = BIT 0"

definition REG_RXDCTL :: "size_t \<Rightarrow> u32" where [ixgbe_regs]:
  "REG_RXDCTL n = (if n \<le> 63 then ucast (0x01028 + 0x40 * n) else ucast (0x0D028 + 0x40 * (n - 64)))"

definition REG_RXDCTL_ENABLE :: u32 where [ixgbe_fields]:
  "REG_RXDCTL_ENABLE = BIT 25"

definition REG_RXPBSIZE :: "size_t \<Rightarrow> u32" where [ixgbe_regs]:
  "REG_RXPBSIZE n = ucast (0x03C00 + 4 * n)"

definition REG_SECRXCTRL :: u32 where [ixgbe_regs]:
  "REG_SECRXCTRL = 0x08D00"

definition REG_SECRXCTRL_RX_DIS :: u32 where [ixgbe_fields]:
  "REG_SECRXCTRL_RX_DIS = BIT 1"

definition REG_SECRXSTAT :: u32 where [ixgbe_regs]:
  "REG_SECRXSTAT = 0x08D04"

definition REG_SECRXSTAT_SECRX_RDY :: u32 where [ixgbe_fields]:
  "REG_SECRXSTAT_SECRX_RDY = BIT 0"

definition REG_SRRCTL :: "size_t \<Rightarrow> u32" where [ixgbe_regs]:
  "REG_SRRCTL n = (if n \<le> 63 then ucast (0x01014 + 0x40 * n) else ucast (0x0D014 + 0x40 * (n - 64)))"

definition REG_SRRCTL_BSIZEPACKET :: u32 where [ixgbe_fields]:
  "REG_SRRCTL_BSIZEPACKET = BITS 0 4"

definition REG_SRRCTL_DROP_EN :: u32 where [ixgbe_fields]:
  "REG_SRRCTL_DROP_EN = BIT 28"

definition REG_STATUS :: u32 where [ixgbe_regs]:
  "REG_STATUS = 0x00008"

definition REG_STATUS_PCIE_MASTER_ENABLE_STATUS :: u32 where [ixgbe_fields]:
  "REG_STATUS_PCIE_MASTER_ENABLE_STATUS = BIT 19"

definition REG_TDBAH :: "size_t \<Rightarrow> u32" where [ixgbe_regs]:
  "REG_TDBAH n = ucast (0x06004 + 0x40 * n)"

definition REG_TDBAL :: "size_t \<Rightarrow> u32" where [ixgbe_regs]:
  "REG_TDBAL n = ucast (0x06000 + 0x40 * n)"

definition REG_TDLEN :: "size_t \<Rightarrow> u32" where [ixgbe_regs]:
  "REG_TDLEN n = ucast (0x06008 + 0x40 * n)"

definition REG_TDT :: "size_t \<Rightarrow> u32" where [ixgbe_regs]:
  "REG_TDT n = ucast (0x06018 + 0x40 * n)"

definition REG_TDWBAH :: "size_t \<Rightarrow> u32" where [ixgbe_regs]:
  "REG_TDWBAH n = ucast (0x0603C + 0x40 * n)"

definition REG_TDWBAL :: "size_t \<Rightarrow> u32" where [ixgbe_regs]:
  "REG_TDWBAL n = ucast (0x06038 + 0x40 * n)"

definition REG_TXDCTL :: "size_t \<Rightarrow> u32" where [ixgbe_regs]:
  "REG_TXDCTL n = ucast (0x06028 + 0x40 * n)"

definition REG_TXDCTL_PTHRESH :: u32 where [ixgbe_fields]:
  "REG_TXDCTL_PTHRESH = BITS 0 6"

definition REG_TXDCTL_HTHRESH :: u32 where [ixgbe_fields]:
  "REG_TXDCTL_HTHRESH = BITS 8 14"

definition REG_TXDCTL_ENABLE :: u32 where [ixgbe_fields]:
  "REG_TXDCTL_ENABLE = BIT 25"

definition REG_TXPBSIZE :: "size_t \<Rightarrow> u32" where [ixgbe_regs]:
  "REG_TXPBSIZE n = ucast (0x0CC00 + 4 * n)"

definition REG_TXPBTHRESH :: "size_t \<Rightarrow> u32" where [ixgbe_regs]:
  "REG_TXPBTHRESH n = ucast (0x04950 + 4 * n)"

definition REG_TXPBTHRESH_THRESH :: u32 where [ixgbe_fields]:
  "REG_TXPBTHRESH_THRESH = BITS 0 9"

definition PACKET_BUFFER_SIZE :: size_t where [ixgbe_constants]:
  "PACKET_BUFFER_SIZE = 2048"

definition IXGBE_RING_SIZE :: size_t where [ixgbe_constants]:
  "IXGBE_RING_SIZE = 256"

definition IXGBE_AGENT_FLUSH_PERIOD :: size_t where [ixgbe_constants]:
  "IXGBE_AGENT_FLUSH_PERIOD = 8"

definition IXGBE_AGENT_RECYCLE_PERIOD :: size_t where [ixgbe_constants]:
  "IXGBE_AGENT_RECYCLE_PERIOD = 64"

text \<open>The constraints on the parameters that the compiler checks.\<close>

definition ixgbe_static_asserts :: bool where
  "ixgbe_static_asserts \<longleftrightarrow>
     PACKET_BUFFER_SIZE mod 1024 = 0 \<and> PACKET_BUFFER_SIZE < 16 * 1024
     \<and> IXGBE_RING_SIZE mod 128 = 0 \<and> IXGBE_RING_SIZE AND (IXGBE_RING_SIZE - 1) = 0 \<and> IXGBE_RING_SIZE \<le> 8096
     \<and> 1 \<le> IXGBE_AGENT_FLUSH_PERIOD \<and> IXGBE_AGENT_FLUSH_PERIOD < IXGBE_RING_SIZE
     \<and> 1 \<le> IXGBE_AGENT_RECYCLE_PERIOD \<and> IXGBE_AGENT_RECYCLE_PERIOD < IXGBE_RING_SIZE
     \<and> IXGBE_AGENT_RECYCLE_PERIOD AND (IXGBE_AGENT_RECYCLE_PERIOD - 1) = 0"

lemma ixgbe_static_asserts_hold: ixgbe_static_asserts
  by (simp add: ixgbe_static_asserts_def ixgbe_constants)

section \<open>Operations\<close>

record os_pci_address =
  pci_bus :: byte
  pci_device :: byte
  pci_function :: byte

record 'h hardware =
  hw_reg_read :: "addr \<Rightarrow> 'h \<Rightarrow> u32 \<times> 'h"
  hw_reg_write :: "addr \<Rightarrow> u32 \<Rightarrow> 'h \<Rightarrow> 'h"
  hw_pci_read :: "os_pci_address \<Rightarrow> byte \<Rightarrow> 'h \<Rightarrow> u32 \<times> 'h"
  hw_pci_write :: "os_pci_address \<Rightarrow> byte \<Rightarrow> u32 \<Rightarrow> 'h \<Rightarrow> 'h"
  hw_sleep :: "u64 \<Rightarrow> 'h \<Rightarrow> 'h"
  hw_phys_to_virt :: "u64 \<Rightarrow> size_t \<Rightarrow> addr"
  hw_virt_to_phys :: "addr \<Rightarrow> u64"

text \<open>
  \<open>fatal\<close> prints its message and halts. The run of a driver function ends in a result or in a
  failure: such a message, a halt of the allocator, or an access that has no defined result in C.
\<close>

datatype failure = Fatal string | Out_of_memory | Undefined

type_synonym ('a, 'h) outcome = "(failure + 'a) \<times> 'h"

definition fatal :: "string \<Rightarrow> 'h \<Rightarrow> ('a, 'h) outcome" where
  "fatal message h = (Inl (Fatal message), h)"

definition and_then :: "('a, 'h) outcome \<Rightarrow> ('a \<Rightarrow> 'h \<Rightarrow> ('b, 'h) outcome) \<Rightarrow> ('b, 'h) outcome" where
  "and_then r f = (case r of (Inl failure, h) \<Rightarrow> (Inl failure, h) | (Inr x, h) \<Rightarrow> f x h)"

definition or_else :: "failure \<Rightarrow> 'a option \<Rightarrow> 'h \<Rightarrow> ('a, 'h) outcome" where
  "or_else failure r h = (case r of None \<Rightarrow> (Inl failure, h) | Some x \<Rightarrow> (Inr x, h))"

text \<open>
  The loop of \<open>find_first_set\<close>. A shift by 32 or more would be undefined: the bound keeps the
  model total, and \<open>find_first_set_correct\<close> shows that it is never what ends the loop.
\<close>

function find_first_set_loop :: "u32 \<Rightarrow> u32 \<Rightarrow> u32" where
  "find_first_set_loop value n =
     (if n < 32 \<and> drop_bit (unat n) value AND 1 = 0 then find_first_set_loop value (n + 1) else n)"
  by pat_completeness auto
termination
  by (relation "measure (\<lambda>(value, n). unat (32 - n))")
    (rule wf_measure, simp only: in_measure prod.case word_loop_decreases)

declare find_first_set_loop.simps [simp del]

definition find_first_set :: "u32 \<Rightarrow> u32" where
  "find_first_set value = (if value = 0 then 0 else find_first_set_loop value 0)"

definition reg_read :: "'h hardware \<Rightarrow> addr \<Rightarrow> u32 \<Rightarrow> 'h \<Rightarrow> u32 \<times> 'h" where
  "reg_read H addr reg h = hw_reg_read H (addr + unat reg) h"

definition reg_read_field :: "'h hardware \<Rightarrow> addr \<Rightarrow> u32 \<Rightarrow> u32 \<Rightarrow> 'h \<Rightarrow> u32 \<times> 'h" where
  "reg_read_field H addr reg field h =
     (let (value, h) = reg_read H addr reg h;
          shift = find_first_set field
      in (drop_bit (unat shift) value AND drop_bit (unat shift) field, h))"

definition reg_write_raw :: "'h hardware \<Rightarrow> addr \<Rightarrow> u32 \<Rightarrow> 'h \<Rightarrow> 'h" where
  "reg_write_raw H reg_addr value h = hw_reg_write H reg_addr value h"

definition reg_write :: "'h hardware \<Rightarrow> addr \<Rightarrow> u32 \<Rightarrow> u32 \<Rightarrow> 'h \<Rightarrow> 'h" where
  "reg_write H addr reg value h = reg_write_raw H (addr + unat reg) value h"

definition reg_write_field :: "'h hardware \<Rightarrow> addr \<Rightarrow> u32 \<Rightarrow> u32 \<Rightarrow> u32 \<Rightarrow> 'h \<Rightarrow> 'h" where
  "reg_write_field H addr reg field field_value h =
     (let (old_value, h) = reg_read H addr reg h;
          shift = find_first_set field;
          new_value = (old_value AND NOT field) OR push_bit (unat shift) field_value
      in reg_write H addr reg new_value h)"

definition reg_clear :: "'h hardware \<Rightarrow> addr \<Rightarrow> u32 \<Rightarrow> 'h \<Rightarrow> 'h" where
  "reg_clear H addr reg h = reg_write H addr reg 0 h"

definition reg_clear_field :: "'h hardware \<Rightarrow> addr \<Rightarrow> u32 \<Rightarrow> u32 \<Rightarrow> 'h \<Rightarrow> 'h" where
  "reg_clear_field H addr reg field h = reg_write_field H addr reg field 0 h"

definition reg_set_field :: "'h hardware \<Rightarrow> addr \<Rightarrow> u32 \<Rightarrow> u32 \<Rightarrow> 'h \<Rightarrow> 'h" where
  "reg_set_field H addr reg field h =
     (let (old_value, h) = reg_read H addr reg h;
          new_value = old_value OR field
      in reg_write H addr reg new_value h)"

definition reg_is_field_cleared :: "'h hardware \<Rightarrow> addr \<Rightarrow> u32 \<Rightarrow> u32 \<Rightarrow> 'h \<Rightarrow> bool \<times> 'h" where
  "reg_is_field_cleared H addr reg field h =
     (let (value, h) = reg_read_field H addr reg field h in (value = 0, h))"

definition pcireg_read :: "'h hardware \<Rightarrow> os_pci_address \<Rightarrow> byte \<Rightarrow> 'h \<Rightarrow> u32 \<times> 'h" where
  "pcireg_read H addr reg h = hw_pci_read H addr reg h"

definition pcireg_is_field_cleared :: "'h hardware \<Rightarrow> os_pci_address \<Rightarrow> byte \<Rightarrow> u32 \<Rightarrow> 'h \<Rightarrow> bool \<times> 'h" where
  "pcireg_is_field_cleared H addr reg field h =
     (let (value, h) = pcireg_read H addr reg h in (value AND field = 0, h))"

definition pcireg_set_field :: "'h hardware \<Rightarrow> os_pci_address \<Rightarrow> byte \<Rightarrow> u32 \<Rightarrow> 'h \<Rightarrow> 'h" where
  "pcireg_set_field H addr reg field h =
     (let (old_value, h) = pcireg_read H addr reg h;
          new_value = old_value OR field
      in hw_pci_write H addr reg new_value h)"

text \<open>
  \<open>IF_AFTER_TIMEOUT\<close>: the condition is polled ten times, a tenth of the timeout apart. The
  result tells whether the condition held each time, in which case the code runs the body. The
  condition may read registers, so it changes the state; the flag \<open>timed_out\<close> is local to
  one use of the macro.
\<close>

function timeout_poll :: "'h hardware \<Rightarrow> u64 \<Rightarrow> ('h \<Rightarrow> bool \<times> 'h) \<Rightarrow> size_t \<Rightarrow> 'h \<Rightarrow> bool \<times> 'h" where
  "timeout_poll H timeout_in_us condition i h =
     (if i < 10 then
        let (holds, h) = condition h
        in if \<not> holds then (False, h)
           else timeout_poll H timeout_in_us condition (i + 1) (hw_sleep H (timeout_in_us div 10 * 1000) h)
      else (True, h))"
  by pat_completeness auto
termination
  by (relation "measure (\<lambda>(H, timeout, condition, i, h). unat (10 - i))")
    (rule wf_measure, simp only: in_measure prod.case word_loop_decreases)

declare timeout_poll.simps [simp del]

definition if_after_timeout :: "'h hardware \<Rightarrow> u64 \<Rightarrow> ('h \<Rightarrow> bool \<times> 'h) \<Rightarrow> 'h \<Rightarrow> bool \<times> 'h" where
  "if_after_timeout H timeout_in_us condition h =
     timeout_poll H timeout_in_us condition 0 (hw_sleep H (timeout_in_us mod 10 * 1000) h)"

text \<open>A loop \<open>for (size_t n = first; n < limit; n++)\<close> over register accesses.\<close>

definition for_range :: "nat \<Rightarrow> nat \<Rightarrow> (size_t \<Rightarrow> 'h \<Rightarrow> 'h) \<Rightarrow> 'h \<Rightarrow> 'h" where
  "for_range first limit f = fold (\<lambda>n. f (of_nat n)) [first ..< limit]"

section \<open>Fields\<close>

lemma bit_BIT [simp]: "bit (BIT n) m \<longleftrightarrow> m = n \<and> n < 32"
  by (auto simp: BIT_def bit_simps)

lemma bit_ones: "bit (push_bit k (0xFFFFFFFF :: u32)) m \<longleftrightarrow> k \<le> m \<and> m < 32"
proof -
  have ones: "(0xFFFFFFFF :: u32) = - 1" by simp
  show ?thesis unfolding ones by (simp only: bit_push_bit_iff bit_minus_1_iff possible_bit_word) auto
qed

lemma bit_BITS [simp]:
  assumes "lo \<le> hi" "hi < 32"
  shows "bit (BITS lo hi) m \<longleftrightarrow> lo \<le> m \<and> m \<le> hi"
proof (cases "hi = 31")
  case True
  then show ?thesis by (simp only: BITS_def if_True bit_xor_iff bit_ones bit_0_eq bot_apply) auto
next
  case False
  then show ?thesis using assms by (simp only: BITS_def if_False bit_xor_iff bit_ones) auto
qed

lemma BIT_as_BITS:
  assumes "n < 32"
  shows "BIT n = BITS n n"
proof (rule bit_word_eqI)
  fix m
  show "bit (BIT n) m = bit (BITS n n) m"
    unfolding bit_BIT bit_BITS [OF order_refl assms] using assms by linarith
qed

lemma lowest_bit_set: "drop_bit n w AND 1 = 0 \<longleftrightarrow> \<not> bit w n" for w :: u32
  by (simp add: and_one_eq bit_iff_odd_drop_bit odd_iff_mod_2_eq_one)

lemma find_first_set_loop_correct:
  assumes "bit w k" "\<forall>m < k. \<not> bit w m" "unat n \<le> k"
  shows "unat (find_first_set_loop w n) = k"
  using assms
proof (induction w n rule: find_first_set_loop.induct)
  case (1 w n)
  have k: "k < 32" using "1.prems"(1) bit_imp_le_length by fastforce
  show ?case
  proof (cases "unat n = k")
    case True
    then show ?thesis using "1.prems"(1) by (simp add: find_first_set_loop.simps [of w n] lowest_bit_set)
  next
    case False
    then have less: "unat n < k" using "1.prems"(3) by simp
    then have go: "n < 32 \<and> drop_bit (unat n) w AND 1 = 0"
      using k "1.prems"(2) by (simp add: word_less_nat_alt lowest_bit_set)
    have "unat (n + 1) = Suc (unat n)" using unat_Suc_word [of n 32] go by simp
    then have "unat (find_first_set_loop w (n + 1)) = k"
      using less "1.prems" by (intro "1.IH" [OF go]) simp_all
    then show ?thesis using go by (simp add: find_first_set_loop.simps [of w n])
  qed
qed

lemma find_first_set_correct:
  assumes "w \<noteq> 0"
  shows "unat (find_first_set w) < 32" "bit w (unat (find_first_set w))"
    "\<forall>m < unat (find_first_set w). \<not> bit w m"
proof -
  obtain m where "bit w m" using assms by (auto simp: bit_eq_iff)
  then obtain k where k: "bit w k" "\<forall>m < k. \<not> bit w m"
    using exists_least_iff [of "bit w"] by blast
  then have "unat (find_first_set w) = k"
    using assms find_first_set_loop_correct [of w k 0] by (simp add: find_first_set_def)
  with k show "unat (find_first_set w) < 32" "bit w (unat (find_first_set w))"
    "\<forall>m < unat (find_first_set w). \<not> bit w m"
    using bit_imp_le_length [of w k] by auto
qed

lemma find_first_set_BITS [simp]:
  assumes "lo \<le> hi" "hi < 32"
  shows "unat (find_first_set (BITS lo hi)) = lo"
proof -
  have set: "bit (BITS lo hi) lo" using assms by simp
  then have "BITS lo hi \<noteq> 0" by auto
  note first = find_first_set_correct [OF this]
  have "lo \<le> unat (find_first_set (BITS lo hi))" using first(2) unfolding bit_BITS [OF assms] by (rule conjunct1)
  moreover have "\<not> lo < unat (find_first_set (BITS lo hi))" using first(3) set by blast
  ultimately show ?thesis by simp
qed
text \<open>A register that behaves like memory: reads return the last value written.\<close>

definition plain_register :: "'h hardware \<Rightarrow> ('h \<Rightarrow> u32) \<Rightarrow> addr \<Rightarrow> bool" where
  "plain_register H val a \<longleftrightarrow>
     (\<forall>h. fst (hw_reg_read H a h) = val h \<and> val (snd (hw_reg_read H a h)) = val h)
     \<and> (\<forall>v h. val (hw_reg_write H a v h) = v)"

text \<open>What the field operations compute, for any mask.\<close>

definition field_value :: "u32 \<Rightarrow> u32 \<Rightarrow> u32" where
  "field_value field v = drop_bit (unat (find_first_set field)) v AND drop_bit (unat (find_first_set field)) field"

definition field_set :: "u32 \<Rightarrow> u32 \<Rightarrow> u32 \<Rightarrow> u32" where
  "field_set field x v = (v AND NOT field) OR push_bit (unat (find_first_set field)) x"

lemma field_set_0 [simp]: "field_set field 0 v = v AND NOT field"
  by (simp add: field_set_def)

lemma reg_read_field_eq:
  "reg_read_field H addr reg field h
   = (field_value field (fst (reg_read H addr reg h)), snd (reg_read H addr reg h))"
  by (simp add: reg_read_field_def field_value_def Let_def split: prod.split)

lemma reg_write_field_eq:
  "reg_write_field H addr reg field x h
   = reg_write H addr reg (field_set field x (fst (reg_read H addr reg h))) (snd (reg_read H addr reg h))"
  by (simp add: reg_write_field_def field_set_def Let_def split: prod.split)

lemma reg_set_field_eq:
  "reg_set_field H addr reg field h
   = reg_write H addr reg (fst (reg_read H addr reg h) OR field) (snd (reg_read H addr reg h))"
  by (simp add: reg_set_field_def Let_def split: prod.split)

lemma reg_is_field_cleared_eq:
  "reg_is_field_cleared H addr reg field h
   = (field_value field (fst (reg_read H addr reg h)) = 0, snd (reg_read H addr reg h))"
  by (simp add: reg_is_field_cleared_def reg_read_field_eq)

lemma bit_field_value:
  assumes "lo \<le> hi" "hi < 32"
  shows "bit (field_value (BITS lo hi) v) m \<longleftrightarrow> m \<le> hi - lo \<and> bit v (lo + m)"
proof -
  have "bit (drop_bit lo (BITS lo hi)) m \<longleftrightarrow> m \<le> hi - lo"
    unfolding bit_drop_bit_eq comp_def bit_BITS [OF assms] using assms by linarith
  then show ?thesis
    unfolding field_value_def find_first_set_BITS [OF assms] bit_and_iff by (auto simp: bit_drop_bit_eq)
qed

lemma zero_iff_no_bit: "w = 0 \<longleftrightarrow> \<not> (\<exists>m. bit w m)" for w :: u32
proof
  assume "\<not> (\<exists>m. bit w m)"
  then show "w = 0" by (intro bit_word_eqI) simp
qed simp

lemma field_value_zero_iff:
  assumes "lo \<le> hi" "hi < 32"
  shows "field_value (BITS lo hi) v = 0 \<longleftrightarrow> v AND BITS lo hi = 0"
proof -
  have "(\<exists>m. bit (field_value (BITS lo hi) v) m) \<longleftrightarrow> (\<exists>m. bit (v AND BITS lo hi) m)"
  proof
    assume "\<exists>m. bit (field_value (BITS lo hi) v) m"
    then obtain m where "m \<le> hi - lo" "bit v (lo + m)" unfolding bit_field_value [OF assms] by blast
    then have "bit (v AND BITS lo hi) (lo + m)"
      unfolding bit_and_iff bit_BITS [OF assms] using assms by simp
    then show "\<exists>m. bit (v AND BITS lo hi) m" by blast
  next
    assume "\<exists>m. bit (v AND BITS lo hi) m"
    then obtain m where "bit v m" "lo \<le> m" "m \<le> hi" unfolding bit_and_iff bit_BITS [OF assms] by blast
    then have "bit (field_value (BITS lo hi) v) (m - lo)"
      unfolding bit_field_value [OF assms] by simp
    then show "\<exists>m. bit (field_value (BITS lo hi) v) m" by blast
  qed
  then show ?thesis unfolding zero_iff_no_bit by simp
qed

lemma bit_field_set:
  assumes "lo \<le> hi" "hi < 32" "unat x < 2 ^ (hi - lo + 1)"
  shows "bit (field_set (BITS lo hi) x v) m \<longleftrightarrow> (if lo \<le> m \<and> m \<le> hi then bit x (m - lo) else bit v m)"
proof -
  have x: "bit x k \<Longrightarrow> k \<le> hi - lo" for k
  proof (rule ccontr)
    assume k: "bit x k" "\<not> k \<le> hi - lo"
    then have "2 ^ (hi - lo + 1) \<le> (2 :: nat) ^ k" by (intro power_increasing) simp_all
    then have "unat x < 2 ^ k" using assms(3) by linarith
    then have "unat x div 2 ^ k = 0" by simp
    then have "\<not> bit (unat x) k" by (simp add: bit_iff_odd)
    with k(1) show False by (simp add: bit_unsigned_iff)
  qed
  have len: "bit v m \<Longrightarrow> m < 32" using bit_imp_le_length [of v m] by simp
  show ?thesis
  proof (cases "lo \<le> m \<and> m \<le> hi")
    case True
    then show ?thesis
      unfolding field_set_def find_first_set_BITS [OF assms(1,2)] bit_or_iff bit_and_iff bit_not_iff
        bit_BITS [OF assms(1,2)] bit_push_bit_iff
      using assms(2) by simp
  next
    case False
    then have "lo \<le> m \<Longrightarrow> \<not> bit x (m - lo)" using x [of "m - lo"] assms(1) by auto
    with False show ?thesis
      unfolding field_set_def find_first_set_BITS [OF assms(1,2)] bit_or_iff bit_and_iff bit_not_iff
        bit_BITS [OF assms(1,2)] bit_push_bit_iff
      using len by auto
  qed
qed

lemma field_value_set:
  assumes "lo \<le> hi" "hi < 32" "unat x < 2 ^ (hi - lo + 1)"
  shows "field_value (BITS lo hi) (field_set (BITS lo hi) x v) = x"
proof (rule bit_word_eqI)
  fix m assume m: "m < LENGTH(32)"
  show "bit (field_value (BITS lo hi) (field_set (BITS lo hi) x v)) m = bit x m"
  proof (cases "m \<le> hi - lo")
    case True
    then show ?thesis
      unfolding bit_field_value [OF assms(1,2)] bit_field_set [OF assms] using assms(1) by auto
  next
    case False
    have "(2 :: nat) ^ (hi - lo + 1) \<le> 2 ^ m" using False by (intro power_increasing) simp_all
    then have "unat x < 2 ^ m" using assms(3) by linarith
    then have "\<not> bit (unat x) m" by (simp add: bit_iff_odd)
    then have "\<not> bit x m" by (simp add: bit_unsigned_iff)
    with False show ?thesis unfolding bit_field_value [OF assms(1,2)] by simp
  qed
qed
section \<open>Properties\<close>

text \<open>
  Writing a field of a register that behaves like memory and reading it back gives the value
  written, as long as it fits into the field; all other bits of the register keep their values.
  Setting a field makes it read as all ones, and clearing it makes the check for cleared fields
  succeed.
\<close>

theorem reg_field_roundtrip:
  assumes "plain_register H val (addr + unat reg)" "lo \<le> hi" "hi < 32" "unat x < 2 ^ (hi - lo + 1)"
  shows "fst (reg_read_field H addr reg (BITS lo hi) (reg_write_field H addr reg (BITS lo hi) x h)) = x
    \<and> (\<forall>m. m < lo \<or> hi < m \<longrightarrow> bit (val (reg_write_field H addr reg (BITS lo hi) x h)) m = bit (val h) m)
    \<and> (\<forall>m. bit (val (reg_set_field H addr reg (BITS lo hi) h)) m = (bit (val h) m \<or> lo \<le> m \<and> m \<le> hi))
    \<and> fst (reg_is_field_cleared H addr reg (BITS lo hi) (reg_clear_field H addr reg (BITS lo hi) h))"
proof -
  have rd: "fst (reg_read H addr reg h) = val h" "val (snd (reg_read H addr reg h)) = val h" for h
    using assms(1) by (simp_all add: plain_register_def reg_read_def)
  have wr: "val (reg_write H addr reg v h) = v" for v h
    using assms(1) by (simp add: plain_register_def reg_write_def reg_write_raw_def)
  have "field_value (BITS lo hi) (field_set (BITS lo hi) 0 v) = 0" for v
    using assms(2,3) by (intro field_value_set) simp_all
  then show ?thesis
    unfolding reg_read_field_eq reg_write_field_eq reg_set_field_eq reg_is_field_cleared_eq reg_clear_field_def
      fst_conv rd wr field_value_set [OF assms(2-4)] bit_field_set [OF assms(2-4)] bit_or_iff bit_BITS [OF assms(2,3)]
    by auto
qed

definition register_file :: "(addr \<Rightarrow> u32) hardware" where
  "register_file = \<lparr>hw_reg_read = (\<lambda>a h. (h a, h)), hw_reg_write = (\<lambda>a v h. h(a := v)),
     hw_pci_read = (\<lambda>p r h. (0, h)), hw_pci_write = (\<lambda>p r v h. h), hw_sleep = (\<lambda>n h. h),
     hw_phys_to_virt = (\<lambda>a n. unat a), hw_virt_to_phys = of_nat\<rparr>"

lemma register_file_simps [simp]:
  "hw_reg_read register_file = (\<lambda>a h. (h a, h))" "hw_reg_write register_file = (\<lambda>a v h. h(a := v))"
  "hw_pci_read register_file = (\<lambda>p r h. (0, h))" "hw_pci_write register_file = (\<lambda>p r v h. h)"
  "hw_sleep register_file = (\<lambda>n h. h)" "hw_phys_to_virt register_file = (\<lambda>a n. unat a)"
  "hw_virt_to_phys register_file = of_nat"
  by (simp_all add: register_file_def)

theorem reg_field_roundtrip_witness:
  "fst (reg_read_field register_file 0x10000 (REG_FCRTH 0) REG_FCRTH_RTH
     (reg_write_field register_file 0x10000 (REG_FCRTH 0) REG_FCRTH_RTH ((512 * 1024 - 0x6000) div 32) (\<lambda>a. 0xFFFFFFFF)))
   = 15616"
proof -
  have "plain_register register_file (\<lambda>h. h (0x10000 + unat (REG_FCRTH 0))) (0x10000 + unat (REG_FCRTH 0))"
    by (simp add: plain_register_def)
  from reg_field_roundtrip [OF this, of 5 18 15616 "\<lambda>a. 0xFFFFFFFF"] show ?thesis
    by (simp add: REG_FCRTH_RTH_def)
qed

text \<open>
  \<open>find_first_set\<close> ends for every value, and for a non-zero one yields the number of its
  lowest bit: the loop never shifts by the width of the word.
\<close>

theorem find_first_set_total:
  "find_first_set 0 = 0
   \<and> (v \<noteq> 0 \<longrightarrow> find_first_set v < 32 \<and> bit v (unat (find_first_set v))
        \<and> (\<forall>m < unat (find_first_set v). \<not> bit v m))"
  using find_first_set_correct [of v] by (auto simp: find_first_set_def word_less_nat_alt)

theorem find_first_set_total_witness: "find_first_set 0x7FFE0 < 32 \<and> bit (0x7FFE0 :: u32) (unat (find_first_set 0x7FFE0))"
  using find_first_set_total [of "0x7FFE0"] by simp

end
