(* ===== verification/Os_Platform.thy ===== *)
theory Os_Platform
  imports Ixgbe_Regs Os_Memory
begin

text \<open>
  What the operating systems under \<open>env/src/os\<close> provide: the clock (\<open>env/include/os/clock.h\<close>,
  \<open>env/include/arch/tsc.h\<close> and the sleeping functions), the PCI bus (\<open>env/include/os/pci.h\<close>,
  \<open>env/src/os/pci.c\<close>), the translation of addresses (\<open>memory.c\<close> of each system) and the byte
  swaps of \<open>env/include/arch/endian.h\<close>.

  The instructions and system calls they rest on are arguments: the timestamp counter, the model
  specific registers, the I/O ports, \<open>sysconf\<close>, the page map, \<open>mmap\<close> and the functions of DPDK.
  A call of \<open>abort\<close> is an \<open>Inl\<close> with the message that is written before it.
\<close>

section \<open>The clock\<close>

record cpu_freq =
  freq_numerator :: u64
  freq_denominator :: u64

text \<open>A division by a numerator of zero is undefined.\<close>

definition os_clock_time_ns :: "cpu_freq \<Rightarrow> u64 \<Rightarrow> time_t option" where
  "os_clock_time_ns freq tsc =
     (if freq_numerator freq = 0 then None else Some (tsc div freq_numerator freq * freq_denominator freq))"

definition tsc_get_nhz :: "(u64 \<Rightarrow> u64) \<Rightarrow> cpu_freq" where
  "tsc_get_nhz read_msr =
     (let msr = read_msr 0xCE in \<lparr>freq_numerator = drop_bit 8 msr AND 0xFF, freq_denominator = 10\<rparr>)"

text \<open>DPDK knows the frequency in Hz; the loop cancels factors of ten, and would not end for 0.\<close>

partial_function (option) dpdk_reduce :: "u64 \<Rightarrow> u64 \<Rightarrow> cpu_freq option" where
  "dpdk_reduce numerator denominator =
     (if numerator mod 10 = 0 then dpdk_reduce (numerator div 10) (denominator div 10)
      else Some \<lparr>freq_numerator = numerator, freq_denominator = denominator\<rparr>)"

definition dpdk_os_init :: "u64 \<Rightarrow> string + cpu_freq option" where
  "dpdk_os_init tsc_hz =
     (if tsc_hz = 0 then Inl ''Could not get TSC freq'' else Inr (dpdk_reduce tsc_hz 1000000000))"

text \<open>Linux sleeps for a \<open>timespec\<close>; DPDK for a number of microseconds, an \<open>unsigned\<close>.\<close>

record timespec =
  tv_sec :: "64 word"
  tv_nsec :: "64 word"

definition linux_sleep_request :: "u64 \<Rightarrow> timespec" where
  "linux_sleep_request ns = \<lparr>tv_sec = ns div 1000000000, tv_nsec = ns mod 1000000000\<rparr>"

definition linux_os_clock_sleep_ns :: "(timespec \<Rightarrow> int) \<Rightarrow> u64 \<Rightarrow> string + unit" where
  "linux_os_clock_sleep_ns nanosleep ns =
     (if nanosleep (linux_sleep_request ns) \<noteq> 0 then Inl ''Could not sleep'' else Inr ())"

definition dpdk_sleep_us :: "u64 \<Rightarrow> u32" where
  "dpdk_sleep_us ns = ucast (ns * 1000)"

text \<open>Without an operating system the clock is read until it shows the target; \<open>k\<close> numbers the readings.\<close>

partial_function (option) metal_wait :: "(nat \<Rightarrow> time_t) \<Rightarrow> time_t \<Rightarrow> nat \<Rightarrow> nat option" where
  "metal_wait clock target k = (if clock k \<noteq> target then metal_wait clock target (Suc k) else Some (Suc k))"

definition metal_os_clock_sleep_ns :: "(nat \<Rightarrow> time_t) \<Rightarrow> u64 \<Rightarrow> nat \<Rightarrow> nat option" where
  "metal_os_clock_sleep_ns clock ns k = metal_wait clock (clock k + ns) (Suc k)"

section \<open>The PCI bus\<close>

record 'h io_ports =
  io_port_in32 :: "u16 \<Rightarrow> 'h \<Rightarrow> u32 \<times> 'h"
  io_port_out8 :: "u16 \<Rightarrow> byte \<Rightarrow> 'h \<Rightarrow> 'h"
  io_port_out32 :: "u16 \<Rightarrow> u32 \<Rightarrow> 'h \<Rightarrow> 'h"

definition PCI_CONFIG_ADDR :: u16 where "PCI_CONFIG_ADDR = 0xCF8"
definition PCI_CONFIG_DATA :: u16 where "PCI_CONFIG_DATA = 0xCFC"

definition pci_config_word :: "os_pci_address \<Rightarrow> byte \<Rightarrow> u32" where
  "pci_config_word address reg = 0x80000000 OR push_bit 16 (ucast (pci_bus address)) OR push_bit 11 (ucast (pci_device address))
     OR push_bit 8 (ucast (pci_function address)) OR ucast reg"

definition os_pci_read :: "'h io_ports \<Rightarrow> os_pci_address \<Rightarrow> byte \<Rightarrow> 'h \<Rightarrow> u32 \<times> 'h" where
  "os_pci_read io address reg h =
     (let h = io_port_out32 io PCI_CONFIG_ADDR (pci_config_word address reg) h;
          h = io_port_out8 io 0x80 0 h
      in io_port_in32 io PCI_CONFIG_DATA h)"

definition os_pci_write :: "'h io_ports \<Rightarrow> os_pci_address \<Rightarrow> byte \<Rightarrow> u32 \<Rightarrow> 'h \<Rightarrow> 'h" where
  "os_pci_write io address reg x h =
     (let h = io_port_out32 io PCI_CONFIG_ADDR (pci_config_word address reg) h;
          h = io_port_out8 io 0x80 0 h
      in io_port_out32 io PCI_CONFIG_DATA x h)"

text \<open>The addresses are part of the build (\<open>OS_CONFIG_DATA\<close>); the caller gets a copy.\<close>

definition os_pci_enumerate :: "os_mem \<Rightarrow> os_pci_address list \<Rightarrow> (size_t \<times> os_pci_address list \<times> os_mem) option" where
  "os_pci_enumerate om addresses = do {
     let count = of_nat (length addresses);
     (out_addresses, om) \<leftarrow> os_memory_alloc om count 8;
     Some (count, addresses, om) }"

section \<open>Addresses\<close>

text \<open>
  Linux. A file is what the calls on it answer: whether it can be opened, whether one can seek to an
  offset, and the 8 bytes read there. \<open>sysconf\<close> gives the page size. The type \<open>off_t\<close> is a
  signed 64-bit integer, so the casts to it and back change nothing and the code's checks of them
  never fail.
\<close>

record file_calls =
  fc_opens :: bool
  fc_seeks :: "u64 \<Rightarrow> bool"
  fc_reads :: "u64 \<Rightarrow> u64 option"

definition os_memory_pagesize :: "int \<Rightarrow> string + size_t" where
  "os_memory_pagesize sysconf =
     (if sysconf < 0 then Inl ''Page size is negative?!?''
      else if sysconf > 0xFFFFFFFFFFFFFFFF then Inl ''Page size too big for size_t''
      else if sysconf = 0 then Inl ''Could not get page size''
      else Inr (of_int sysconf))"

definition linux_virt_to_phys :: "int \<Rightarrow> file_calls \<Rightarrow> u64 \<Rightarrow> string + u64" where
  "linux_virt_to_phys sysconf pagemap addr =
     (case os_memory_pagesize sysconf of
        Inl message \<Rightarrow> Inl message
      | Inr page_size \<Rightarrow>
          let page = addr div page_size; map_offset = page * 8 in
          if \<not> fc_opens pagemap then Inl ''Could not open the pagemap''
          else if \<not> fc_seeks pagemap map_offset then Inl ''Could not seek the pagemap''
          else case fc_reads pagemap map_offset of
            None \<Rightarrow> Inl ''Could not read the pagemap''
          | Some metadata \<Rightarrow>
              if metadata AND 0x8000000000000000 = 0 then Inl ''Page not present''
              else
                let pfn = metadata AND 0x7FFFFFFFFFFFFF in
                if pfn = 0 then Inl ''Page not mapped''
                else
                  let addr_offset = addr mod page_size
                  in Inr (pfn * page_size + addr_offset))"

definition linux_msr_read :: "file_calls \<Rightarrow> u64 \<Rightarrow> string + u64" where
  "linux_msr_read msr_file index =
     (if \<not> fc_opens msr_file then Inl ''Could not open MSR file; are you root? did you modprobe msr?''
      else if \<not> fc_seeks msr_file index then Inl ''Could not seek into MSR file''
      else case fc_reads msr_file index of
        None \<Rightarrow> Inl ''Could not read MSR file''
      | Some msr \<Rightarrow> Inr msr)"

text \<open>
  \<open>os_init\<close> on Linux. \<open>ioperm from num\<close> is the result of \<open>ioperm (from, num, 1)\<close>; \<open>mmap_huge\<close>
  the zeroed huge page for the allocator, if there is one. \<open>tsc_get_nhz\<close> gets the value of the one
  register it reads.
\<close>

definition linux_os_init :: "(u16 \<Rightarrow> nat \<Rightarrow> int) \<Rightarrow> file_calls \<Rightarrow> addr option \<Rightarrow> string + cpu_freq \<times> os_mem" where
  "linux_os_init ioperm msr_file mmap_huge =
     (if ioperm 0x80 1 < 0 \<or> ioperm PCI_CONFIG_ADDR 4 < 0 \<or> ioperm PCI_CONFIG_DATA 4 < 0 then Inl ''PCI ioperms failed''
      else case linux_msr_read msr_file 0xCE of
        Inl message \<Rightarrow> Inl message
      | Inr msr \<Rightarrow>
          let freq = tsc_get_nhz (\<lambda>_. msr) in
          (case mmap_huge of
             None \<Rightarrow> Inl ''Allocate mmap failed''
           | Some memory \<Rightarrow> Inr (freq, \<lparr>mem_base = memory, mem_used = 0\<rparr>)))"

text \<open>\<open>mmap_mem\<close> maps a range of \<open>/dev/mem\<close>.\<close>

definition linux_phys_to_virt :: "bool \<Rightarrow> (u64 \<Rightarrow> size_t \<Rightarrow> u64 option) \<Rightarrow> u64 \<Rightarrow> size_t \<Rightarrow> string + u64" where
  "linux_phys_to_virt mem_opens mmap_mem addr sz =
     (if \<not> mem_opens then Inl ''Could not open /dev/mem''
      else case mmap_mem addr sz of None \<Rightarrow> Inl ''Phys-to-virt mmap failed'' | Some mapped \<Rightarrow> Inr mapped)"

text \<open>Without an operating system the two are the same.\<close>

definition metal_phys_to_virt :: "u64 \<Rightarrow> size_t \<Rightarrow> u64" where
  "metal_phys_to_virt addr sz = addr"

definition metal_virt_to_phys :: "u64 \<Rightarrow> u64" where
  "metal_virt_to_phys addr = addr"

section \<open>Byte order\<close>

text \<open>The macros, for an argument and a result of their width.\<close>

definition swap16 :: "u16 \<Rightarrow> u16" where
  "swap16 x = push_bit 8 x OR drop_bit 8 x"

definition swap32 :: "u32 \<Rightarrow> u32" where
  "swap32 x = push_bit 24 x OR (push_bit 8 x AND 0xFF) OR (drop_bit 8 x AND 0xFF) OR drop_bit 24 x"

definition swap64 :: "u64 \<Rightarrow> u64" where
  "swap64 x = push_bit 56 x OR (push_bit 40 x AND 0xFF) OR (push_bit 24 x AND 0xFF) OR (push_bit 8 x AND 0xFF)
     OR (drop_bit 8 x AND 0xFF) OR (drop_bit 24 x AND 0xFF) OR (drop_bit 40 x AND 0xFF) OR drop_bit 56 x"
section \<open>Properties\<close>

text \<open>
  The clock is at most one unit of its denominator behind the exact time of the timestamp
  counter, never ahead of it, and never goes backwards, as long as the exact time fits into 64 bits.
\<close>

theorem clock_accurate:
  assumes "freq_numerator freq \<noteq> 0" "unat tsc' * unat (freq_denominator freq) < 2 ^ 64" "tsc \<le> tsc'"
  shows "\<exists>time time'. os_clock_time_ns freq tsc = Some time \<and> os_clock_time_ns freq tsc' = Some time' \<and> time \<le> time'
    \<and> unat time' * unat (freq_numerator freq) \<le> unat tsc' * unat (freq_denominator freq)
    \<and> unat tsc' * unat (freq_denominator freq) \<le> (unat time' + unat (freq_denominator freq)) * unat (freq_numerator freq)"
proof -
  let ?n = "unat (freq_numerator freq)" and ?d = "unat (freq_denominator freq)"
  have n: "0 < ?n" using assms(1) by (simp add: unat_gt_0)
  have time: "unat (t div freq_numerator freq * freq_denominator freq) = unat t div ?n * ?d" if "t \<le> tsc'" for t
  proof -
    have "unat t div ?n * ?d \<le> unat tsc' * ?d"
      using that by (intro mult_right_mono order_trans [OF div_le_dividend]) (simp_all add: word_le_nat_alt)
    then have "unat t div ?n * ?d < 2 ^ 64" using assms(2) by (rule le_less_trans)
    then have "unat (t div freq_numerator freq) * ?d < 2 ^ LENGTH(64)" by (simp add: unat_div)
    from unat_mult_lem [THEN iffD1, OF this] show ?thesis by (simp only: unat_div)
  qed
  have le: "unat tsc div ?n * ?d \<le> unat tsc' div ?n * ?d"
    using assms(3) by (intro mult_right_mono div_le_mono) (simp_all add: word_le_nat_alt)
  have below: "unat tsc' div ?n * ?d * ?n \<le> unat tsc' * ?d"
    using mult_right_mono [OF div_times_less_eq_dividend [of "unat tsc'" ?n], of ?d] by (simp add: ac_simps)
  have "unat tsc' \<le> (unat tsc' div ?n + 1) * ?n"
    using div_mult_mod_eq [of "unat tsc'" ?n] mod_less_divisor [OF n, of "unat tsc'"] unfolding add_mult_distrib by linarith
  then have above: "unat tsc' * ?d \<le> (unat tsc' div ?n * ?d + ?d) * ?n"
    using mult_right_mono [of "unat tsc'" "(unat tsc' div ?n + 1) * ?n" ?d] by (simp add: algebra_simps)
  show ?thesis
    using assms(1) le below above time [OF assms(3)] time [OF order_refl]
    by (intro exI [of _ "tsc div freq_numerator freq * freq_denominator freq"]
        exI [of _ "tsc' div freq_numerator freq * freq_denominator freq"])
      (simp add: os_clock_time_ns_def word_le_nat_alt)
qed

theorem clock_accurate_witness:
  "\<exists>time'. os_clock_time_ns (tsc_get_nhz (\<lambda>_. 0x1B00)) 270000 = Some time' \<and> unat time' * 27 \<le> 2700000 \<and> 2700000 \<le> (unat time' + 10) * 27"
proof -
  have freq: "tsc_get_nhz (\<lambda>_. 0x1B00) = \<lparr>freq_numerator = 27, freq_denominator = 10\<rparr>"
    by (simp add: tsc_get_nhz_def Let_def)
  show ?thesis
    using clock_accurate [of "tsc_get_nhz (\<lambda>_. 0x1B00)" 270000 0] by (auto simp: freq)
qed

text \<open>The frequency of DPDK: the loop ends for every frequency but 0, with the same quotient.\<close>

lemma dpdk_reduce_ends:
  assumes "numerator \<noteq> 0"
  shows "\<exists>k freq. dpdk_reduce numerator denominator = Some freq \<and> unat (freq_numerator freq) * 10 ^ k = unat numerator
    \<and> \<not> 10 dvd unat (freq_numerator freq) \<and> unat (freq_denominator freq) = unat denominator div 10 ^ k"
  using assms
proof (induction "unat numerator" arbitrary: numerator denominator rule: less_induct)
  case less
  show ?case
  proof (cases "numerator mod 10 = 0")
    case False
    then have "\<not> 10 dvd unat numerator" by (simp add: word_unat_eq_iff unat_mod dvd_eq_mod_eq_0)
    with False show ?thesis
      by (intro exI [of _ 0] exI [of _ "\<lparr>freq_numerator = numerator, freq_denominator = denominator\<rparr>"])
        (simp add: dpdk_reduce.simps)
  next
    case True
    then have dvd: "unat numerator = unat (numerator div 10) * 10"
      by (simp add: word_unat_eq_iff unat_mod unat_div dvd_div_mult_self [of 10] mod_0_imp_dvd)
    have pos: "0 < unat numerator" using less.prems by (simp add: unat_gt_0)
    then have "numerator div 10 \<noteq> 0" using dvd by (auto simp: word_unat_eq_iff)
    moreover have "unat (numerator div 10) < unat numerator" using dvd pos by linarith
    ultimately obtain k freq where "dpdk_reduce (numerator div 10) (denominator div 10) = Some freq"
      "unat (freq_numerator freq) * 10 ^ k = unat (numerator div 10)" "\<not> 10 dvd unat (freq_numerator freq)"
      "unat (freq_denominator freq) = unat (denominator div 10) div 10 ^ k"
      using less.hyps by blast
    moreover have "unat (denominator div 10) = unat denominator div 10" by (simp add: unat_div)
    ultimately have "dpdk_reduce numerator denominator = Some freq" "unat (freq_numerator freq) * 10 ^ Suc k = unat numerator"
      "unat (freq_denominator freq) = unat denominator div 10 ^ Suc k" "\<not> 10 dvd unat (freq_numerator freq)"
      using True dvd by (simp_all add: dpdk_reduce.simps [of numerator denominator] div_mult2_eq)
    then show ?thesis by blast
  qed
qed

lemma metal_wait_target:
  "metal_wait clock target k = Some k' \<Longrightarrow> k < k' \<and> clock (k' - 1) = target"
proof (induction rule: metal_wait.raw_induct [rotated 1, consumes 1, case_names step])
  case (step metal_wait clock target k k')
  then show ?case by (fastforce split: if_splits)
qed

text \<open>
  C39: The sleep without an operating system waits until the clock shows exactly the target: it
  returns only if some later reading does. The clock only shows multiples of its denominator, so
  no sleep for another number of nanoseconds ever returns.
\<close>

theorem metal_sleep_exact:
  "(\<forall>k'. metal_os_clock_sleep_ns clock ns k = Some k' \<longrightarrow> (\<exists>j > k. clock j = clock k + ns))
   \<and> ((\<forall>j. unat (freq_denominator freq) dvd unat (clock j)) \<and> unat (clock k) + unat ns < 2 ^ 64
       \<and> \<not> unat (freq_denominator freq) dvd unat ns \<longrightarrow> metal_os_clock_sleep_ns clock ns k = None)"
proof (intro conjI impI allI)
  have exact: "\<exists>j > k. clock j = clock k + ns" if run: "metal_os_clock_sleep_ns clock ns k = Some k'" for k'
  proof -
    have "Suc k < k'" "clock (k' - 1) = clock k + ns"
      using metal_wait_target [OF run [unfolded metal_os_clock_sleep_ns_def]] by simp_all
    then show ?thesis by (intro exI [of _ "k' - 1"]) simp
  qed
  then show "\<exists>j > k. clock j = clock k + ns" if "metal_os_clock_sleep_ns clock ns k = Some k'" for k' using that .
  assume a: "(\<forall>j. unat (freq_denominator freq) dvd unat (clock j)) \<and> unat (clock k) + unat ns < 2 ^ 64
       \<and> \<not> unat (freq_denominator freq) dvd unat ns"
  show "metal_os_clock_sleep_ns clock ns k = None"
  proof (rule ccontr)
    assume "metal_os_clock_sleep_ns clock ns k \<noteq> None"
    then obtain j where "clock j = clock k + ns" using exact by blast
    then have "unat (clock j) = unat (clock k) + unat ns" using a by (simp add: unat_word_ariths)
    then have "unat ns = unat (clock j) - unat (clock k)" by simp
    then show False using a by (auto simp: dvd_diff_nat)
  qed
qed

theorem metal_sleep_exact_witness:
  "metal_os_clock_sleep_ns (\<lambda>j. if j < 5 then 10 else 20) 7 0 = None"
proof -
  have "10 dvd unat (if j < 5 then 10 else 20 :: time_t)" for j :: nat
    by (cases "j < 5") simp_all
  then show ?thesis
    using metal_sleep_exact [THEN conjunct2, rule_format, of "\<lparr>freq_numerator = 27, freq_denominator = 10\<rparr>"
        "\<lambda>j. if j < 5 then 10 else 20" 0 7] by simp
qed

lemma config_word_fields:
  assumes "pci_device a < 32" "pci_function a < 8"
  shows "ucast (pci_config_word a r) = r"
    "ucast (drop_bit 16 (pci_config_word a r)) = pci_bus a"
    "take_bit 5 (ucast (drop_bit 11 (pci_config_word a r))) = pci_device a"
    "take_bit 3 (ucast (drop_bit 8 (pci_config_word a r))) = pci_function a"
proof -
  have d: "bit (pci_device a) n \<Longrightarrow> n < 5" for n
    using assms(1) not_bit_beyond [of "pci_device a" 5 n] by (cases "n < 5") (simp_all add: word_less_nat_alt)
  have f: "bit (pci_function a) n \<Longrightarrow> n < 3" for n
    using assms(2) not_bit_beyond [of "pci_function a" 3 n] by (cases "n < 3") (simp_all add: word_less_nat_alt)
  have top: "bit (0x80000000 :: u32) n \<longleftrightarrow> n = 31" for n
  proof -
    have "(0x80000000 :: u32) = push_bit 31 1" by simp
    then show ?thesis by (simp only: bit_push_bit_iff bit_1_iff) auto
  qed
  have low: "bit w n \<Longrightarrow> n < 8" for w :: byte and n using bit_imp_le_length [of w n] by simp
  have bus: "bit (push_bit 16 (ucast (pci_bus a)) :: u32) n \<longleftrightarrow> 16 \<le> n \<and> n < 24 \<and> bit (pci_bus a) (n - 16)" for n
    using low [of "pci_bus a" "n - 16"] by (auto simp: bit_push_bit_iff bit_unsigned_iff)
  have dev: "bit (push_bit 11 (ucast (pci_device a)) :: u32) n \<longleftrightarrow> 11 \<le> n \<and> n < 16 \<and> bit (pci_device a) (n - 11)" for n
    using d [of "n - 11"] by (auto simp: bit_push_bit_iff bit_unsigned_iff)
  have func: "bit (push_bit 8 (ucast (pci_function a)) :: u32) n \<longleftrightarrow> 8 \<le> n \<and> n < 11 \<and> bit (pci_function a) (n - 8)" for n
    using f [of "n - 8"] by (auto simp: bit_push_bit_iff bit_unsigned_iff)
  have reg: "bit (ucast r :: u32) n \<longleftrightarrow> n < 8 \<and> bit r n" for n using low [of r n] by (auto simp: bit_unsigned_iff)
  have bits: "bit (pci_config_word a r) n \<longleftrightarrow> n = 31 \<or> 16 \<le> n \<and> n < 24 \<and> bit (pci_bus a) (n - 16)
      \<or> 11 \<le> n \<and> n < 16 \<and> bit (pci_device a) (n - 11) \<or> 8 \<le> n \<and> n < 11 \<and> bit (pci_function a) (n - 8) \<or> n < 8 \<and> bit r n" for n
    by (simp only: pci_config_word_def bit_or_iff top bus dev func reg disj_assoc)
  show "ucast (pci_config_word a r) = r"
    by (rule bit_word_eqI) (auto simp: bit_unsigned_iff bits)
  show "ucast (drop_bit 16 (pci_config_word a r)) = pci_bus a"
    by (rule bit_word_eqI) (auto simp: bit_unsigned_iff bit_drop_bit_eq bits)
  show "take_bit 5 (ucast (drop_bit 11 (pci_config_word a r))) = pci_device a"
    using d by (intro bit_word_eqI) (auto simp: bit_take_bit_iff bit_unsigned_iff bit_drop_bit_eq bits not_less)
  show "take_bit 3 (ucast (drop_bit 8 (pci_config_word a r))) = pci_function a"
    using f by (intro bit_word_eqI) (auto simp: bit_take_bit_iff bit_unsigned_iff bit_drop_bit_eq bits not_less)
qed
text \<open>
  The word that selects a register of the configuration space can be taken apart again: with
  device numbers below 32 and function numbers below 8 its fields are the bus, the device, the
  function and the register, so no two registers share a word. A write selects the register before
  it hands over the data, and a read selects it before it takes the data.
\<close>

theorem pci_config_roundtrip:
  assumes "pci_device a < 32" "pci_function a < 8" "pci_device b < 32" "pci_function b < 8"
  shows "(pci_config_word a r = pci_config_word b s \<longleftrightarrow> a = b \<and> r = s)
    \<and> ucast (drop_bit 16 (pci_config_word a r)) = pci_bus a
    \<and> os_pci_write \<lparr>io_port_in32 = (\<lambda>port h. (0, h)), io_port_out8 = (\<lambda>port x h. h),
         io_port_out32 = (\<lambda>port x h. h @ [(port, x)])\<rparr> a r x h
       = h @ [(PCI_CONFIG_ADDR, pci_config_word a r), (PCI_CONFIG_DATA, x)]"
proof (intro conjI)
  show "pci_config_word a r = pci_config_word b s \<longleftrightarrow> a = b \<and> r = s"
  proof
    assume eq: "pci_config_word a r = pci_config_word b s"
    have "r = s" "pci_bus a = pci_bus b" "pci_device a = pci_device b" "pci_function a = pci_function b"
      using config_word_fields [OF assms(1,2), of r] config_word_fields [OF assms(3,4), of s] unfolding eq by metis+
    then show "a = b \<and> r = s" by simp
  qed simp
qed (simp_all add: config_word_fields [OF assms(1,2)] os_pci_write_def Let_def)

theorem pci_config_roundtrip_witness:
  "pci_config_word \<lparr>pci_bus = 5, pci_device = 0, pci_function = 1\<rparr> 0x10
     \<noteq> pci_config_word \<lparr>pci_bus = 5, pci_device = 1, pci_function = 1\<rparr> 0x10"
  using pci_config_roundtrip [where a = "\<lparr>pci_bus = 5, pci_device = 0, pci_function = 1\<rparr>"
      and b = "\<lparr>pci_bus = 5, pci_device = 1, pci_function = 1\<rparr>" and r = 16 and s = 16] by simp

text \<open>
  The translation of addresses on Linux keeps distances within a page, so what is contiguous in
  a page of the process is contiguous in memory; where the page is not present or not mapped it
  fails.
\<close>

theorem virt_to_phys_page:
  assumes "os_memory_pagesize sysconf = Inr page_size" "fc_opens pagemap" "\<forall>offset. fc_seeks pagemap offset"
    and "fc_reads pagemap (addr div page_size * 8) = Some metadata" "addr' div page_size = addr div page_size"
  shows "if bit metadata 63 \<and> take_bit 55 metadata \<noteq> 0
    then \<exists>phys phys'. linux_virt_to_phys sysconf pagemap addr = Inr phys \<and> linux_virt_to_phys sysconf pagemap addr' = Inr phys'
      \<and> phys = take_bit 55 metadata * page_size + addr mod page_size \<and> phys' - phys = addr' - addr
    else \<exists>message. linux_virt_to_phys sysconf pagemap addr = Inl message \<and> linux_virt_to_phys sysconf pagemap addr' = Inl message"
proof -
  have present: "metadata AND 0x8000000000000000 = 0 \<longleftrightarrow> \<not> bit metadata 63"
    using and_exp_eq_0_iff_not_bit [of metadata 63] by simp
  have pfn: "metadata AND 0x7FFFFFFFFFFFFF = take_bit 55 metadata"
    by (simp add: take_bit_eq_mask mask_eq_exp_minus_1)
  have result: "linux_virt_to_phys sysconf pagemap a =
      (if \<not> bit metadata 63 then Inl ''Page not present'' else if take_bit 55 metadata = 0 then Inl ''Page not mapped''
       else Inr (take_bit 55 metadata * page_size + a mod page_size))" if "a div page_size = addr div page_size" for a
    using assms(1-4) that by (simp add: linux_virt_to_phys_def Let_def present pfn)
  have offset: "a mod page_size = a - a div page_size * page_size" for a
    by (simp add: minus_div_mult_eq_mod)
  show ?thesis
    using result [OF refl] result [OF assms(5)] assms(5) by (simp add: offset)
qed

theorem virt_to_phys_page_witness:
  "\<exists>phys phys'. linux_virt_to_phys 4096 \<lparr>fc_opens = True, fc_seeks = (\<lambda>_. True), fc_reads = (\<lambda>_. Some 0x8000000000000007)\<rparr> 0x5010 = Inr phys
    \<and> linux_virt_to_phys 4096 \<lparr>fc_opens = True, fc_seeks = (\<lambda>_. True), fc_reads = (\<lambda>_. Some 0x8000000000000007)\<rparr> 0x5810 = Inr phys'
    \<and> phys = 0x7010 \<and> phys' - phys = 0x800"
proof -
  have "os_memory_pagesize 4096 = Inr 4096" by (simp add: os_memory_pagesize_def)
  moreover have "bit (0x8000000000000007 :: u64) 63 \<and> take_bit 55 (0x8000000000000007 :: u64) = 7" by code_simp
  ultimately show ?thesis
    using virt_to_phys_page [where sysconf = 4096 and page_size = 4096
        and pagemap = "\<lparr>fc_opens = True, fc_seeks = (\<lambda>_. True), fc_reads = (\<lambda>_. Some 0x8000000000000007)\<rparr>"
        and addr = "0x5010" and addr' = "0x5810" and metadata = "0x8000000000000007"] by simp
qed

section \<open>Byte order\<close>

text \<open>The 16-bit macro exchanges the bytes; the wider ones lose all bytes but the outermost.\<close>

lemma swap_bytes:
  "le_bytes 2 (swap16 x) = rev (le_bytes 2 x)"
  "swap32 0x11223344 = 0x44000033" "swap64 0x1122334455667788 = 0x8800000000000077"
proof -
  have "ucast (push_bit 8 x OR drop_bit 8 x) = (ucast (drop_bit 8 x) :: byte)"
    "ucast (drop_bit 8 (push_bit 8 x OR drop_bit 8 x)) = (ucast x :: byte)"
    by (rule bit_word_eqI, auto simp: bit_unsigned_iff bit_or_iff bit_push_bit_iff bit_drop_bit_eq dest: bit_imp_le_length)+
  then show "le_bytes 2 (swap16 x) = rev (le_bytes 2 x)" by (simp add: swap16_def numeral_2_eq_2)
  show "swap32 0x11223344 = 0x44000033" "swap64 0x1122334455667788 = 0x8800000000000077" by code_simp+
qed

end
