(* ===== verification/Net_Tx.thy ===== *)
theory Net_Tx
  imports Net_Packet
begin

text \<open>
  The execution of transmission commands by the TinyNF stack:
  \<open>env/src/net/tinynf/main.c\<close>, but for \<open>main\<close> itself, which is in \<open>Net_Main\<close>.

  The stack keeps the Ethernet addresses of the devices and of their endpoints. A packet handler
  gets an array with one output length per device other than the packet's own, which the driver
  reads after the call and then resets to zero. The network functions issue their commands last,
  after their writes to the packet, so executing the list of commands after the handler is what
  the calls do.
\<close>

section \<open>The code\<close>

record tx_stack =
  tx_devices_count :: size_t
  tx_endpoint_macs :: "ether_addr list"
  tx_device_macs :: "ether_addr list"

definition index_from_device :: "net_packet \<Rightarrow> device_t \<Rightarrow> size_t" where
  "index_from_device packet device =
     (if pkt_device packet < device then ucast (device - 1) else ucast device)"

definition device_from_index :: "net_packet \<Rightarrow> size_t \<Rightarrow> device_t" where
  "device_from_index packet index =
     (if index < ucast (pkt_device packet) then ucast index else ucast (index + 1))"

definition handle_flags :: "tx_stack \<Rightarrow> net_packet \<Rightarrow> device_t \<Rightarrow> net_transmit_flags \<Rightarrow> net_packet option" where
  "handle_flags st packet device flags =
     (if flags = UPDATE_ETHER_ADDRS then do {
        dst \<leftarrow> arr_get (tx_endpoint_macs st) (ucast device);
        src \<leftarrow> arr_get (tx_device_macs st) (ucast device);
        d \<leftarrow> wr_bytes (pkt_data packet) 0 dst;
        d \<leftarrow> wr_bytes d 6 src;
        Some (packet\<lparr>pkt_data := d\<rparr>) }
      else Some packet)"

definition net_transmit ::
    "tx_stack \<Rightarrow> net_packet \<Rightarrow> size_t list \<Rightarrow> device_t \<Rightarrow> net_transmit_flags \<Rightarrow> (net_packet \<times> size_t list) option" where
  "net_transmit st packet current_output_lengths device flags = do {
     packet \<leftarrow> handle_flags st packet device flags;
     lens \<leftarrow> arr_set current_output_lengths (index_from_device packet device) (pkt_length packet);
     Some (packet, lens) }"

function net_flood_loop ::
    "tx_stack \<Rightarrow> net_packet \<Rightarrow> size_t list \<Rightarrow> net_transmit_flags \<Rightarrow> size_t \<Rightarrow> (net_packet \<times> size_t list) option" where
  "net_flood_loop st packet lens flags n =
     (if n < tx_devices_count st - 1 then do {
        packet \<leftarrow> handle_flags st packet (device_from_index packet n) flags;
        lens \<leftarrow> arr_set lens n (pkt_length packet);
        net_flood_loop st packet lens flags (n + 1) }
      else Some (packet, lens))"
  by pat_completeness auto
termination
  by (relation "measure (\<lambda>(st, packet, lens, flags, n). unat (tx_devices_count st - 1 - n))")
    (rule wf_measure, simp only: in_measure prod.case word_loop_decreases)

declare net_flood_loop.simps [simp del]

definition net_flood ::
    "tx_stack \<Rightarrow> net_packet \<Rightarrow> size_t list \<Rightarrow> net_transmit_flags \<Rightarrow> (net_packet \<times> size_t list) option" where
  "net_flood st packet current_output_lengths flags = net_flood_loop st packet current_output_lengths flags 0"

function net_flood_except_loop ::
    "tx_stack \<Rightarrow> net_packet \<Rightarrow> size_t list \<Rightarrow> bool list \<Rightarrow> net_transmit_flags \<Rightarrow> size_t
     \<Rightarrow> (net_packet \<times> size_t list) option" where
  "net_flood_except_loop st packet lens disabled_devices flags n =
     (if n < tx_devices_count st - 1 then do {
        let device = device_from_index packet n;
        packet \<leftarrow> handle_flags st packet device flags;
        disabled \<leftarrow> arr_get disabled_devices (ucast device);
        lens \<leftarrow> arr_set lens n (if disabled then 0 else pkt_length packet);
        net_flood_except_loop st packet lens disabled_devices flags (n + 1) }
      else Some (packet, lens))"
  by pat_completeness auto
termination
  by (relation "measure (\<lambda>(st, packet, lens, disabled, flags, n). unat (tx_devices_count st - 1 - n))")
    (rule wf_measure, simp only: in_measure prod.case word_loop_decreases)

declare net_flood_except_loop.simps [simp del]

definition net_flood_except ::
    "tx_stack \<Rightarrow> net_packet \<Rightarrow> size_t list \<Rightarrow> bool list \<Rightarrow> net_transmit_flags \<Rightarrow> (net_packet \<times> size_t list) option" where
  "net_flood_except st packet current_output_lengths disabled_devices flags =
     net_flood_except_loop st packet current_output_lengths disabled_devices flags 0"

text \<open>The calls of a network function, in their order.\<close>

fun tx_exec :: "tx_stack \<Rightarrow> tx list \<Rightarrow> net_packet \<Rightarrow> size_t list \<Rightarrow> (net_packet \<times> size_t list) option" where
  "tx_exec st [] packet lens = Some (packet, lens)"
| "tx_exec st (Net_Transmit device flags # cmds) packet lens = do {
     (packet, lens) \<leftarrow> net_transmit st packet lens device flags;
     tx_exec st cmds packet lens }"
| "tx_exec st (Net_Flood flags # cmds) packet lens = do {
     (packet, lens) \<leftarrow> net_flood st packet lens flags;
     tx_exec st cmds packet lens }"
| "tx_exec st (Net_Flood_Except disabled flags # cmds) packet lens = do {
     (packet, lens) \<leftarrow> net_flood_except st packet lens disabled flags;
     tx_exec st cmds packet lens }"

text \<open>
  \<open>tinynf_packet_handler\<close>: the network function \<open>nf_handle\<close> and the current time
  (\<open>os_clock_time_ns\<close>) are arguments; the build links one network function into the program.
\<close>

type_synonym 'nf nf_handler = "'nf \<Rightarrow> net_packet \<Rightarrow> ('nf \<times> net_packet \<times> tx list) option"

definition tinynf_packet_handler ::
    "tx_stack \<Rightarrow> 'nf nf_handler \<Rightarrow> time_t \<Rightarrow> 'nf \<Rightarrow> size_t \<Rightarrow> byte list \<Rightarrow> size_t \<Rightarrow> size_t list
     \<Rightarrow> ('nf \<times> byte list \<times> size_t list) option" where
  "tinynf_packet_handler st nf_handle now nf index packet len output_lengths = do {
     let pkt = \<lparr>pkt_data = packet, pkt_length = len, pkt_time = now, pkt_device = ucast index\<rparr>;
     (nf, pkt, cmds) \<leftarrow> nf_handle nf pkt;
     (pkt, output_lengths) \<leftarrow> tx_exec st cmds pkt output_lengths;
     Some (nf, pkt_data pkt, output_lengths) }"

text \<open>The addresses that \<open>main\<close> computes for the endpoint and for the device numbered \<open>n\<close>.\<close>

definition endpoint_mac :: "size_t \<Rightarrow> ether_addr" where
  "endpoint_mac n = [0, ucast (drop_bit 10 n), ucast (drop_bit 20 n), ucast (drop_bit 30 n), ucast (drop_bit 40 n), 0]"

definition device_mac :: "u64 \<Rightarrow> ether_addr" where
  "device_mac mac = [ucast (drop_bit 0 mac), ucast (drop_bit 8 mac), ucast (drop_bit 16 mac), ucast (drop_bit 24 mac),
                     ucast (drop_bit 32 mac), ucast (drop_bit 40 mac)]"


section \<open>Devices and output indexes\<close>

abbreviation devices_ok :: "size_t \<Rightarrow> bool" where
  "devices_ok dc \<equiv> 0 < dc \<and> dc \<le> 0x10000"

lemma unat_device_bound: "unat (device :: device_t) < 65536"
  using unsigned_less [of device] by simp

lemma unat_index_from_device:
  "unat (index_from_device packet device)
   = (if unat (pkt_device packet) < unat device then unat device - 1 else unat device)"
proof (cases "pkt_device packet < device")
  case True
  then have "unat (device - 1) = unat device - 1"
    using unat_pred_word [of device] by (simp add: word_less_nat_alt)
  with True show ?thesis by (simp add: index_from_device_def word_less_nat_alt)
next
  case False
  then show ?thesis by (simp add: index_from_device_def word_less_nat_alt)
qed

lemma unat_device_from_index:
  assumes "devices_ok dc" "unat index < unat dc - 1"
  shows "unat (device_from_index packet index)
    = (if unat index < unat (pkt_device packet) then unat index else unat index + 1)"
proof -
  have dc: "unat dc \<le> 65536" using assms(1) by (simp add: word_le_nat_alt)
  then have "unat (index + 1) = unat index + 1"
    using assms(2) by (intro unat_plus_if' [THEN trans]) (simp add: unat_lt64)
  then show ?thesis
    using assms(2) dc
    by (simp add: device_from_index_def word_less_nat_alt unsigned_ucast_eq take_bit_nat_eq_self)
qed

lemma device_from_index_other:
  assumes "devices_ok dc" "unat index < unat dc - 1"
  shows "unat (device_from_index packet index) < unat dc" "device_from_index packet index \<noteq> pkt_device packet"
    "index_from_device packet (device_from_index packet index) = index"
  using assms by (auto simp: unat_device_from_index unat_index_from_device word_unat_eq_iff split: if_splits)

lemma index_from_device_other:
  assumes "devices_ok dc" "unat device < unat dc" "unat (pkt_device packet) < unat dc" "device \<noteq> pkt_device packet"
  shows "unat (index_from_device packet device) < unat dc - 1"
    "device_from_index packet (index_from_device packet device) = device"
proof -
  have ne: "unat device \<noteq> unat (pkt_device packet)" using assms(4) by (simp add: word_unat_eq_iff)
  then show bound: "unat (index_from_device packet device) < unat dc - 1"
    using assms(2,3) by (simp add: unat_index_from_device, linarith)
  show "device_from_index packet (index_from_device packet device) = device"
    using assms(1) bound ne
    by (subst word_unat_eq_iff, subst unat_device_from_index) (auto simp: unat_index_from_device)
qed

section \<open>Commands\<close>

definition tx_ok :: "tx_stack \<Rightarrow> bool" where
  "tx_ok st \<longleftrightarrow> devices_ok (tx_devices_count st)
     \<and> length (tx_endpoint_macs st) = unat (tx_devices_count st)
     \<and> length (tx_device_macs st) = unat (tx_devices_count st)
     \<and> (\<forall>mac \<in> set (tx_endpoint_macs st) \<union> set (tx_device_macs st). length mac = 6)"

text \<open>What \<open>handle_flags\<close> makes of the bytes of a packet.\<close>

definition addressed :: "tx_stack \<Rightarrow> device_t \<Rightarrow> net_transmit_flags \<Rightarrow> byte list \<Rightarrow> byte list" where
  "addressed st device flags d =
     (if flags = UPDATE_ETHER_ADDRS
      then tx_endpoint_macs st ! unat device @ tx_device_macs st ! unat device @ drop 12 d else d)"

lemma handle_flags_correct:
  assumes "tx_ok st" "unat device < unat (tx_devices_count st)" "12 \<le> length (pkt_data packet)"
  shows "handle_flags st packet device flags
    = Some (packet\<lparr>pkt_data := addressed st device flags (pkt_data packet)\<rparr>)"
    "length (addressed st device flags (pkt_data packet)) = length (pkt_data packet)"
proof -
  have "length (tx_endpoint_macs st ! unat device) = 6" "length (tx_device_macs st ! unat device) = 6"
    using assms(1,2) by (auto simp: tx_ok_def)
  then show "handle_flags st packet device flags
      = Some (packet\<lparr>pkt_data := addressed st device flags (pkt_data packet)\<rparr>)"
    "length (addressed st device flags (pkt_data packet)) = length (pkt_data packet)"
    using assms by (simp_all add: handle_flags_def addressed_def tx_ok_def wr_bytes_def)
qed

lemma addressed_again:
  assumes "tx_ok st" "unat device < unat (tx_devices_count st)"
  shows "addressed st device' flags (addressed st device flags d) = addressed st device' flags d"
proof -
  have "length (tx_endpoint_macs st ! unat device) = 6" "length (tx_device_macs st ! unat device) = 6"
    using assms by (auto simp: tx_ok_def)
  then show ?thesis by (simp add: addressed_def)
qed

text \<open>A flood is a flood without disabled devices, so one induction serves both loops.\<close>

lemma net_flood_loop_except:
  assumes "tx_ok st" "length lens = unat (tx_devices_count st) - 1" "12 \<le> length (pkt_data packet)"
  shows "net_flood_loop st packet lens flags n
    = net_flood_except_loop st packet lens (replicate (unat (tx_devices_count st)) False) flags n"
  using assms
proof (induction st packet lens flags n rule: net_flood_loop.induct)
  case (1 st packet lens flags n)
  show ?case
  proof (cases "n < tx_devices_count st - 1")
    case True
    note ok = \<open>tx_ok st\<close>
    have "0 < tx_devices_count st" using ok by (simp add: tx_ok_def)
    then have n: "unat n < unat (tx_devices_count st) - 1"
      using True unat_pred_word [of "tx_devices_count st"] by (simp add: word_less_nat_alt)
    have dc: "devices_ok (tx_devices_count st)" using ok by (simp add: tx_ok_def)
    note dev = device_from_index_other(1) [OF dc n, of packet]
    note handle = handle_flags_correct [OF ok dev "1.prems"(3), of flags]
    show ?thesis
      using True n dev handle "1.prems" "1.IH" [OF True handle(1)]
      by (simp add: net_flood_loop.simps [of st packet lens flags n]
          net_flood_except_loop.simps [of st packet lens _ flags n])
  next
    case False
    then show ?thesis by (simp add: net_flood_loop.simps net_flood_except_loop.simps)
  qed
qed


text \<open>The last device that a flood from index \<open>n\<close> handles determines the addresses.\<close>

lemma net_flood_except_loop_correct:
  assumes "tx_ok st" "length lens = unat (tx_devices_count st) - 1" "12 \<le> length (pkt_data packet)"
    "length disabled = unat (tx_devices_count st)" "unat n \<le> unat (tx_devices_count st) - 1"
  shows "net_flood_except_loop st packet lens disabled flags n
    = Some (packet\<lparr>pkt_data := if unat n < unat (tx_devices_count st) - 1
          then addressed st (device_from_index packet (tx_devices_count st - 2)) flags (pkt_data packet)
          else pkt_data packet\<rparr>,
        take (unat n) lens @ map (\<lambda>i. if disabled ! unat (device_from_index packet (of_nat i)) then 0
          else pkt_length packet) [unat n ..< unat (tx_devices_count st) - 1])"
  using assms
proof (induction st packet lens disabled flags n rule: net_flood_except_loop.induct)
  case (1 st packet lens disabled flags n)
  let ?dc = "unat (tx_devices_count st)"
  note ok = \<open>tx_ok st\<close>
  have dc: "devices_ok (tx_devices_count st)" using ok by (simp add: tx_ok_def)
  then have pred: "unat (tx_devices_count st - 1) = ?dc - 1"
    using unat_pred_word [of "tx_devices_count st"] by simp
  show ?case
  proof (cases "n < tx_devices_count st - 1")
    case True
    then have n: "unat n < ?dc - 1" using pred by (simp add: word_less_nat_alt)
    then have Suc_n: "unat (n + 1) = Suc (unat n)" using unat_Suc_word [OF True] by simp
    let ?dev = "device_from_index packet n"
    note dev = device_from_index_other(1) [OF dc n, of packet]
    note handle = handle_flags_correct [OF ok dev "1.prems"(3), of flags]
    let ?packet = "packet\<lparr>pkt_data := addressed st ?dev flags (pkt_data packet)\<rparr>"
    let ?len = "if disabled ! unat ?dev then 0 else pkt_length packet"
    have same: "device_from_index ?packet = device_from_index packet"
      by (simp add: device_from_index_def fun_eq_iff)
    have step: "net_flood_except_loop st packet lens disabled flags n
        = net_flood_except_loop st ?packet (lens[unat n := ?len]) disabled flags (n + 1)"
      using True n dev handle "1.prems"
      by (simp add: net_flood_except_loop.simps [of st packet lens disabled flags n])
    have last: "n = tx_devices_count st - 2" if "\<not> unat (n + 1) < ?dc - 1"
    proof -
      have "unat n = ?dc - 2" "2 \<le> ?dc" using that n Suc_n by auto
      then have "unat n = unat (tx_devices_count st - 2)" by (subst unat_sub) (simp_all add: word_le_nat_alt)
      then show ?thesis by (simp add: word_unat_eq_iff)
    qed
    have split: "[unat n ..< ?dc - 1] = unat n # [unat (n + 1) ..< ?dc - 1]"
      using n Suc_n by (simp add: upt_conv_Cons)
    have "take (unat (n + 1)) (lens[unat n := ?len]) = take (unat n) lens @ [?len]"
      using n "1.prems"(2) Suc_n by (simp add: take_Suc_conv_app_nth)
    note take = this
    have IH: "net_flood_except_loop st ?packet (lens[unat n := ?len]) disabled flags (n + 1)
      = Some (?packet\<lparr>pkt_data := if unat (n + 1) < ?dc - 1
            then addressed st (device_from_index ?packet (tx_devices_count st - 2)) flags (pkt_data ?packet)
            else pkt_data ?packet\<rparr>,
          take (unat (n + 1)) (lens[unat n := ?len]) @ map (\<lambda>i. if disabled ! unat (device_from_index ?packet (of_nat i)) then 0
            else pkt_length ?packet) [unat (n + 1) ..< ?dc - 1])"
      using n dev handle "1.prems" Suc_n
      by (intro "1.IH" [OF True refl handle(1), of "disabled ! unat ?dev" "lens[unat n := ?len]"]) simp_all
    have data: "(if unat (n + 1) < ?dc - 1
            then addressed st (device_from_index packet (tx_devices_count st - 2)) flags (pkt_data ?packet)
            else pkt_data ?packet) = addressed st (device_from_index packet (tx_devices_count st - 2)) flags (pkt_data packet)"
      using last addressed_again [OF ok dev] by simp
    show ?thesis
      unfolding step IH same take split using n data by (simp del: One_nat_def)
  next
    case False
    then have "\<not> unat n < ?dc - 1" using pred by (simp add: word_less_nat_alt)
    with False show ?thesis using "1.prems" by (simp add: net_flood_except_loop.simps)
  qed
qed
text \<open>What a command promises: which devices it sends to, and when it is well-formed.\<close>

fun tx_sends :: "tx \<Rightarrow> device_t \<Rightarrow> bool" where
  "tx_sends (Net_Transmit device flags) d = (d = device)"
| "tx_sends (Net_Flood flags) d = True"
| "tx_sends (Net_Flood_Except disabled flags) d = (\<not> disabled ! unat d)"

fun tx_cmd_ok :: "size_t \<Rightarrow> device_t \<Rightarrow> tx \<Rightarrow> bool" where
  "tx_cmd_ok dc own (Net_Transmit device flags) = (unat device < unat dc \<and> device \<noteq> own)"
| "tx_cmd_ok dc own (Net_Flood flags) = True"
| "tx_cmd_ok dc own (Net_Flood_Except disabled flags) = (length disabled = unat dc)"

text \<open>The device whose addresses a command leaves in the packet, and whether it does so.\<close>

fun tx_last :: "size_t \<Rightarrow> net_packet \<Rightarrow> tx \<Rightarrow> device_t" where
  "tx_last dc packet (Net_Transmit device flags) = device"
| "tx_last dc packet (Net_Flood flags) = device_from_index packet (dc - 2)"
| "tx_last dc packet (Net_Flood_Except disabled flags) = device_from_index packet (dc - 2)"

fun tx_flags :: "tx \<Rightarrow> net_transmit_flags" where
  "tx_flags (Net_Transmit device flags) = flags"
| "tx_flags (Net_Flood flags) = flags"
| "tx_flags (Net_Flood_Except disabled flags) = flags"

definition tx_result :: "tx_stack \<Rightarrow> net_packet \<Rightarrow> tx \<Rightarrow> byte list" where
  "tx_result st packet cmd =
     (if 1 < tx_devices_count st
      then addressed st (tx_last (tx_devices_count st) packet cmd) (tx_flags cmd) (pkt_data packet)
      else pkt_data packet)"

lemma unat_pred_count: "devices_ok dc \<Longrightarrow> unat (dc - 1) = unat dc - 1"
  using unat_pred_word [of dc] by simp

lemma net_flood_except_correct:
  assumes "tx_ok st" "length lens = unat (tx_devices_count st) - 1" "12 \<le> length (pkt_data packet)"
    "length disabled = unat (tx_devices_count st)"
  shows "net_flood_except st packet lens disabled flags
    = Some (packet\<lparr>pkt_data := tx_result st packet (Net_Flood_Except disabled flags)\<rparr>,
        map (\<lambda>i. if disabled ! unat (device_from_index packet (of_nat i)) then 0 else pkt_length packet)
          [0 ..< unat (tx_devices_count st) - 1])"
  using net_flood_except_loop_correct [OF assms, of 0 flags]
  by (simp add: net_flood_except_def tx_result_def word_less_nat_alt less_diff_conv)

lemma net_flood_correct:
  assumes "tx_ok st" "length lens = unat (tx_devices_count st) - 1" "12 \<le> length (pkt_data packet)"
  shows "net_flood st packet lens flags
    = Some (packet\<lparr>pkt_data := tx_result st packet (Net_Flood flags)\<rparr>,
        replicate (unat (tx_devices_count st) - 1) (pkt_length packet))"
proof -
  have dc: "devices_ok (tx_devices_count st)" using assms(1) by (simp add: tx_ok_def)
  have "unat (device_from_index packet (of_nat i)) < unat (tx_devices_count st)"
    if "i < unat (tx_devices_count st) - 1" for i
  proof -
    have "unat (of_nat i :: size_t) = i" using that unat_lt64 [of "tx_devices_count st"] by simp
    with that show ?thesis by (intro device_from_index_other(1) [OF dc]) simp
  qed
  then have "map (\<lambda>i. if replicate (unat (tx_devices_count st)) False ! unat (device_from_index packet (of_nat i)) then 0
      else pkt_length packet) [0 ..< unat (tx_devices_count st) - 1]
    = replicate (unat (tx_devices_count st) - 1) (pkt_length packet)"
    by (intro nth_equalityI) simp_all
  with net_flood_except_loop_correct [OF assms, of "replicate (unat (tx_devices_count st)) False" 0 flags]
  show ?thesis
    by (simp add: net_flood_def net_flood_loop_except [OF assms] tx_result_def word_less_nat_alt less_diff_conv)
qed

lemma tx_exec_command:
  assumes "tx_ok st" "length lens = unat (tx_devices_count st) - 1" "12 \<le> length (pkt_data packet)"
    and own: "unat (pkt_device packet) < unat (tx_devices_count st)"
    and cmd: "tx_cmd_ok (tx_devices_count st) (pkt_device packet) cmd"
    and zero: "\<forall>l \<in> set lens. l = 0"
  shows "\<exists>lens'. tx_exec st [cmd] packet lens = Some (packet\<lparr>pkt_data := tx_result st packet cmd\<rparr>, lens')
    \<and> length lens' = length lens
    \<and> (\<forall>d. unat d < unat (tx_devices_count st) \<and> d \<noteq> pkt_device packet \<longrightarrow>
         lens' ! unat (index_from_device packet d) = (if tx_sends cmd d then pkt_length packet else 0))"
proof (cases cmd)
  case (Net_Transmit device flags)
  have dc: "devices_ok (tx_devices_count st)" using assms(1) by (simp add: tx_ok_def)
  have dev: "unat device < unat (tx_devices_count st)" "device \<noteq> pkt_device packet" using cmd Net_Transmit by simp_all
  then have many: "1 < tx_devices_count st" using own by (auto simp: word_less_nat_alt word_unat_eq_iff)
  note idx = index_from_device_other [OF dc _ own]
  let ?lens = "lens[unat (index_from_device packet device) := pkt_length packet]"
  have same: "index_from_device (packet\<lparr>pkt_data := x\<rparr>) = index_from_device packet" for x
    by (simp add: index_from_device_def fun_eq_iff)
  have run: "tx_exec st [cmd] packet lens = Some (packet\<lparr>pkt_data := tx_result st packet cmd\<rparr>, ?lens)"
    using Net_Transmit many idx(1) [OF dev] assms(2)
    by (simp add: net_transmit_def handle_flags_correct [OF assms(1) dev(1) assms(3)] same tx_result_def)
  have "?lens ! unat (index_from_device packet d) = (if tx_sends cmd d then pkt_length packet else 0)"
    if d: "unat d < unat (tx_devices_count st)" "d \<noteq> pkt_device packet" for d
  proof (cases "d = device")
    case True
    then show ?thesis using Net_Transmit idx(1) [OF d] assms(2) by simp
  next
    case False
    have "index_from_device packet d \<noteq> index_from_device packet device"
      using idx(2) [OF d] idx(2) [OF dev] False by metis
    then have "unat (index_from_device packet device) \<noteq> unat (index_from_device packet d)"
      by (simp add: word_unat_eq_iff)
    then show ?thesis using False Net_Transmit idx(1) [OF d] assms(2) zero by simp
  qed
  then have "\<forall>d. unat d < unat (tx_devices_count st) \<and> d \<noteq> pkt_device packet \<longrightarrow>
       ?lens ! unat (index_from_device packet d) = (if tx_sends cmd d then pkt_length packet else 0)"
    by blast
  note outs = this
  show ?thesis by (intro exI conjI, rule run, simp, rule outs)
next
  case (Net_Flood flags)
  have dc: "devices_ok (tx_devices_count st)" using assms(1) by (simp add: tx_ok_def)
  show ?thesis
    using Net_Flood assms(2) index_from_device_other(1) [OF dc _ own]
    by (simp add: net_flood_correct [OF assms(1-3)])
next
  case (Net_Flood_Except disabled flags)
  have dc: "devices_ok (tx_devices_count st)" using assms(1) by (simp add: tx_ok_def)
  have len: "length disabled = unat (tx_devices_count st)" using cmd Net_Flood_Except by simp
  show ?thesis
    using Net_Flood_Except assms(2) index_from_device_other [OF dc _ own]
    by (simp add: net_flood_except_correct [OF assms(1-3) len])
qed

lemma tx_result_length:
  assumes ok: "tx_ok st" and len: "12 \<le> length (pkt_data packet)" and own: "unat (pkt_device packet) < unat (tx_devices_count st)"
    and cmd: "tx_cmd_ok (tx_devices_count st) (pkt_device packet) cmd"
  shows "length (tx_result st packet cmd) = length (pkt_data packet)"
proof (cases "1 < tx_devices_count st")
  case True
  have dc: "devices_ok (tx_devices_count st)" using ok by (simp add: tx_ok_def)
  have "unat (tx_devices_count st - 2) = unat (tx_devices_count st) - 2"
    using True by (subst unat_sub) (simp_all add: word_le_nat_alt word_less_nat_alt)
  then have "unat (tx_devices_count st - 2) < unat (tx_devices_count st) - 1" using True by (simp add: word_less_nat_alt)
  then have "unat (tx_last (tx_devices_count st) packet cmd) < unat (tx_devices_count st)"
    using cmd device_from_index_other(1) [OF dc] by (cases cmd) simp_all
  from handle_flags_correct(2) [OF ok this len] True show ?thesis by (simp add: tx_result_def)
qed (simp add: tx_result_def)

section \<open>Properties\<close>

text \<open>
  The two index computations of the stack are inverse bijections between the devices other
  than the packet's own and the output indexes. The packet's own device has no output: asking for
  its index gives that of the device behind it, or, for the last device, an index past the array.
\<close>

theorem tx_indexes:
  assumes "devices_ok dc" "unat (pkt_device packet) < unat dc"
  shows "(\<forall>d. unat d < unat dc \<and> d \<noteq> pkt_device packet \<longrightarrow>
           unat (index_from_device packet d) < unat dc - 1 \<and> device_from_index packet (index_from_device packet d) = d)
    \<and> (\<forall>i. unat i < unat dc - 1 \<longrightarrow>
           unat (device_from_index packet i) < unat dc \<and> device_from_index packet i \<noteq> pkt_device packet
           \<and> index_from_device packet (device_from_index packet i) = i)
    \<and> unat (index_from_device packet (pkt_device packet)) = unat (pkt_device packet)
    \<and> (unat (pkt_device packet) < unat dc - 1 \<longrightarrow>
           unat (device_from_index packet (index_from_device packet (pkt_device packet))) = unat (pkt_device packet) + 1)"
  using index_from_device_other [OF assms(1) _ assms(2)] device_from_index_other [OF assms(1)]
  by (simp add: unat_device_from_index [OF assms(1)] unat_index_from_device)

theorem tx_indexes_witness:
  "let packet = \<lparr>pkt_data = [], pkt_length = 0, pkt_time = 0, pkt_device = 1\<rparr> in
   index_from_device packet 2 = 1 \<and> device_from_index packet 1 = 2
   \<and> unat (device_from_index packet (index_from_device packet 1)) = 2"
  using tx_indexes [of 3 "\<lparr>pkt_data = [], pkt_length = 0, pkt_time = 0, pkt_device = 1\<rparr>"]
  by (simp add: index_from_device_def device_from_index_def)

text \<open>
  C16: A well-formed command of a network function is executed without leaving the arrays: the
  outputs of exactly the devices that the command names get the length of the packet, and all
  others stay zero. The bytes after the Ethernet addresses are unchanged. With
  \<open>UPDATE_ETHER_ADDRS\<close>, all outputs share one buffer with the addresses of the last device
  handled, so a packet flooded over several devices leaves with the addresses of the last one.
\<close>

theorem tx_delivers:
  assumes "tx_ok st" "length lens = unat (tx_devices_count st) - 1" "\<forall>l \<in> set lens. l = 0"
    and "12 \<le> length (pkt_data packet)" "unat (pkt_device packet) < unat (tx_devices_count st)"
    and "tx_cmd_ok (tx_devices_count st) (pkt_device packet) cmd"
  shows "\<exists>d lens'. tx_exec st [cmd] packet lens = Some (packet\<lparr>pkt_data := d\<rparr>, lens')
    \<and> length lens' = length lens
    \<and> (\<forall>dev. unat dev < unat (tx_devices_count st) \<and> dev \<noteq> pkt_device packet \<longrightarrow>
         lens' ! unat (index_from_device packet dev) = (if tx_sends cmd dev then pkt_length packet else 0))
    \<and> (1 < tx_devices_count st \<longrightarrow>
         d = addressed st (tx_last (tx_devices_count st) packet cmd) (tx_flags cmd) (pkt_data packet))"
proof -
  obtain lens' where "tx_exec st [cmd] packet lens = Some (packet\<lparr>pkt_data := tx_result st packet cmd\<rparr>, lens')"
    "length lens' = length lens"
    "\<forall>d. unat d < unat (tx_devices_count st) \<and> d \<noteq> pkt_device packet \<longrightarrow>
       lens' ! unat (index_from_device packet d) = (if tx_sends cmd d then pkt_length packet else 0)"
    using tx_exec_command [OF assms(1,2,4,5,6,3)] by blast
  then show ?thesis by (intro exI conjI) (assumption+, simp add: tx_result_def)
qed

definition tx_example :: tx_stack where
  "tx_example = \<lparr>tx_devices_count = 3, tx_endpoint_macs = map endpoint_mac [0, 1, 2],
     tx_device_macs = map device_mac [0x010203040506, 0x020304050607, 0x030405060708]\<rparr>"

theorem tx_delivers_witness:
  "\<exists>d. tx_exec tx_example [Net_Flood UPDATE_ETHER_ADDRS]
        \<lparr>pkt_data = replicate 14 0xFF, pkt_length = 14, pkt_time = 0, pkt_device = 0\<rparr> [0, 0]
      = Some (\<lparr>pkt_data = d, pkt_length = 14, pkt_time = 0, pkt_device = 0\<rparr>, [14, 14])
    \<and> d = endpoint_mac 2 @ device_mac 0x030405060708 @ [0xFF, 0xFF]"
proof -
  let ?p = "\<lparr>pkt_data = replicate 14 0xFF, pkt_length = 14, pkt_time = 0, pkt_device = 0\<rparr>"
  have "tx_ok tx_example" by (simp add: tx_ok_def tx_example_def endpoint_mac_def device_mac_def)
  then obtain d lens' where r: "tx_exec tx_example [Net_Flood UPDATE_ETHER_ADDRS] ?p [0, 0] = Some (?p\<lparr>pkt_data := d\<rparr>, lens')"
    "length lens' = 2"
    "\<forall>dev. unat dev < 3 \<and> dev \<noteq> (0 :: device_t) \<longrightarrow> lens' ! unat (index_from_device ?p dev) = 14"
    "d = addressed tx_example (device_from_index ?p 1) UPDATE_ETHER_ADDRS (replicate 14 0xFF)"
    using tx_delivers [of tx_example "[0, 0]" ?p "Net_Flood UPDATE_ETHER_ADDRS"] by (auto simp: tx_example_def)
  have two: "replicate 2 x = [x, x]" for x :: byte by (simp add: numeral_2_eq_2)
  have "lens' ! 0 = 14" "lens' ! 1 = 14"
    using spec [OF r(3), of 1] spec [OF r(3), of 2] by (simp_all add: index_from_device_def)
  then have "lens' = [14, 14]" using r(2) by (auto simp: numeral_2_eq_2 length_Suc_conv)
  moreover have "d = endpoint_mac 2 @ device_mac 0x030405060708 @ [0xFF, 0xFF]"
    unfolding r(4) using two by (simp add: addressed_def device_from_index_def tx_example_def)
  ultimately show ?thesis using r(1) by simp
qed

end
