(* ===== verification/Ixgbe_Device.thy ===== *)
theory Ixgbe_Device
  imports Ixgbe_Regs
begin

text \<open>
  The initialisation of a device: \<open>tn_device_init\<close>, \<open>tn_device_set_promiscuous\<close> and
  \<open>tn_device_get_mac\<close> of \<open>env/src/net/tinynf/ixgbe.c\<close>.

  \<open>tn_device_init\<close> is one long sequence. It is modelled here as a sequence of phases, in the
  order of the code; a phase that can fail yields an \<open>outcome\<close>.
\<close>

section \<open>The code\<close>

record tn_device =
  dev_addr :: addr
  dev_rx_enabled :: bool
  dev_tx_enabled :: bool

text \<open>The checks of the PCI device, and the physical address of its registers.\<close>

definition device_init_pci :: "'h hardware \<Rightarrow> os_pci_address \<Rightarrow> 'h \<Rightarrow> (u64, 'h) outcome" where
  "device_init_pci H pci_address h =
     (let (pci_id, h) = pcireg_read H pci_address PCIREG_ID h in
      if pci_id \<noteq> push_bit 16 0x10FB OR 0x8086 then fatal ''PCI device is not what was expected'' h
      else
      let (in_d0, h) = pcireg_is_field_cleared H pci_address PCIREG_PMCSR PCIREG_PMCSR_POWER_STATE h in
      if \<not> in_d0 then fatal ''PCI device not in D0.'' h
      else
      let h = pcireg_set_field H pci_address PCIREG_COMMAND PCIREG_COMMAND_BUS_MASTER_ENABLE h;
          h = pcireg_set_field H pci_address PCIREG_COMMAND PCIREG_COMMAND_MEMORY_ACCESS_ENABLE h;
          h = pcireg_set_field H pci_address PCIREG_COMMAND PCIREG_COMMAND_INTERRUPT_DISABLE h;
          (pci_bar0low, h) = pcireg_read H pci_address PCIREG_BAR0_LOW h in
      if pci_bar0low AND BIT 2 = 0 \<or> pci_bar0low AND BIT 1 \<noteq> 0 then fatal ''BAR0 is not a 64-bit BAR'' h
      else
      let (pci_bar0high, h) = pcireg_read H pci_address PCIREG_BAR0_HIGH h;
          dev_phys_addr = push_bit 32 (ucast pci_bar0high) OR ucast (pci_bar0low AND NOT (BITS 0 3))
      in (Inr dev_phys_addr, h))"

text \<open>The loop over the receive queues, from \<open>queue\<close> on.\<close>

function device_init_disable_receive :: "'h hardware \<Rightarrow> addr \<Rightarrow> size_t \<Rightarrow> 'h \<Rightarrow> (unit, 'h) outcome" where
  "device_init_disable_receive H addr queue h =
     (if queue < RECEIVE_QUEUES_COUNT then
        let h = reg_clear_field H addr (REG_RXDCTL queue) REG_RXDCTL_ENABLE h;
            (timed_out, h) = if_after_timeout H (1000 * 1000)
              (\<lambda>h. let (cleared, h) = reg_is_field_cleared H addr (REG_RXDCTL queue) REG_RXDCTL_ENABLE h in (\<not> cleared, h)) h
        in if timed_out then fatal ''RXDCTL.ENABLE did not clear, cannot disable receive to reset'' h
           else device_init_disable_receive H addr (queue + 1) h
      else (Inr (), h))"
  by pat_completeness auto
termination
  by (relation "measure (\<lambda>(H, addr, queue, h). unat (RECEIVE_QUEUES_COUNT - queue))")
    (rule wf_measure, simp only: in_measure prod.case word_loop_decreases)

declare device_init_disable_receive.simps [simp del]

definition device_init_disable_master ::
    "'h hardware \<Rightarrow> os_pci_address \<Rightarrow> addr \<Rightarrow> 'h \<Rightarrow> (unit, 'h) outcome" where
  "device_init_disable_master H pci_address addr h =
     (let h = reg_set_field H addr REG_CTRL REG_CTRL_MASTER_DISABLE h;
          (timed_out, h) = if_after_timeout H (1000 * 1000)
            (\<lambda>h. let (cleared, h) = reg_is_field_cleared H addr REG_STATUS REG_STATUS_PCIE_MASTER_ENABLE_STATUS h in (\<not> cleared, h)) h
      in if \<not> timed_out then (Inr (), h)
      else
      let (cleared, h) = pcireg_is_field_cleared H pci_address PCIREG_DEVICESTATUS PCIREG_DEVICESTATUS_TRANSACTIONPENDING h in
      if \<not> cleared then fatal ''DEVICESTATUS.TRANSACTIONPENDING did not clear, cannot perform master disable to reset'' h
      else
      let h = reg_set_field H addr REG_HLREG0 REG_HLREG0_LPBK h;
          h = reg_clear_field H addr REG_RXCTRL REG_RXCTRL_RXEN h;
          h = reg_set_field H addr REG_GCREXT REG_GCREXT_BUFFERS_CLEAR_FUNC h;
          h = hw_sleep H (20 * 1000) h;
          h = reg_clear_field H addr REG_HLREG0 REG_HLREG0_LPBK h;
          h = reg_clear_field H addr REG_GCREXT REG_GCREXT_BUFFERS_CLEAR_FUNC h;
          h = reg_set_field H addr REG_CTRL REG_CTRL_RST h;
          h = hw_sleep H (2 * 1000) h
      in (Inr (), h))"

text \<open>The reset, the interrupts and the flow control threshold.\<close>

definition device_init_reset :: "'h hardware \<Rightarrow> addr \<Rightarrow> 'h \<Rightarrow> 'h" where
  "device_init_reset H addr h =
     (let h = reg_set_field H addr REG_CTRL REG_CTRL_RST h;
          h = hw_sleep H (1000 * 1000) h;
          h = hw_sleep H (10 * 1000 * 1000) h;
          h = reg_write H addr (REG_EIMC 0) 0x7FFFFFFF h;
          h = for_range 1 (unat INTERRUPT_REGISTERS_COUNT) (\<lambda>n. reg_write H addr (REG_EIMC n) 0xFFFFFFFF) h
      in reg_write_field H addr (REG_FCRTH 0) REG_FCRTH_RTH ((512 * 1024 - 0x6000) div 32) h)"

definition device_init_wait :: "'h hardware \<Rightarrow> addr \<Rightarrow> 'h \<Rightarrow> (unit, 'h) outcome" where
  "device_init_wait H addr h =
     (let (timed_out, h) = if_after_timeout H (1000 * 1000) (reg_is_field_cleared H addr REG_EEC REG_EEC_AUTO_RD) h in
      if timed_out then fatal ''EEPROM auto read timed out'' h
      else
      let (absent, h) = reg_is_field_cleared H addr REG_EEC REG_EEC_EE_PRES h in
      if absent then fatal ''EEPROM not present or invalid'' h
      else
      let (valid, h) = reg_is_field_cleared H addr REG_FWSM REG_FWSM_EXT_ERR_IND h in
      if \<not> valid then fatal ''EEPROM not present or invalid'' h
      else
      let (timed_out, h) = if_after_timeout H (1000 * 1000) (reg_is_field_cleared H addr REG_RDRXCTL REG_RDRXCTL_DMAIDONE) h in
      if timed_out then fatal ''DMA init timed out'' h
      else (Inr (), h))"

text \<open>The filter tables.\<close>

definition device_init_tables :: "'h hardware \<Rightarrow> addr \<Rightarrow> 'h \<Rightarrow> 'h" where
  "device_init_tables H addr h =
     (let h = for_range 0 (unat (UNICAST_TABLE_ARRAY_SIZE div 32)) (\<lambda>n. reg_clear H addr (REG_PFUTA n)) h;
          h = for_range 0 (unat POOLS_COUNT) (\<lambda>n. reg_clear H addr (REG_PFVLVF n)) h;
          h = reg_write H addr (REG_MPSAR 0) 1 h;
          h = for_range 1 (unat (RECEIVE_ADDRS_COUNT * 2)) (\<lambda>n. reg_clear H addr (REG_MPSAR n)) h;
          h = for_range 0 (unat (POOLS_COUNT * 2)) (\<lambda>n. reg_clear H addr (REG_PFVLVFB n)) h
      in for_range 0 (unat (MULTICAST_TABLE_ARRAY_SIZE div 32)) (\<lambda>n. reg_clear H addr (REG_MTA n)) h)"

definition device_init_filters :: "'h hardware \<Rightarrow> addr \<Rightarrow> 'h \<Rightarrow> 'h" where
  "device_init_filters H addr h =
     for_range 0 (unat FIVETUPLE_FILTERS_COUNT) (\<lambda>n. reg_clear_field H addr (REG_FTQF n) REG_FTQF_QUEUE_ENABLE) h"

definition device_init_receive :: "'h hardware \<Rightarrow> addr \<Rightarrow> 'h \<Rightarrow> 'h" where
  "device_init_receive H addr h =
     (let h = reg_set_field H addr REG_RDRXCTL REG_RDRXCTL_CRC_STRIP h;
          h = reg_clear_field H addr REG_RDRXCTL REG_RDRXCTL_RSCFRSTSIZE h;
          h = reg_set_field H addr REG_RDRXCTL REG_RDRXCTL_RSCACKC h;
          h = reg_set_field H addr REG_RDRXCTL REG_RDRXCTL_FCOE_WRFIX h;
          h = for_range 1 (unat TRAFFIC_CLASSES_COUNT) (\<lambda>n. reg_clear H addr (REG_RXPBSIZE n)) h
      in reg_set_field H addr REG_MFLCN REG_MFLCN_RFCE h)"

definition device_init_arbiters :: "'h hardware \<Rightarrow> addr \<Rightarrow> 'h \<Rightarrow> 'h" where
  "device_init_arbiters H addr h =
     (let h = reg_write_field H addr REG_FCCFG REG_FCCFG_TFCE 1 h
      in for_range 0 (unat TRANSMIT_QUEUES_COUNT)
           (\<lambda>n h. reg_clear H addr REG_RTTDT1C (reg_write H addr REG_RTTDQSEL (ucast n) h)) h)"

definition device_init_transmit :: "'h hardware \<Rightarrow> addr \<Rightarrow> 'h \<Rightarrow> 'h" where
  "device_init_transmit H addr h =
     (let h = reg_set_field H addr REG_RTTDCS REG_RTTDCS_ARBDIS h;
          h = for_range 1 (unat TRAFFIC_CLASSES_COUNT) (\<lambda>n. reg_clear H addr (REG_TXPBSIZE n)) h;
          h = reg_write_field H addr (REG_TXPBTHRESH 0) REG_TXPBTHRESH_THRESH (0xA0 - ucast (PACKET_BUFFER_SIZE div 1024)) h;
          h = reg_write_field H addr REG_DTXMXSZRQ REG_DTXMXSZRQ_MAX_BYTES_NUM_REQ 0xFFF h
      in reg_clear_field H addr REG_RTTDCS REG_RTTDCS_ARBDIS h)"

definition tn_device_init :: "'h hardware \<Rightarrow> os_pci_address \<Rightarrow> tn_device \<Rightarrow> 'h \<Rightarrow> (tn_device, 'h) outcome" where
  "tn_device_init H pci_address device h =
     and_then (device_init_pci H pci_address h) (\<lambda>dev_phys_addr h.
     let addr = hw_phys_to_virt H dev_phys_addr (128 * 1024) in
     and_then (device_init_disable_receive H addr 0 h) (\<lambda>_ h.
     and_then (device_init_disable_master H pci_address addr h) (\<lambda>_ h.
     let h = device_init_reset H addr h in
     and_then (device_init_wait H addr h) (\<lambda>_ h.
     let h = device_init_tables H addr h;
         h = device_init_filters H addr h;
         h = device_init_receive H addr h;
         h = device_init_arbiters H addr h;
         h = device_init_transmit H addr h
     in (Inr (device\<lparr>dev_addr := addr\<rparr>), h)))))"

definition tn_device_set_promiscuous :: "'h hardware \<Rightarrow> tn_device \<Rightarrow> 'h \<Rightarrow> 'h" where
  "tn_device_set_promiscuous H device h =
     (let (rx_disabled, h) = reg_is_field_cleared H (dev_addr device) REG_RXCTRL REG_RXCTRL_RXEN h;
          was_rx_enabled = (\<not> rx_disabled);
          h = (if was_rx_enabled then reg_clear_field H (dev_addr device) REG_RXCTRL REG_RXCTRL_RXEN h else h);
          h = reg_set_field H (dev_addr device) REG_FCTRL REG_FCTRL_UPE h;
          h = reg_set_field H (dev_addr device) REG_FCTRL REG_FCTRL_MPE h
      in if was_rx_enabled then reg_set_field H (dev_addr device) REG_RXCTRL REG_RXCTRL_RXEN h else h)"

definition tn_device_get_mac :: "'h hardware \<Rightarrow> tn_device \<Rightarrow> 'h \<Rightarrow> u64 \<times> 'h" where
  "tn_device_get_mac H device h =
     (let (ral, h) = reg_read H (dev_addr device) (REG_RAL 0) h;
          (rah, h) = reg_read H (dev_addr device) (REG_RAH 0) h
      in (ucast ral OR push_bit 32 (ucast rah), h))"
section \<open>Registers inside the mapped region\<close>

text \<open>
  Every register lies, aligned, inside the 128 KB of the device that are mapped.
\<close>

definition reg_ok :: "u32 \<Rightarrow> bool" where
  "reg_ok reg \<longleftrightarrow> unat reg + 4 \<le> 128 * 1024 \<and> 4 dvd unat reg"

lemma unat_indexed_register:
  assumes "unat b + unat k * unat n < 2 ^ 32"
  shows "unat (ucast (b + k * n :: size_t) :: u32) = unat b + unat k * unat n"
proof -
  have "unat (k * n) = unat k * unat n"
    using assms by (intro unat_mult_lem [THEN iffD1]) simp
  then have "unat (b + k * n) = unat b + unat k * unat n"
    using assms by (subst unat_add_lem [THEN iffD1]) simp_all
  then show ?thesis using assms by (simp add: unsigned_ucast_eq take_bit_nat_eq_self)
qed

named_theorems unat_regs \<open>the addresses of indexed registers as natural numbers\<close>

lemma unat_tables [unat_regs]:
  assumes "unat n < 256"
  shows "unat (REG_PFUTA n) = 0xF400 + 4 * unat n" "unat (REG_PFVLVF n) = 0xF100 + 4 * unat n"
    "unat (REG_MPSAR n) = 0xA600 + 4 * unat n" "unat (REG_PFVLVFB n) = 0xF200 + 4 * unat n"
    "unat (REG_MTA n) = 0x5200 + 4 * unat n" "unat (REG_FTQF n) = 0xE600 + 4 * unat n"
    "unat (REG_RXPBSIZE n) = 0x3C00 + 4 * unat n" "unat (REG_TXPBSIZE n) = 0xCC00 + 4 * unat n"
    "unat (REG_FCRTH n) = 0x3260 + 4 * unat n" "unat (REG_TXPBTHRESH n) = 0x4950 + 4 * unat n"
    "unat (REG_RAL n) = 0xA200 + 8 * unat n" "unat (REG_RAH n) = 0xA204 + 8 * unat n"
  using assms unat_indexed_register [of "0xF400" "4" n] unat_indexed_register [of "0xF100" "4" n]
    unat_indexed_register [of "0xA600" "4" n] unat_indexed_register [of "0xF200" "4" n]
    unat_indexed_register [of "0x5200" "4" n] unat_indexed_register [of "0xE600" "4" n]
    unat_indexed_register [of "0x3C00" "4" n] unat_indexed_register [of "0xCC00" "4" n]
    unat_indexed_register [of "0x3260" "4" n] unat_indexed_register [of "0x4950" "4" n]
    unat_indexed_register [of "0xA200" "8" n] unat_indexed_register [of "0xA204" "8" n]
  by (simp_all add: ixgbe_regs)

lemma unat_queues [unat_regs]:
  assumes "unat n < 128"
  shows "unat (REG_RXDCTL n) = (if unat n \<le> 63 then 0x1028 + 0x40 * unat n else 0xD028 + 0x40 * (unat n - 64))"
    "unat (REG_RDBAH n) = (if unat n \<le> 63 then 0x1004 + 0x40 * unat n else 0xD004 + 0x40 * (unat n - 64))"
    "unat (REG_RDBAL n) = (if unat n \<le> 63 then 0x1000 + 0x40 * unat n else 0xD000 + 0x40 * (unat n - 64))"
    "unat (REG_RDLEN n) = (if unat n \<le> 63 then 0x1008 + 0x40 * unat n else 0xD008 + 0x40 * (unat n - 64))"
    "unat (REG_RDT n) = (if unat n \<le> 63 then 0x1018 + 0x40 * unat n else 0xD018 + 0x40 * (unat n - 64))"
    "unat (REG_SRRCTL n) = (if unat n \<le> 63 then 0x1014 + 0x40 * unat n else 0xD014 + 0x40 * (unat n - 64))"
    "unat (REG_DCARXCTRL n) = (if unat n \<le> 63 then 0x100C + 0x40 * unat n else 0xD00C + 0x40 * (unat n - 64))"
    "unat (REG_TDBAH n) = 0x6004 + 0x40 * unat n" "unat (REG_TDBAL n) = 0x6000 + 0x40 * unat n"
    "unat (REG_TDLEN n) = 0x6008 + 0x40 * unat n" "unat (REG_TDT n) = 0x6018 + 0x40 * unat n"
    "unat (REG_TDWBAH n) = 0x603C + 0x40 * unat n" "unat (REG_TDWBAL n) = 0x6038 + 0x40 * unat n"
    "unat (REG_TXDCTL n) = 0x6028 + 0x40 * unat n" "unat (REG_DCATXCTRL n) = 0x600C + 0x40 * unat n"
proof -
  have le: "n \<le> 63 \<longleftrightarrow> unat n \<le> 63" by (simp add: word_le_nat_alt)
  have sub: "\<not> unat n \<le> 63 \<Longrightarrow> unat (n - 64) = unat n - 64" by (simp add: unat_sub word_le_nat_alt)
  have two: "unat (if n \<le> 63 then ucast (b + 0x40 * n) else ucast (c + 0x40 * (n - 64)) :: u32)
      = (if unat n \<le> 63 then unat b + 0x40 * unat n else unat c + 0x40 * (unat n - 64))"
    if "unat b < 0x10000" "unat c < 0x10000" for b c :: size_t
    using that assms unat_indexed_register [of b "0x40" n] unat_indexed_register [of c "0x40" "n - 64"]
    by (simp add: le sub)
  show "unat (REG_RXDCTL n) = (if unat n \<le> 63 then 0x1028 + 0x40 * unat n else 0xD028 + 0x40 * (unat n - 64))"
    "unat (REG_RDBAH n) = (if unat n \<le> 63 then 0x1004 + 0x40 * unat n else 0xD004 + 0x40 * (unat n - 64))"
    "unat (REG_RDBAL n) = (if unat n \<le> 63 then 0x1000 + 0x40 * unat n else 0xD000 + 0x40 * (unat n - 64))"
    "unat (REG_RDLEN n) = (if unat n \<le> 63 then 0x1008 + 0x40 * unat n else 0xD008 + 0x40 * (unat n - 64))"
    "unat (REG_RDT n) = (if unat n \<le> 63 then 0x1018 + 0x40 * unat n else 0xD018 + 0x40 * (unat n - 64))"
    "unat (REG_SRRCTL n) = (if unat n \<le> 63 then 0x1014 + 0x40 * unat n else 0xD014 + 0x40 * (unat n - 64))"
    "unat (REG_DCARXCTRL n) = (if unat n \<le> 63 then 0x100C + 0x40 * unat n else 0xD00C + 0x40 * (unat n - 64))"
    unfolding REG_RXDCTL_def REG_RDBAH_def REG_RDBAL_def REG_RDLEN_def REG_RDT_def REG_SRRCTL_def REG_DCARXCTRL_def
    by (subst two; simp)+
  show "unat (REG_TDBAH n) = 0x6004 + 0x40 * unat n" "unat (REG_TDBAL n) = 0x6000 + 0x40 * unat n"
    "unat (REG_TDLEN n) = 0x6008 + 0x40 * unat n" "unat (REG_TDT n) = 0x6018 + 0x40 * unat n"
    "unat (REG_TDWBAH n) = 0x603C + 0x40 * unat n" "unat (REG_TDWBAL n) = 0x6038 + 0x40 * unat n"
    "unat (REG_TXDCTL n) = 0x6028 + 0x40 * unat n" "unat (REG_DCATXCTRL n) = 0x600C + 0x40 * unat n"
    using assms unat_indexed_register [of "0x6004" "0x40" n] unat_indexed_register [of "0x6000" "0x40" n]
      unat_indexed_register [of "0x6008" "0x40" n] unat_indexed_register [of "0x6018" "0x40" n]
      unat_indexed_register [of "0x603C" "0x40" n] unat_indexed_register [of "0x6038" "0x40" n]
      unat_indexed_register [of "0x6028" "0x40" n] unat_indexed_register [of "0x600C" "0x40" n]
    by (simp_all add: ixgbe_regs)
qed
lemma reg_ok_single [simp]:
  "reg_ok REG_CTRL" "reg_ok REG_CTRLEXT" "reg_ok REG_DMATXCTL" "reg_ok REG_DTXMXSZRQ" "reg_ok REG_EEC"
  "reg_ok REG_FCCFG" "reg_ok REG_FCTRL" "reg_ok REG_FWSM" "reg_ok REG_GCREXT" "reg_ok REG_HLREG0"
  "reg_ok REG_MFLCN" "reg_ok REG_RDRXCTL" "reg_ok REG_RTTDCS" "reg_ok REG_RTTDQSEL" "reg_ok REG_RTTDT1C"
  "reg_ok REG_RXCTRL" "reg_ok REG_SECRXCTRL" "reg_ok REG_SECRXSTAT" "reg_ok REG_STATUS"
  by (simp_all add: reg_ok_def ixgbe_regs)

lemma reg_ok_table [simp]:
  assumes "unat n < 256"
  shows "reg_ok (REG_PFUTA n)" "reg_ok (REG_PFVLVF n)" "reg_ok (REG_MPSAR n)" "reg_ok (REG_PFVLVFB n)"
    "reg_ok (REG_MTA n)" "reg_ok (REG_FTQF n)" "reg_ok (REG_RXPBSIZE n)" "reg_ok (REG_TXPBSIZE n)"
    "reg_ok (REG_FCRTH n)" "reg_ok (REG_TXPBTHRESH n)" "reg_ok (REG_RAL n)" "reg_ok (REG_RAH n)"
  unfolding reg_ok_def unat_tables [OF assms] using assms by (auto intro!: dvd_add dvd_mult2)

lemma reg_ok_queue [simp]:
  assumes "unat n < 128"
  shows "reg_ok (REG_RXDCTL n)" "reg_ok (REG_RDBAH n)" "reg_ok (REG_RDBAL n)" "reg_ok (REG_RDLEN n)"
    "reg_ok (REG_RDT n)" "reg_ok (REG_SRRCTL n)" "reg_ok (REG_DCARXCTRL n)" "reg_ok (REG_TDBAH n)"
    "reg_ok (REG_TDBAL n)" "reg_ok (REG_TDLEN n)" "reg_ok (REG_TDT n)" "reg_ok (REG_TDWBAH n)"
    "reg_ok (REG_TDWBAL n)" "reg_ok (REG_TXDCTL n)" "reg_ok (REG_DCATXCTRL n)"
  unfolding reg_ok_def unat_queues [OF assms] using assms by (auto intro!: dvd_add dvd_mult2)

lemma reg_ok_EIMC [simp]: "unat n < 3 \<Longrightarrow> reg_ok (REG_EIMC n)"
proof -
  assume n: "unat n < 3"
  show ?thesis
  proof (cases "n = 0")
    case True
    then show ?thesis by (simp add: reg_ok_def REG_EIMC_def)
  next
    case False
    then have "unat (n - 1) < 2" using n unat_pred_word [of n] by (simp add: word_neq_0_conv)
    with False show ?thesis
      using unat_indexed_register [of "0xAB0" 4 "n - 1"] by (simp add: reg_ok_def REG_EIMC_def)
  qed
qed

text \<open>
  A property of the outside world that accesses to the registers at \<open>addr\<close> keep is kept by
  everything the driver does with the device. This holds for any behaviour of the hardware.
\<close>

definition keeps :: "'h hardware \<Rightarrow> addr \<Rightarrow> ('h \<Rightarrow> bool) \<Rightarrow> bool" where
  "keeps H addr P \<longleftrightarrow>
     (\<forall>h reg v. P h \<and> reg_ok reg \<longrightarrow>
        P (snd (hw_reg_read H (addr + unat reg) h)) \<and> P (hw_reg_write H (addr + unat reg) v h))
     \<and> (\<forall>h p reg v. P h \<longrightarrow> P (snd (hw_pci_read H p reg h)) \<and> P (hw_pci_write H p reg v h))
     \<and> (\<forall>h ns. P h \<longrightarrow> P (hw_sleep H ns h))"

lemma kept_access:
  assumes "keeps H addr P" "P h"
  shows "reg_ok reg \<Longrightarrow> P (snd (reg_read H addr reg h))"
    "reg_ok reg \<Longrightarrow> P (reg_write H addr reg v h)"
    "P (snd (pcireg_read H p r h))" "P (hw_pci_write H p r v h)" "P (hw_sleep H ns h)"
  using assms by (simp_all add: keeps_def reg_read_def reg_write_def reg_write_raw_def pcireg_read_def)

lemma kept_fields:
  assumes "keeps H addr P" "P h" "reg_ok reg"
  shows "P (snd (reg_read_field H addr reg field h))" "P (reg_write_field H addr reg field x h)"
    "P (reg_set_field H addr reg field h)" "P (snd (reg_is_field_cleared H addr reg field h))"
    "P (reg_clear H addr reg h)" "P (reg_clear_field H addr reg field h)"
  unfolding reg_read_field_eq reg_write_field_eq reg_set_field_eq reg_is_field_cleared_eq reg_clear_def
    reg_clear_field_def snd_conv
  by (intro kept_access(1,2) [of H addr P, OF assms(1)] assms(2,3))+

lemma kept_pci:
  assumes "keeps H addr P" "P h"
  shows "P (snd (pcireg_is_field_cleared H p r field h))" "P (pcireg_set_field H p r field h)"
  unfolding pcireg_is_field_cleared_def pcireg_set_field_def Let_def split_beta snd_conv
  by (intro kept_access(3,4) [of H addr P, OF assms(1)] assms(2))+

lemma kept_timeout_poll:
  assumes "keeps H addr P" "\<And>h. P h \<Longrightarrow> P (snd (condition h))" "P h"
  shows "P (snd (timeout_poll H t condition i h))"
  using assms
proof (induction H t condition i h rule: timeout_poll.induct)
  case (1 H t condition i h)
  obtain b h1 where step: "condition h = (b, h1)" by (cases "condition h")
  then have "P h1" using "1.prems"(2) [OF "1.prems"(3)] by simp
  then have "P (hw_sleep H (t div 10 * 1000) h1)" by (rule kept_access(5) [OF "1.prems"(1)])
  then show ?case
    using \<open>P h1\<close> "1.prems"(3) "1.IH" [of "(b, h1)" b h1, OF _ _ _ _ "1.prems"(1,2)] step
    by (simp add: timeout_poll.simps [of H t condition i h])
qed

lemma kept_timeout:
  assumes "keeps H addr P" "\<And>h. P h \<Longrightarrow> P (snd (condition h))" "P h"
  shows "P (snd (if_after_timeout H t condition h))"
  unfolding if_after_timeout_def
  by (rule kept_timeout_poll [OF assms(1,2) kept_access(5) [OF assms(1,3)]])

lemma kept_for_range:
  assumes "P h" "\<And>n h. n < limit \<Longrightarrow> P h \<Longrightarrow> P (f (of_nat n) h)"
  shows "P (for_range lo limit f h)"
proof -
  have "P (fold (\<lambda>n. f (of_nat n)) xs h)" if "\<forall>n \<in> set xs. n < limit" for xs
    using that assms(1) assms(2) by (induction xs arbitrary: h) simp_all
  then show ?thesis by (simp add: for_range_def)
qed
lemmas kept = kept_access kept_fields kept_pci

lemma unat_of_nat_upto: "n < k \<Longrightarrow> k \<le> 256 \<Longrightarrow> unat (of_nat n :: size_t) = n"
  by simp

lemma kept_tables:
  assumes K: "keeps H addr P" and h: "P h"
  shows "P (device_init_tables H addr h)" "P (device_init_filters H addr h)"
    "P (device_init_receive H addr h)" "P (device_init_arbiters H addr h)"
    "P (device_init_transmit H addr h)" "P (device_init_reset H addr h)"
  unfolding device_init_tables_def device_init_filters_def device_init_receive_def device_init_arbiters_def
    device_init_transmit_def device_init_reset_def Let_def
  by (intro kept [of H addr P, OF K] kept_for_range [of P] h; simp add: ixgbe_constants)+

lemma kept_disable_receive:
  assumes K: "keeps H addr P"
  shows "P h \<Longrightarrow> P (snd (device_init_disable_receive H addr queue h))"
  using K
proof (induction H addr queue h rule: device_init_disable_receive.induct)
  case (1 H addr queue h)
  note K = \<open>keeps H addr P\<close>
  show ?case
  proof (cases "queue < RECEIVE_QUEUES_COUNT")
    case True
    then have q: "reg_ok (REG_RXDCTL queue)" by (simp add: ixgbe_constants word_less_nat_alt)
    let ?h = "reg_clear_field H addr (REG_RXDCTL queue) REG_RXDCTL_ENABLE h"
    let ?poll = "if_after_timeout H (1000 * 1000)
              (\<lambda>h. let (cleared, h) = reg_is_field_cleared H addr (REG_RXDCTL queue) REG_RXDCTL_ENABLE h in (\<not> cleared, h)) ?h"
    obtain timed_out h1 where poll: "?poll = (timed_out, h1)" by (cases ?poll)
    have "P (snd ?poll)"
      by (rule kept_timeout [OF K]) (simp_all add: split_beta kept_fields [of H addr P, OF K] q "1.prems"(1))
    then have h1: "P h1" using poll by simp
    show ?thesis
    proof (cases timed_out)
      case True
      then show ?thesis
        using \<open>queue < RECEIVE_QUEUES_COUNT\<close> poll h1
        by (simp add: device_init_disable_receive.simps [of H addr queue h] fatal_def)
    next
      case False
      then have "P (snd (device_init_disable_receive H addr (queue + 1) h1))"
        using "1.IH" [OF True refl poll [symmetric] refl] h1 K by simp
      then show ?thesis
        using \<open>queue < RECEIVE_QUEUES_COUNT\<close> poll False
        by (simp add: device_init_disable_receive.simps [of H addr queue h])
    qed
  next
    case False
    then show ?thesis using "1.prems" by (simp add: device_init_disable_receive.simps)
  qed
qed

lemma kept_disable_master:
  assumes K: "keeps H addr P" and h: "P h"
  shows "P (snd (device_init_disable_master H p addr h))"
proof -
  have poll: "P (snd (if_after_timeout H (1000 * 1000)
      (\<lambda>h. let (cleared, h) = reg_is_field_cleared H addr REG_STATUS REG_STATUS_PCIE_MASTER_ENABLE_STATUS h in (\<not> cleared, h))
      (reg_set_field H addr REG_CTRL REG_CTRL_MASTER_DISABLE h)))"
    by (rule kept_timeout [OF K]) (simp_all add: split_beta kept_fields [of H addr P, OF K] h)
  show ?thesis
    unfolding device_init_disable_master_def Let_def split_beta fatal_def
    using poll kept [of H addr P, OF K] by (simp add: Let_def split_beta)
qed

lemma kept_wait:
  assumes K: "keeps H addr P" and h: "P h"
  shows "P (snd (device_init_wait H addr h))"
proof -
  note k = kept_fields [of H addr P, OF K]
  have poll: "P (snd (if_after_timeout H (1000 * 1000) (reg_is_field_cleared H addr reg field) h))"
    if "reg_ok reg" "P h" for reg field h
    by (rule kept_timeout [OF K]) (simp_all add: k that)
  show ?thesis
    unfolding device_init_wait_def Let_def split_beta fatal_def using poll h k by simp
qed

lemma kept_device_init_pci:
  assumes K: "keeps H addr P" and h: "P h"
  shows "P (snd (device_init_pci H p h))"
  unfolding device_init_pci_def Let_def split_beta fatal_def
  using h kept_access(3) [of H addr P, OF K] kept_pci [of H addr P, OF K] by simp
section \<open>The configuration of the device\<close>

text \<open>
  What the data sheet promises of the registers the driver configures: reads return the last value
  written, a software reset through \<open>CTRL.RST\<close> gives every register its default value, and
  neither sleeping nor accesses to the PCI configuration space change registers. \<open>regs\<close> is the
  register contents in a state of the outside world.
\<close>

definition card :: "'h hardware \<Rightarrow> addr \<Rightarrow> ('h \<Rightarrow> u32 \<Rightarrow> u32) \<Rightarrow> (u32 \<Rightarrow> u32) \<Rightarrow> bool" where
  "card H addr regs dflt \<longleftrightarrow>
     (\<forall>h reg. fst (hw_reg_read H (addr + unat reg) h) = regs h reg
        \<and> regs (snd (hw_reg_read H (addr + unat reg) h)) = regs h)
     \<and> (\<forall>h reg v. regs (hw_reg_write H (addr + unat reg) v h)
          = (if reg = REG_CTRL \<and> v AND REG_CTRL_RST \<noteq> 0 then dflt else (regs h)(reg := v)))
     \<and> (\<forall>h p r v. regs (snd (hw_pci_read H p r h)) = regs h \<and> regs (hw_pci_write H p r v h) = regs h)
     \<and> (\<forall>h ns. regs (hw_sleep H ns h) = regs h)"

definition table :: "(size_t \<Rightarrow> u32) \<Rightarrow> nat \<Rightarrow> nat \<Rightarrow> u32 set" where
  "table T first limit = (\<lambda>n. T (of_nat n)) ` {first ..< limit}"

text \<open>The contents of the registers after the initialisation, given the defaults.\<close>

definition device_configuration :: "(u32 \<Rightarrow> u32) \<Rightarrow> u32 \<Rightarrow> u32" where
  "device_configuration dflt r =
     (if r = REG_RTTDCS then dflt r AND NOT REG_RTTDCS_ARBDIS
      else if r = REG_DTXMXSZRQ then field_set REG_DTXMXSZRQ_MAX_BYTES_NUM_REQ 0xFFF (dflt r)
      else if r = REG_TXPBTHRESH 0 then field_set REG_TXPBTHRESH_THRESH 158 (dflt r)
      else if r \<in> table REG_TXPBSIZE 1 8 then 0
      else if r = REG_RTTDT1C then 0
      else if r = REG_RTTDQSEL then 127
      else if r = REG_FCCFG then field_set REG_FCCFG_TFCE 1 (dflt r)
      else if r = REG_MFLCN then dflt r OR REG_MFLCN_RFCE
      else if r \<in> table REG_RXPBSIZE 1 8 then 0
      else if r = REG_RDRXCTL then
        ((dflt r OR REG_RDRXCTL_CRC_STRIP) AND NOT REG_RDRXCTL_RSCFRSTSIZE) OR REG_RDRXCTL_RSCACKC OR REG_RDRXCTL_FCOE_WRFIX
      else if r \<in> table REG_FTQF 0 128 then dflt r AND NOT REG_FTQF_QUEUE_ENABLE
      else if r \<in> table REG_MTA 0 128 then 0
      else if r \<in> table REG_PFVLVFB 0 128 then 0
      else if r \<in> table REG_MPSAR 1 256 then 0
      else if r = REG_MPSAR 0 then 1
      else if r \<in> table REG_PFVLVF 0 64 then 0
      else if r \<in> table REG_PFUTA 0 128 then 0
      else if r = REG_FCRTH 0 then field_set REG_FCRTH_RTH 15616 (dflt r)
      else if r \<in> table REG_EIMC 1 3 then 0xFFFFFFFF
      else if r = REG_EIMC 0 then 0x7FFFFFFF
      else dflt r)"

lemma card_read:
  assumes "card H addr regs dflt"
  shows "fst (reg_read H addr reg h) = regs h reg" "regs (snd (reg_read H addr reg h)) = regs h"
    "regs (snd (pcireg_read H p pr h)) = regs h" "regs (hw_pci_write H p pr v h) = regs h"
    "regs (hw_sleep H ns h) = regs h"
  using assms by (simp_all add: card_def reg_read_def pcireg_read_def)

lemma card_write:
  assumes "card H addr regs dflt"
  shows "reg \<noteq> REG_CTRL \<Longrightarrow> regs (reg_write H addr reg v h) = (regs h)(reg := v)"
    "v AND REG_CTRL_RST \<noteq> 0 \<Longrightarrow> regs (reg_write H addr REG_CTRL v h) = dflt"
    "v AND REG_CTRL_RST = 0 \<Longrightarrow> regs (reg_write H addr REG_CTRL v h) = (regs h)(REG_CTRL := v)"
  using assms by (simp_all add: card_def reg_write_def reg_write_raw_def)

lemma card_fields:
  assumes C: "card H addr regs dflt" and "reg \<noteq> REG_CTRL"
  shows "regs (reg_write_field H addr reg field x h) = (regs h)(reg := field_set field x (regs h reg))"
    "regs (reg_set_field H addr reg field h) = (regs h)(reg := regs h reg OR field)"
    "regs (reg_clear_field H addr reg field h) = (regs h)(reg := regs h reg AND NOT field)"
    "regs (reg_clear H addr reg h) = (regs h)(reg := 0)"
  using assms(2)
  by (simp_all add: reg_write_field_eq reg_set_field_eq reg_clear_field_def reg_clear_def
      card_read [OF C] card_write [OF C])

lemma card_cleared:
  assumes C: "card H addr regs dflt"
  shows "fst (reg_is_field_cleared H addr reg field h) = (field_value field (regs h reg) = 0)"
    "regs (snd (reg_is_field_cleared H addr reg field h)) = regs h"
  by (simp_all add: reg_is_field_cleared_eq card_read [OF C])

lemma card_reset:
  assumes C: "card H addr regs dflt"
  shows "regs (reg_set_field H addr REG_CTRL REG_CTRL_RST h) = dflt"
proof -
  have "(v OR REG_CTRL_RST) AND REG_CTRL_RST \<noteq> 0" for v
  proof
    assume "(v OR REG_CTRL_RST) AND REG_CTRL_RST = 0"
    then have "\<not> bit ((v OR REG_CTRL_RST) AND REG_CTRL_RST) 26" by simp
    then show False by (simp only: bit_and_iff bit_or_iff REG_CTRL_RST_def bit_BIT) simp
  qed
  then show ?thesis by (simp add: reg_set_field_eq card_write [OF C] card_read [OF C])
qed

text \<open>A loop over the registers of a table does at each of them what its body does.\<close>

lemma card_table:
  assumes body: "\<And>n h. n < limit \<Longrightarrow> regs (f (of_nat n) h) = (regs h)(T (of_nat n) := g (regs h (T (of_nat n))))"
    and idem: "\<And>v. g (g v) = g v"
  shows "regs (for_range first limit f h) = (\<lambda>r. if r \<in> table T first limit then g (regs h r) else regs h r)"
proof -
  have "regs (fold (\<lambda>n. f (of_nat n)) xs h)
      = (\<lambda>r. if r \<in> (\<lambda>n. T (of_nat n)) ` set xs then g (regs h r) else regs h r)"
    if "\<forall>n \<in> set xs. n < limit" for xs
    using that
  proof (induction xs arbitrary: h)
    case Nil
    then show ?case by simp
  next
    case (Cons n xs)
    then have "regs (fold (\<lambda>n. f (of_nat n)) xs (f (of_nat n) h))
        = (\<lambda>r. if r \<in> (\<lambda>n. T (of_nat n)) ` set xs then g (regs (f (of_nat n) h) r) else regs (f (of_nat n) h) r)"
      by simp
    then show ?case using body [of n h] Cons.prems idem by (auto simp: fun_eq_iff)
  qed
  then show ?thesis by (simp add: for_range_def table_def)
qed

text \<open>The ranges of the tables.\<close>

lemma in_table_range:
  assumes T: "\<And>n. first \<le> n \<Longrightarrow> n < limit \<Longrightarrow> unat (T (of_nat n)) = b + 4 * n"
  shows "r \<in> table T first limit \<longleftrightarrow> b + 4 * first \<le> unat r \<and> unat r < b + 4 * limit \<and> 4 dvd (unat r - b)"
proof
  assume "r \<in> table T first limit"
  then obtain n where n: "first \<le> n" "n < limit" "r = T (of_nat n)" by (auto simp: table_def)
  then have "unat r = b + 4 * n" using T [of n] by simp
  with n show "b + 4 * first \<le> unat r \<and> unat r < b + 4 * limit \<and> 4 dvd (unat r - b)" by simp
next
  assume r: "b + 4 * first \<le> unat r \<and> unat r < b + 4 * limit \<and> 4 dvd (unat r - b)"
  then obtain n where n: "unat r - b = 4 * n" by (auto elim: dvdE)
  then have "first \<le> n" "n < limit" "unat r = b + 4 * n" using r by linarith+
  then have "r = T (of_nat n)" using T [of n] by (simp add: word_unat_eq_iff)
  then show "r \<in> table T first limit" using \<open>first \<le> n\<close> \<open>n < limit\<close> by (auto simp: table_def)
qed

lemma single_registers [simp]:
  "REG_RTTDCS \<noteq> REG_CTRL" "REG_DTXMXSZRQ \<noteq> REG_CTRL" "REG_RTTDT1C \<noteq> REG_CTRL" "REG_RTTDQSEL \<noteq> REG_CTRL"
  "REG_FCCFG \<noteq> REG_CTRL" "REG_MFLCN \<noteq> REG_CTRL" "REG_RDRXCTL \<noteq> REG_CTRL" "REG_STATUS \<noteq> REG_CTRL"
  "REG_TXPBTHRESH 0 \<noteq> REG_CTRL" "REG_FCRTH 0 \<noteq> REG_CTRL" "REG_MPSAR 0 \<noteq> REG_CTRL" "REG_EIMC 0 \<noteq> REG_CTRL"
  by (simp_all add: ixgbe_regs)

lemma nonzero_register: "0 < unat r \<Longrightarrow> r \<noteq> REG_CTRL"
  by (auto simp: REG_CTRL_def)

lemma table_registers [simp]:
  assumes "unat n < 256"
  shows "REG_PFUTA n \<noteq> REG_CTRL" "REG_PFVLVF n \<noteq> REG_CTRL" "REG_MPSAR n \<noteq> REG_CTRL" "REG_PFVLVFB n \<noteq> REG_CTRL"
    "REG_MTA n \<noteq> REG_CTRL" "REG_FTQF n \<noteq> REG_CTRL" "REG_RXPBSIZE n \<noteq> REG_CTRL" "REG_TXPBSIZE n \<noteq> REG_CTRL"
  by (rule nonzero_register, simp add: unat_tables [OF assms])+

lemma table_clear:
  assumes C: "card H addr regs dflt" and "limit \<le> 256" "\<And>n. unat n < 256 \<Longrightarrow> T n \<noteq> REG_CTRL"
  shows "regs (for_range first limit (\<lambda>n. reg_clear H addr (T n)) h)
    = (\<lambda>r. if r \<in> table T first limit then 0 else regs h r)"
proof (rule card_table [where g = "\<lambda>v. 0"])
  fix n h assume "n < limit"
  then have "T (of_nat n) \<noteq> REG_CTRL" using assms(2) assms(3) [of "of_nat n"] by simp
  then show "regs (reg_clear H addr (T (of_nat n)) h) = (regs h)(T (of_nat n) := 0)"
    by (rule card_fields(4) [OF C])
qed simp

lemma EIMC_register: "0 < unat n \<Longrightarrow> unat n < 3 \<Longrightarrow> unat (REG_EIMC n) = 0xAAC + 4 * unat n"
proof -
  assume n: "0 < unat n" "unat n < 3"
  then have "unat (n - 1) = unat n - 1" using unat_pred_word [of n] by (simp add: word_less_nat_alt)
  with n show ?thesis
    using unat_indexed_register [of "0xAB0" 4 "n - 1"] by (auto simp: REG_EIMC_def)
qed

lemma transmit_configured:
  assumes C: "card H addr regs dflt"
  shows "regs (device_init_transmit H addr h) r =
     (if r = REG_RTTDCS then regs h r AND NOT REG_RTTDCS_ARBDIS
      else if r = REG_DTXMXSZRQ then field_set REG_DTXMXSZRQ_MAX_BYTES_NUM_REQ 0xFFF (regs h r)
      else if r = REG_TXPBTHRESH 0 then field_set REG_TXPBTHRESH_THRESH 158 (regs h r)
      else if r \<in> table REG_TXPBSIZE 1 8 then 0 else regs h r)"
proof -
  have bits: "(v OR b) AND NOT b = v AND NOT b" for v b :: u32 by (rule bit_word_eqI) (auto simp: bit_simps)
  have distinct: "REG_RTTDCS \<noteq> REG_DTXMXSZRQ" "REG_RTTDCS \<noteq> REG_TXPBTHRESH 0" "REG_DTXMXSZRQ \<noteq> REG_TXPBTHRESH 0"
    by (simp_all add: ixgbe_regs)
  have range: "r \<in> table REG_TXPBSIZE 1 8 \<longleftrightarrow> 0xCC00 + 4 * 1 \<le> unat r \<and> unat r < 0xCC00 + 4 * 8 \<and> 4 dvd (unat r - 0xCC00)" for r
    by (rule in_table_range) (simp add: unat_tables)
  have outside: "REG_RTTDCS \<notin> table REG_TXPBSIZE 1 8" "REG_DTXMXSZRQ \<notin> table REG_TXPBSIZE 1 8"
    "REG_TXPBTHRESH 0 \<notin> table REG_TXPBSIZE 1 8"
    unfolding range by (simp_all add: ixgbe_regs)
  show ?thesis
    using distinct outside
    by (simp add: device_init_transmit_def Let_def card_fields [OF C] table_clear [OF C] ixgbe_constants bits)
qed

lemma arbiters_configured:
  assumes C: "card H addr regs dflt"
  shows "regs (device_init_arbiters H addr h) r =
     (if r = REG_RTTDT1C then 0 else if r = REG_RTTDQSEL then 127
      else if r = REG_FCCFG then field_set REG_FCCFG_TFCE 1 (regs h r) else regs h r)"
proof -
  have distinct: "REG_RTTDT1C \<noteq> REG_RTTDQSEL" "REG_FCCFG \<noteq> REG_RTTDQSEL" "REG_FCCFG \<noteq> REG_RTTDT1C"
    by (simp_all add: ixgbe_regs)
  let ?f = "\<lambda>n h. reg_clear H addr REG_RTTDT1C (reg_write H addr REG_RTTDQSEL (ucast (n :: size_t)) h)"
  have "regs (for_range 0 (Suc k) ?f h) = (regs h)(REG_RTTDQSEL := of_nat k, REG_RTTDT1C := 0)" if "k < 256" for k h
    using that
  proof (induction k)
    case 0
    then show ?case by (simp add: for_range_def card_fields [OF C] card_write [OF C] fun_eq_iff)
  next
    case (Suc k)
    have snoc: "for_range 0 (Suc (Suc k)) ?f h = ?f (of_nat (Suc k)) (for_range 0 (Suc k) ?f h)"
      by (simp add: for_range_def)
    have cast: "ucast (of_nat (Suc k) :: size_t) = (of_nat (Suc k) :: u32)"
      using Suc.prems by (simp add: word_unat_eq_iff unsigned_ucast_eq unat_of_nat_less take_bit_nat_eq_self del: of_nat_Suc)
    show ?case
      unfolding snoc card_fields [OF C single_registers(3)] card_write(1) [OF C single_registers(4)] cast
      using Suc distinct by (simp add: fun_eq_iff del: of_nat_Suc)
  qed
  from this [of 127] show ?thesis
    using distinct by (simp add: device_init_arbiters_def Let_def ixgbe_constants card_fields [OF C])
qed

lemma receive_configured:
  assumes C: "card H addr regs dflt"
  shows "regs (device_init_receive H addr h) r =
     (if r = REG_MFLCN then regs h r OR REG_MFLCN_RFCE
      else if r \<in> table REG_RXPBSIZE 1 8 then 0
      else if r = REG_RDRXCTL then
        ((regs h r OR REG_RDRXCTL_CRC_STRIP) AND NOT REG_RDRXCTL_RSCFRSTSIZE) OR REG_RDRXCTL_RSCACKC OR REG_RDRXCTL_FCOE_WRFIX
      else regs h r)"
proof -
  have distinct: "REG_MFLCN \<noteq> REG_RDRXCTL" by (simp add: ixgbe_regs)
  have range: "r \<in> table REG_RXPBSIZE 1 8 \<longleftrightarrow> 0x3C00 + 4 * 1 \<le> unat r \<and> unat r < 0x3C00 + 4 * 8 \<and> 4 dvd (unat r - 0x3C00)" for r
    by (rule in_table_range) (simp add: unat_tables)
  have outside: "REG_MFLCN \<notin> table REG_RXPBSIZE 1 8" unfolding range by (simp add: ixgbe_regs)
  show ?thesis
    using distinct outside
    by (simp add: device_init_receive_def Let_def card_fields [OF C] table_clear [OF C] ixgbe_constants or.assoc)
qed

lemma filters_configured:
  assumes C: "card H addr regs dflt"
  shows "regs (device_init_filters H addr h) r =
     (if r \<in> table REG_FTQF 0 128 then regs h r AND NOT REG_FTQF_QUEUE_ENABLE else regs h r)"
proof -
  have "regs (for_range 0 128 (\<lambda>n. reg_clear_field H addr (REG_FTQF n) REG_FTQF_QUEUE_ENABLE) h)
    = (\<lambda>r. if r \<in> table REG_FTQF 0 128 then regs h r AND NOT REG_FTQF_QUEUE_ENABLE else regs h r)"
    by (rule card_table) (simp_all add: card_fields [OF C] and.assoc fun_eq_iff)
  then show ?thesis by (simp add: device_init_filters_def ixgbe_constants)
qed

lemma tables_configured:
  assumes C: "card H addr regs dflt"
  shows "regs (device_init_tables H addr h) r =
     (if r \<in> table REG_MTA 0 128 then 0
      else if r \<in> table REG_PFVLVFB 0 128 then 0
      else if r \<in> table REG_MPSAR 1 256 then 0
      else if r = REG_MPSAR 0 then 1
      else if r \<in> table REG_PFVLVF 0 64 then 0
      else if r \<in> table REG_PFUTA 0 128 then 0 else regs h r)"
  by (simp add: device_init_tables_def Let_def ixgbe_constants table_clear [OF C] card_write [OF C])

lemma reset_configured:
  assumes C: "card H addr regs dflt"
  shows "regs (device_init_reset H addr h) r =
     (if r = REG_FCRTH 0 then field_set REG_FCRTH_RTH 15616 (dflt r)
      else if r \<in> table REG_EIMC 1 3 then 0xFFFFFFFF
      else if r = REG_EIMC 0 then 0x7FFFFFFF else dflt r)"
proof -
  have range: "r \<in> table REG_EIMC 1 3 \<longleftrightarrow> 0xAAC + 4 * 1 \<le> unat r \<and> unat r < 0xAAC + 4 * 3 \<and> 4 dvd (unat r - 0xAAC)" for r
    by (rule in_table_range) (simp add: EIMC_register)
  have outside: "REG_FCRTH 0 \<notin> table REG_EIMC 1 3" unfolding range by (simp add: ixgbe_regs)
  have distinct: "REG_FCRTH 0 \<noteq> REG_EIMC 0" by (simp add: ixgbe_regs)
  have "REG_EIMC (of_nat n) \<noteq> REG_CTRL" if "n < 3" for n
  proof (cases "n = 0")
    case False
    then show ?thesis using that EIMC_register [of "of_nat n"] by (intro nonzero_register) simp
  qed simp
  then have each: "regs (reg_write H addr (REG_EIMC (of_nat n)) v h) = (regs h)(REG_EIMC (of_nat n) := v)" if "n < 3" for n v h
    using that by (simp add: card_write [OF C])
  have "regs (for_range 1 3 (\<lambda>n. reg_write H addr (REG_EIMC n) 0xFFFFFFFF) h)
    = (\<lambda>r. if r \<in> table REG_EIMC 1 3 then 0xFFFFFFFF else regs h r)" for h
    by (rule card_table [where g = "\<lambda>v. 0xFFFFFFFF"]) (simp_all add: each fun_eq_iff)
  then show ?thesis
    using outside distinct
    by (simp add: device_init_reset_def Let_def ixgbe_constants card_fields [OF C] card_write [OF C] card_read [OF C]
        card_reset [OF C])
qed

text \<open>A condition that does not hold at the first poll ends the wait at once.\<close>

lemma no_timeout:
  assumes "\<not> fst (condition (hw_sleep H (t mod 10 * 1000) h))"
  shows "if_after_timeout H t condition h = (False, snd (condition (hw_sleep H (t mod 10 * 1000) h)))"
  using assms by (simp add: if_after_timeout_def timeout_poll.simps split_beta)

lemma wait_configured:
  assumes C: "card H addr regs dflt"
    and "field_value REG_EEC_AUTO_RD (regs h REG_EEC) \<noteq> 0" "field_value REG_EEC_EE_PRES (regs h REG_EEC) \<noteq> 0"
    "field_value REG_FWSM_EXT_ERR_IND (regs h REG_FWSM) = 0" "field_value REG_RDRXCTL_DMAIDONE (regs h REG_RDRXCTL) \<noteq> 0"
  shows "\<exists>h'. device_init_wait H addr h = (Inr (), h') \<and> regs h' = regs h"
  using assms(2-5)
  by (simp add: device_init_wait_def Let_def split_beta no_timeout card_cleared [OF C] card_read [OF C])

lemma field_value_cleared: "field_value REG_RXDCTL_ENABLE (v AND NOT REG_RXDCTL_ENABLE) = 0"
proof -
  have "field_value (BITS 25 25) (v AND NOT (BITS 25 25)) = 0"
    by (subst field_value_zero_iff) (simp_all add: and.assoc)
  then show ?thesis by (simp add: REG_RXDCTL_ENABLE_def BIT_as_BITS)
qed

lemma disable_receive_configured:
  assumes C: "card H addr regs dflt"
  shows "\<exists>h'. device_init_disable_receive H addr queue h = (Inr (), h')
    \<and> regs h' REG_STATUS = regs h REG_STATUS \<and> regs h' REG_CTRL = regs h REG_CTRL"
  using C
proof (induction H addr queue h rule: device_init_disable_receive.induct)
  case (1 H addr queue h)
  note C = \<open>card H addr regs dflt\<close>
  show ?case
  proof (cases "queue < RECEIVE_QUEUES_COUNT")
    case True
    then have q: "unat queue < 128" by (simp add: ixgbe_constants word_less_nat_alt)
    have ne: "REG_RXDCTL queue \<noteq> REG_CTRL" "REG_RXDCTL queue \<noteq> REG_STATUS"
    proof -
      have "0x1028 \<le> unat (REG_RXDCTL queue)" by (simp add: unat_queues [OF q])
      then show "REG_RXDCTL queue \<noteq> REG_CTRL" "REG_RXDCTL queue \<noteq> REG_STATUS" by (auto simp: ixgbe_regs)
    qed
    let ?condition = "\<lambda>h. let (cleared, h) = reg_is_field_cleared H addr (REG_RXDCTL queue) REG_RXDCTL_ENABLE h in (\<not> cleared, h)"
    let ?h = "reg_clear_field H addr (REG_RXDCTL queue) REG_RXDCTL_ENABLE h"
    let ?h1 = "snd (?condition (hw_sleep H 0 ?h))"
    have poll: "if_after_timeout H (1000 * 1000) ?condition ?h = (False, ?h1)"
      using no_timeout [of ?condition H "1000 * 1000" ?h]
      by (simp add: split_beta card_cleared [OF C] card_read [OF C] card_fields [OF C ne(1)] field_value_cleared)
    have h1: "regs ?h1 REG_STATUS = regs h REG_STATUS" "regs ?h1 REG_CTRL = regs h REG_CTRL"
      using ne by (simp_all add: split_beta card_cleared [OF C] card_read [OF C] card_fields [OF C ne(1)])
    obtain h' where "device_init_disable_receive H addr (queue + 1) ?h1 = (Inr (), h')" "regs h' REG_STATUS = regs ?h1 REG_STATUS"
      "regs h' REG_CTRL = regs ?h1 REG_CTRL"
      using "1.IH" [OF True refl poll [symmetric] refl _ C] by blast
    then show ?thesis
      using True poll h1 by (simp add: device_init_disable_receive.simps [of H addr queue h])
  next
    case False
    then show ?thesis by (simp add: device_init_disable_receive.simps)
  qed
qed

lemma disable_master_configured:
  assumes C: "card H addr regs dflt" and "field_value REG_STATUS_PCIE_MASTER_ENABLE_STATUS (regs h REG_STATUS) = 0"
    "regs h REG_CTRL AND REG_CTRL_RST = 0"
  shows "\<exists>h'. device_init_disable_master H p addr h = (Inr (), h')"
proof -
  have "(v OR REG_CTRL_MASTER_DISABLE) AND REG_CTRL_RST = v AND REG_CTRL_RST" for v
    by (rule bit_word_eqI) (auto simp: bit_simps REG_CTRL_MASTER_DISABLE_def REG_CTRL_RST_def)
  then have "regs (reg_set_field H addr REG_CTRL REG_CTRL_MASTER_DISABLE h) REG_STATUS = regs h REG_STATUS"
    using assms(3) by (simp add: reg_set_field_eq card_read [OF C] card_write(3) [OF C])
  then show ?thesis
    using assms(2)
    by (simp add: device_init_disable_master_def Let_def split_beta no_timeout card_cleared [OF C] card_read [OF C])
qed


text \<open>
  The PCI configuration space of an 82599 in state D0 with a 64-bit base address register; only
  the command register changes.
\<close>

definition pci_ready :: "'h hardware \<Rightarrow> os_pci_address \<Rightarrow> (byte \<Rightarrow> u32) \<Rightarrow> bool" where
  "pci_ready H p pci \<longleftrightarrow>
     (\<forall>r h. r \<noteq> PCIREG_COMMAND \<longrightarrow> fst (hw_pci_read H p r h) = pci r)
     \<and> pci PCIREG_ID = 0x10FB8086 \<and> pci PCIREG_PMCSR AND PCIREG_PMCSR_POWER_STATE = 0
     \<and> pci PCIREG_BAR0_LOW AND BIT 2 \<noteq> 0 \<and> pci PCIREG_BAR0_LOW AND BIT 1 = 0"

definition bar0_address :: "(byte \<Rightarrow> u32) \<Rightarrow> u64" where
  "bar0_address pci = push_bit 32 (ucast (pci PCIREG_BAR0_HIGH)) OR ucast (pci PCIREG_BAR0_LOW AND NOT (BITS 0 3))"

lemma pci_configured:
  assumes C: "card H addr regs dflt" and "pci_ready H p pci"
  shows "\<exists>h'. device_init_pci H p h = (Inr (bar0_address pci), h') \<and> regs h' = regs h"
proof -
  have read: "fst (pcireg_read H p PCIREG_ID h) = 0x10FB8086" "fst (pcireg_read H p PCIREG_PMCSR h) = pci PCIREG_PMCSR"
    "fst (pcireg_read H p PCIREG_BAR0_LOW h) = pci PCIREG_BAR0_LOW"
    "fst (pcireg_read H p PCIREG_BAR0_HIGH h) = pci PCIREG_BAR0_HIGH" for h
    using assms(2) by (simp_all add: pci_ready_def pcireg_read_def ixgbe_regs)
  have ident: "push_bit 16 0x10FB OR 0x8086 = (0x10FB8086 :: u32)" by simp
  have bits: "pci PCIREG_PMCSR AND PCIREG_PMCSR_POWER_STATE = 0" "pci PCIREG_BAR0_LOW AND BIT 2 \<noteq> 0"
    "pci PCIREG_BAR0_LOW AND BIT 1 = 0"
    using assms(2) by (simp_all add: pci_ready_def)
  have "fst (device_init_pci H p h) = Inr (bar0_address pci)"
    unfolding device_init_pci_def pcireg_is_field_cleared_def pcireg_set_field_def Let_def split_beta fst_conv snd_conv
      read ident bits(1)
    using bits(2,3) by (simp add: bar0_address_def read)
  moreover have "regs (snd (device_init_pci H p h)) = regs h"
    by (simp add: device_init_pci_def pcireg_is_field_cleared_def pcireg_set_field_def Let_def split_beta fatal_def
        card_read [OF C])
  ultimately show ?thesis by (metis prod.collapse)
qed

lemma wait_defaults:
  "r \<in> {REG_EEC, REG_FWSM, REG_RDRXCTL} \<Longrightarrow> r \<noteq> REG_FCRTH 0 \<and> r \<notin> table REG_EIMC 1 3 \<and> r \<noteq> REG_EIMC 0"
proof -
  assume r: "r \<in> {REG_EEC, REG_FWSM, REG_RDRXCTL}"
  have range: "r \<in> table REG_EIMC 1 3 \<longleftrightarrow> 0xAAC + 4 * 1 \<le> unat r \<and> unat r < 0xAAC + 4 * 3 \<and> 4 dvd (unat r - 0xAAC)" for r
    by (rule in_table_range) (simp add: EIMC_register)
  show ?thesis using r unfolding range by (auto simp: ixgbe_regs)
qed

lemma table_ranges:
  "r \<in> table REG_TXPBSIZE 1 8 \<longleftrightarrow> 0xCC00 + 4 * 1 \<le> unat r \<and> unat r < 0xCC00 + 4 * 8 \<and> 4 dvd (unat r - 0xCC00)"
  "r \<in> table REG_RXPBSIZE 1 8 \<longleftrightarrow> 0x3C00 + 4 * 1 \<le> unat r \<and> unat r < 0x3C00 + 4 * 8 \<and> 4 dvd (unat r - 0x3C00)"
  "r \<in> table REG_FTQF 0 128 \<longleftrightarrow> 0xE600 + 4 * 0 \<le> unat r \<and> unat r < 0xE600 + 4 * 128 \<and> 4 dvd (unat r - 0xE600)"
  "r \<in> table REG_MTA 0 128 \<longleftrightarrow> 0x5200 + 4 * 0 \<le> unat r \<and> unat r < 0x5200 + 4 * 128 \<and> 4 dvd (unat r - 0x5200)"
  "r \<in> table REG_PFVLVFB 0 128 \<longleftrightarrow> 0xF200 + 4 * 0 \<le> unat r \<and> unat r < 0xF200 + 4 * 128 \<and> 4 dvd (unat r - 0xF200)"
  "r \<in> table REG_MPSAR 1 256 \<longleftrightarrow> 0xA600 + 4 * 1 \<le> unat r \<and> unat r < 0xA600 + 4 * 256 \<and> 4 dvd (unat r - 0xA600)"
  "r \<in> table REG_PFVLVF 0 64 \<longleftrightarrow> 0xF100 + 4 * 0 \<le> unat r \<and> unat r < 0xF100 + 4 * 64 \<and> 4 dvd (unat r - 0xF100)"
  "r \<in> table REG_PFUTA 0 128 \<longleftrightarrow> 0xF400 + 4 * 0 \<le> unat r \<and> unat r < 0xF400 + 4 * 128 \<and> 4 dvd (unat r - 0xF400)"
  "r \<in> table REG_EIMC 1 3 \<longleftrightarrow> 0xAAC + 4 * 1 \<le> unat r \<and> unat r < 0xAAC + 4 * 3 \<and> 4 dvd (unat r - 0xAAC)"
  by (rule in_table_range, simp add: unat_tables EIMC_register)+

lemma phases_configured:
  assumes C: "card H addr regs dflt"
    and h: "\<And>r. regs h r = (if r = REG_FCRTH 0 then field_set REG_FCRTH_RTH 15616 (dflt r)
      else if r \<in> table REG_EIMC 1 3 then 0xFFFFFFFF
      else if r = REG_EIMC 0 then 0x7FFFFFFF else dflt r)"
  shows "regs (device_init_transmit H addr (device_init_arbiters H addr (device_init_receive H addr
      (device_init_filters H addr (device_init_tables H addr h))))) r = device_configuration dflt r"
proof -
  have outside: "q \<notin> \<Union> {table REG_TXPBSIZE 1 8, table REG_RXPBSIZE 1 8, table REG_FTQF 0 128, table REG_MTA 0 128,
    table REG_PFVLVFB 0 128, table REG_MPSAR 1 256, table REG_PFVLVF 0 64, table REG_PFUTA 0 128, table REG_EIMC 1 3}"
    if "q \<in> {REG_RTTDCS, REG_DTXMXSZRQ, REG_TXPBTHRESH 0, REG_RTTDT1C, REG_RTTDQSEL, REG_FCCFG, REG_MFLCN, REG_RDRXCTL,
      REG_MPSAR 0, REG_FCRTH 0, REG_EIMC 0}" for q
    using that by (auto simp: table_ranges ixgbe_regs simp del: One_nat_def)
  have filters: "r \<notin> \<Union> {table REG_TXPBSIZE 1 8, table REG_RXPBSIZE 1 8, table REG_MTA 0 128, table REG_PFVLVFB 0 128,
      table REG_MPSAR 1 256, table REG_PFVLVF 0 64, table REG_PFUTA 0 128, table REG_EIMC 1 3}"
    "r \<notin> {REG_RTTDCS, REG_DTXMXSZRQ, REG_TXPBTHRESH 0, REG_RTTDT1C, REG_RTTDQSEL, REG_FCCFG, REG_MFLCN, REG_RDRXCTL,
      REG_MPSAR 0, REG_FCRTH 0, REG_EIMC 0}"
    if "r \<in> table REG_FTQF 0 128"
  proof -
    have range: "0xE600 \<le> unat r" "unat r < 0xE800" using that unfolding table_ranges by simp_all
    then show "r \<notin> {REG_RTTDCS, REG_DTXMXSZRQ, REG_TXPBTHRESH 0, REG_RTTDT1C, REG_RTTDQSEL, REG_FCCFG, REG_MFLCN, REG_RDRXCTL,
      REG_MPSAR 0, REG_FCRTH 0, REG_EIMC 0}" by (auto simp: ixgbe_regs)
    show "r \<notin> \<Union> {table REG_TXPBSIZE 1 8, table REG_RXPBSIZE 1 8, table REG_MTA 0 128, table REG_PFVLVFB 0 128,
      table REG_MPSAR 1 256, table REG_PFVLVF 0 64, table REG_PFUTA 0 128, table REG_EIMC 1 3}"
      using range by (simp add: table_ranges del: One_nat_def)
  qed
  note phases = transmit_configured [OF C] arbiters_configured [OF C] receive_configured [OF C]
    filters_configured [OF C] tables_configured [OF C]
  consider "r \<in> table REG_FTQF 0 128"
    | "r \<in> {REG_RTTDCS, REG_DTXMXSZRQ, REG_TXPBTHRESH 0, REG_RTTDT1C, REG_RTTDQSEL, REG_FCCFG, REG_MFLCN, REG_RDRXCTL,
      REG_MPSAR 0, REG_FCRTH 0, REG_EIMC 0}"
    | "r \<notin> table REG_FTQF 0 128" "r \<notin> {REG_RTTDCS, REG_DTXMXSZRQ, REG_TXPBTHRESH 0, REG_RTTDT1C, REG_RTTDQSEL, REG_FCCFG,
      REG_MFLCN, REG_RDRXCTL, REG_MPSAR 0, REG_FCRTH 0, REG_EIMC 0}"
    by blast
  then show ?thesis
  proof cases
    case 1
    from 1 filters [OF 1] show ?thesis by (simp add: phases h device_configuration_def del: One_nat_def)
  next
    case 2
    from outside [OF 2] have out: "r \<notin> table REG_TXPBSIZE 1 8" "r \<notin> table REG_RXPBSIZE 1 8" "r \<notin> table REG_FTQF 0 128"
      "r \<notin> table REG_MTA 0 128" "r \<notin> table REG_PFVLVFB 0 128" "r \<notin> table REG_MPSAR 1 256" "r \<notin> table REG_PFVLVF 0 64"
      "r \<notin> table REG_PFUTA 0 128" "r \<notin> table REG_EIMC 1 3"
      by simp_all
    from 2 show ?thesis
      by (elim insertE emptyE; use out in \<open>simp add: phases h device_configuration_def ixgbe_regs del: One_nat_def\<close>)
  next
    case 3
    then show ?thesis by (simp add: phases h device_configuration_def del: One_nat_def)
  qed
qed

section \<open>Properties\<close>

text \<open>Hardware that also records the addresses of the register accesses, latest first.\<close>

definition traced :: "'h hardware \<Rightarrow> ('h \<times> addr list) hardware" where
  "traced H = \<lparr>
     hw_reg_read = (\<lambda>a s. let (v, h) = hw_reg_read H a (fst s) in (v, (h, a # snd s))),
     hw_reg_write = (\<lambda>a v s. (hw_reg_write H a v (fst s), a # snd s)),
     hw_pci_read = (\<lambda>p r s. let (v, h) = hw_pci_read H p r (fst s) in (v, (h, snd s))),
     hw_pci_write = (\<lambda>p r v s. (hw_pci_write H p r v (fst s), snd s)),
     hw_sleep = (\<lambda>ns s. (hw_sleep H ns (fst s), snd s)),
     hw_phys_to_virt = hw_phys_to_virt H, hw_virt_to_phys = hw_virt_to_phys H\<rparr>"

definition accesses_within :: "addr \<Rightarrow> addr list \<Rightarrow> bool" where
  "accesses_within base tr \<longleftrightarrow> (\<forall>a \<in> set tr. base \<le> a \<and> a + 4 \<le> base + 128 * 1024 \<and> 4 dvd (a - base))"

lemma keeps_traced: "keeps (traced H) base (\<lambda>s. accesses_within base (snd s))"
  by (auto simp: keeps_def traced_def accesses_within_def reg_ok_def Let_def split_beta)

lemma tn_device_init_cases:
  obtains message where "tn_device_init H p d h = (Inl message, snd (device_init_pci H p h))"
  | phys where "fst (device_init_pci H p h) = Inr phys"
      "\<And>P. keeps H (hw_phys_to_virt H phys (128 * 1024)) P \<Longrightarrow> P h \<Longrightarrow> P (snd (tn_device_init H p d h))"
      "\<And>d'. fst (tn_device_init H p d h) = Inr d' \<Longrightarrow> dev_addr d' = hw_phys_to_virt H phys (128 * 1024)"
proof (cases "fst (device_init_pci H p h)")
  case (Inl message)
  then have "tn_device_init H p d h = (Inl message, snd (device_init_pci H p h))"
    by (simp add: tn_device_init_def and_then_def split_beta)
  then show thesis by (rule that(1))
next
  case (Inr phys)
  let ?addr = "hw_phys_to_virt H phys (128 * 1024)"
  have "P (snd (tn_device_init H p d h))" if K: "keeps H ?addr P" and h: "P h" for P
  proof -
    note keep = kept_tables [of H ?addr P, OF K] kept_wait [of H ?addr P, OF K]
      kept_disable_receive [of H ?addr P, OF K] kept_disable_master [of H ?addr P, OF K]
      kept_device_init_pci [of H ?addr P, OF K]
    show ?thesis
      using Inr h by (auto simp: tn_device_init_def and_then_def split_beta Let_def keep [simplified] split: sum.split)
  qed
  moreover have "dev_addr d' = ?addr" if "fst (tn_device_init H p d h) = Inr d'" for d'
    using that Inr
    by (auto simp: tn_device_init_def and_then_def split_beta Let_def split: sum.splits)
  ultimately show thesis using Inr by (intro that(2)) blast+
qed

text \<open>
  C34: Whatever the hardware answers, the initialisation of a device only accesses registers that
  lie, aligned, in the 128 KB it has mapped, and a device that is initialised successfully has the
  address of that mapping. So do the later operations on the device.
\<close>

theorem device_accesses_in_bounds:
  "(\<exists>phys. accesses_within (hw_phys_to_virt H phys (128 * 1024)) (snd (snd (tn_device_init (traced H) p d (h, []))))
      \<and> (case fst (tn_device_init (traced H) p d (h, [])) of Inl failure \<Rightarrow> True | Inr d' \<Rightarrow> dev_addr d' = hw_phys_to_virt H phys (128 * 1024)))
   \<and> accesses_within (dev_addr d) (snd (tn_device_set_promiscuous (traced H) d (h, [])))
   \<and> accesses_within (dev_addr d) (snd (snd (tn_device_get_mac (traced H) d (h, []))))"
proof (intro conjI)
  have none: "accesses_within base []" for base by (simp add: accesses_within_def)
  have virt: "hw_phys_to_virt (traced H) = hw_phys_to_virt H" by (simp add: traced_def)
  let ?Q = "\<lambda>base s. accesses_within base (snd s)"
  show "\<exists>phys. accesses_within (hw_phys_to_virt H phys (128 * 1024)) (snd (snd (tn_device_init (traced H) p d (h, []))))
      \<and> (case fst (tn_device_init (traced H) p d (h, [])) of Inl failure \<Rightarrow> True | Inr d' \<Rightarrow> dev_addr d' = hw_phys_to_virt H phys (128 * 1024))"
  proof (cases rule: tn_device_init_cases [of "traced H" p d "(h, [])"])
    case (1 message)
    have "?Q (hw_phys_to_virt H 0 (128 * 1024)) (snd (device_init_pci (traced H) p (h, [])))"
      by (rule kept_device_init_pci [OF keeps_traced]) (simp add: none)
    with 1 show ?thesis by auto
  next
    case (2 phys)
    have "?Q (hw_phys_to_virt H phys (128 * 1024)) (snd (tn_device_init (traced H) p d (h, [])))"
      by (rule 2(2)) (simp_all add: virt keeps_traced none)
    with 2(3) show ?thesis by (auto simp: virt split: sum.split)
  qed
  note k = kept_fields [OF keeps_traced [of H "dev_addr d"]] kept_access [OF keeps_traced [of H "dev_addr d"]]
  show "accesses_within (dev_addr d) (snd (tn_device_set_promiscuous (traced H) d (h, [])))"
    by (simp add: tn_device_set_promiscuous_def Let_def split_beta k none)
  show "accesses_within (dev_addr d) (snd (snd (tn_device_get_mac (traced H) d (h, []))))"
    by (simp add: tn_device_get_mac_def Let_def split_beta k none)
qed


text \<open>A card at the physical address \<open>0xFE000000\<close> in a machine that maps addresses one to one.\<close>

definition example_defaults :: "u32 \<Rightarrow> u32" where
  "example_defaults r =
     (if r = REG_EEC then BIT 8 OR BIT 9 else if r = REG_RDRXCTL then BIT 3 else if r = REG_RXPBSIZE 1 then 0x80000 else 0)"

definition example_pci :: "byte \<Rightarrow> u32" where
  "example_pci r = (if r = PCIREG_ID then 0x10FB8086 else if r = PCIREG_BAR0_LOW then 0xFE000004 else 0)"

definition example_card :: "(u32 \<Rightarrow> u32) hardware" where
  "example_card = \<lparr>
     hw_reg_read = (\<lambda>a h. (h (of_nat (a - 0xFE000000)), h)),
     hw_reg_write = (\<lambda>a v h. if of_nat (a - 0xFE000000) = REG_CTRL \<and> v AND REG_CTRL_RST \<noteq> 0 then example_defaults
                              else h(of_nat (a - 0xFE000000) := v)),
     hw_pci_read = (\<lambda>p r h. (example_pci r, h)), hw_pci_write = (\<lambda>p r v h. h), hw_sleep = (\<lambda>ns h. h),
     hw_phys_to_virt = (\<lambda>a n. unat a), hw_virt_to_phys = of_nat\<rparr>"

lemma example_card_ok: "card example_card 0xFE000000 (\<lambda>h. h) example_defaults" "pci_ready example_card p example_pci"
  by (simp_all add: card_def pci_ready_def example_card_def example_pci_def PCIREG_ID_def PCIREG_PMCSR_def
      PCIREG_BAR0_LOW_def BIT_def)


text \<open>
  A PCI device that is not an 82599, one that is not in state D0 and one without a 64-bit base
  address register are rejected, with the message of the code: the first two before anything is
  written to the device, the last before any of its registers is accessed.
\<close>

theorem device_init_rejects:
  assumes "\<And>r h. fst (hw_pci_read H p r h) = pci r" "\<And>r h. snd (hw_pci_read H p r h) = h"
  shows "(pci PCIREG_ID \<noteq> 0x10FB8086 \<longrightarrow> tn_device_init H p d h = (Inl (Fatal ''PCI device is not what was expected''), h))
    \<and> (pci PCIREG_ID = 0x10FB8086 \<and> pci PCIREG_PMCSR AND BITS 0 1 \<noteq> 0 \<longrightarrow>
         tn_device_init H p d h = (Inl (Fatal ''PCI device not in D0.''), h))
    \<and> (pci PCIREG_ID = 0x10FB8086 \<and> pci PCIREG_PMCSR AND BITS 0 1 = 0 \<and> (\<not> bit (pci PCIREG_BAR0_LOW) 2 \<or> bit (pci PCIREG_BAR0_LOW) 1) \<longrightarrow>
         tn_device_init H p d h = (Inl (Fatal ''BAR0 is not a 64-bit BAR''),
           hw_pci_write H p 4 (pci 4 OR BIT 10) (hw_pci_write H p 4 (pci 4 OR BIT 1) (hw_pci_write H p 4 (pci 4 OR BIT 2) h))))"
proof -
  have ident: "push_bit 16 0x10FB OR 0x8086 = (0x10FB8086 :: u32)" by simp
  have test: "v AND BIT n = 0 \<longleftrightarrow> \<not> bit v n" if "n < 32" for v n
    using that by (simp only: zero_iff_no_bit bit_and_iff bit_BIT) blast
  show ?thesis
    using assms
    by (simp add: tn_device_init_def device_init_pci_def and_then_def pcireg_is_field_cleared_def pcireg_set_field_def
        pcireg_read_def Let_def split_beta fatal_def ident test PCIREG_PMCSR_POWER_STATE_def PCIREG_COMMAND_def
        PCIREG_COMMAND_BUS_MASTER_ENABLE_def PCIREG_COMMAND_MEMORY_ACCESS_ENABLE_def PCIREG_COMMAND_INTERRUPT_DISABLE_def)
qed

theorem device_init_rejects_witness:
  "fst (tn_device_init register_file p d (\<lambda>a. 0)) = Inl (Fatal ''PCI device is not what was expected'')"
  using device_init_rejects [of register_file p "\<lambda>r. 0" d "\<lambda>a. 0"] by simp

text \<open>
  The address that the driver reports contains the whole high register, so with a valid
  address its bit 63 (Address Valid) is set, although the header promises that only the lowest 48
  bits are non-zero; the lowest 48 bits are those of the registers.
\<close>

theorem device_mac_bits:
  assumes C: "card H (dev_addr device) regs dflt"
  shows "fst (tn_device_get_mac H device h) = ucast (regs h (REG_RAL 0)) OR push_bit 32 (ucast (regs h (REG_RAH 0)))
    \<and> bit (fst (tn_device_get_mac H device h)) 63 = bit (regs h (REG_RAH 0)) 31"
proof -
  have "bit (regs h (REG_RAL 0)) 63 = False" using bit_imp_le_length [of "regs h (REG_RAL 0)" 63] by auto
  then show ?thesis
    by (simp add: tn_device_get_mac_def split_beta Let_def card_read [OF C] bit_or_iff bit_push_bit_iff bit_ucast_iff)
qed

theorem device_mac_bits_witness:
  "bit (fst (tn_device_get_mac example_card \<lparr>dev_addr = 0xFE000000, dev_rx_enabled = False, dev_tx_enabled = False\<rparr>
      (\<lambda>r. if r = REG_RAH 0 then 0x80000706 else 0x05040302))) 63"
  using device_mac_bits [of example_card "\<lparr>dev_addr = 0xFE000000, dev_rx_enabled = False, dev_tx_enabled = False\<rparr>" "\<lambda>h. h"
      example_defaults "\<lambda>r. if r = REG_RAH 0 then 0x80000706 else 0x05040302"] example_card_ok(1)
  by simp


end
