(* ===== verification/Ixgbe_Agent.thy ===== *)
theory Ixgbe_Agent
  imports Ixgbe_Device Os_Memory
begin

text \<open>
  The agents: \<open>struct tn_agent\<close> of \<open>env/src/net/tinynf/network.h\<close> and \<open>tn_agent_add_output\<close>,
  \<open>tn_agent_set_input\<close> and \<open>tn_agent_init\<close> of \<open>env/src/net/tinynf/ixgbe.c\<close>, with
  \<open>descriptor_ring_alloc\<close> and \<open>agents_alloc\<close> of \<open>env/src/verif/drivers.c\<close>.

  An agent handles the packets of one input device. It shares its packet buffers and one
  descriptor ring per output with the card: the record holds their addresses, which are programmed
  into the card, and their contents. A null pointer is the address 0, and allocated memory is zero.
\<close>

section \<open>The code\<close>

record tn_descriptor =
  desc_addr :: u64
  desc_metadata :: u64

record tn_agent =
  ag_buffer :: addr
  ag_packets :: "byte list list"
  ag_receive_tail_addr :: addr
  ag_processed_delimiter :: size_t
  ag_outputs_count :: size_t
  ag_lengths :: "size_t list"
  ag_heads_addr :: addr
  ag_transmit_heads :: "u32 list"
  ag_ring_addrs :: "addr list"
  ag_rings :: "tn_descriptor list list"
  ag_transmit_tail_addrs :: "addr list"

definition descriptor_ring_alloc :: "os_mem \<Rightarrow> size_t \<Rightarrow> (addr \<times> os_mem) option" where
  "descriptor_ring_alloc om count = os_memory_alloc om count (2 * 8)"

definition agents_alloc :: "os_mem \<Rightarrow> size_t \<Rightarrow> size_t \<Rightarrow> (addr \<times> os_mem) option" where
  "agents_alloc om count sz = os_memory_alloc om count sz"

text \<open>Each transmit head is on a cache line of its own.\<close>

definition TRANSMIT_HEAD_MULTIPLIER :: size_t where [ixgbe_constants]:
  "TRANSMIT_HEAD_MULTIPLIER = 16"

text \<open>The registers of a transmit queue: those of its ring, and those of its head.\<close>

definition agent_program_ring :: "'h hardware \<Rightarrow> addr \<Rightarrow> size_t \<Rightarrow> u64 \<Rightarrow> 'h \<Rightarrow> 'h" where
  "agent_program_ring H addr queue_index ring_phys_addr h =
     (let h = reg_write H addr (REG_TDBAH queue_index) (ucast (drop_bit 32 ring_phys_addr)) h;
          h = reg_write H addr (REG_TDBAL queue_index) (ucast ring_phys_addr) h;
          h = reg_write H addr (REG_TDLEN queue_index) (ucast (IXGBE_RING_SIZE * 16)) h;
          h = reg_write_field H addr (REG_TXDCTL queue_index) REG_TXDCTL_PTHRESH 60 h
      in reg_write_field H addr (REG_TXDCTL queue_index) REG_TXDCTL_HTHRESH 4 h)"

definition agent_program_head :: "'h hardware \<Rightarrow> addr \<Rightarrow> size_t \<Rightarrow> u64 \<Rightarrow> 'h \<Rightarrow> 'h" where
  "agent_program_head H addr queue_index head_phys_addr h =
     (let h = reg_write H addr (REG_TDWBAH queue_index) (ucast (drop_bit 32 head_phys_addr)) h;
          h = reg_write H addr (REG_TDWBAL queue_index) (ucast head_phys_addr OR 1) h
      in reg_clear_field H addr (REG_DCATXCTRL queue_index) REG_DCATXCTRL_TX_DESC_WB_RO_EN h)"

definition tn_agent_add_output ::
    "'h hardware \<Rightarrow> tn_agent \<Rightarrow> tn_device \<Rightarrow> size_t \<Rightarrow> size_t \<Rightarrow> os_mem \<Rightarrow> 'h \<Rightarrow> (tn_agent \<times> tn_device \<times> os_mem, 'h) outcome" where
  "tn_agent_add_output H agent device output_index queue_index om h =
     and_then (or_else Undefined (arr_get (ag_transmit_tail_addrs agent) output_index) h) (\<lambda>tail_addr h.
     if tail_addr \<noteq> 0 then fatal ''Output is already in use'' h
     else if TRANSMIT_QUEUES_COUNT \<le> queue_index then fatal ''Transmit queue index is too large'' h
     else
     let addr = dev_addr device;
         (unused, h) = reg_is_field_cleared H addr (REG_TXDCTL queue_index) REG_TXDCTL_ENABLE h in
     if \<not> unused then fatal ''Transmit queue is already in use'' h
     else
     and_then (or_else Out_of_memory (descriptor_ring_alloc om IXGBE_RING_SIZE) h) (\<lambda>(ring, om) h.
     let buffer_phys_addr = hw_virt_to_phys H (ag_buffer agent);
         descriptors = map (\<lambda>n. \<lparr>desc_addr = buffer_phys_addr + of_nat n * PACKET_BUFFER_SIZE, desc_metadata = 0\<rparr>)
                         [0 ..< unat IXGBE_RING_SIZE];
         agent = agent\<lparr>ag_ring_addrs := (ag_ring_addrs agent)[unat output_index := ring],
                       ag_rings := (ag_rings agent)[unat output_index := descriptors]\<rparr>;
         ring_phys_addr = hw_virt_to_phys H ring;
         h = agent_program_ring H addr queue_index ring_phys_addr h;
         head_phys_addr = hw_virt_to_phys H (ag_heads_addr agent + 4 * unat (output_index * TRANSMIT_HEAD_MULTIPLIER)) in
     if head_phys_addr mod 16 \<noteq> 0 then fatal ''Transmit head's physical address is not aligned properly'' h
     else
     let h = agent_program_head H addr queue_index head_phys_addr h;
         (device, h) = (if \<not> dev_tx_enabled device
            then (device\<lparr>dev_tx_enabled := True\<rparr>, reg_set_field H addr REG_DMATXCTL REG_DMATXCTL_TE h)
            else (device, h));
         h = reg_set_field H addr (REG_TXDCTL queue_index) REG_TXDCTL_ENABLE h;
         (timed_out, h) = if_after_timeout H (1000 * 1000)
            (reg_is_field_cleared H addr (REG_TXDCTL queue_index) REG_TXDCTL_ENABLE) h in
     if timed_out then fatal ''TXDCTL.ENABLE did not set, cannot enable queue'' h
     else
     (Inr (agent\<lparr>ag_transmit_tail_addrs :=
             (ag_transmit_tail_addrs agent)[unat output_index := addr + unat (REG_TDT queue_index)]\<rparr>, device, om), h)))"

text \<open>The start of the receive path, which is done once per device.\<close>

definition agent_enable_receive :: "'h hardware \<Rightarrow> tn_device \<Rightarrow> 'h \<Rightarrow> (tn_device, 'h) outcome" where
  "agent_enable_receive H device h =
     (if dev_rx_enabled device then (Inr device, h)
      else
      let addr = dev_addr device;
          h = reg_set_field H addr REG_SECRXCTRL REG_SECRXCTRL_RX_DIS h;
          (timed_out, h) = if_after_timeout H (1000 * 1000)
             (reg_is_field_cleared H addr REG_SECRXSTAT REG_SECRXSTAT_SECRX_RDY) h in
      if timed_out then fatal ''SECRXSTAT.SECRXRDY timed out, cannot start device'' h
      else
      let h = reg_set_field H addr REG_RXCTRL REG_RXCTRL_RXEN h;
          h = reg_clear_field H addr REG_SECRXCTRL REG_SECRXCTRL_RX_DIS h;
          h = reg_set_field H addr REG_CTRLEXT REG_CTRLEXT_NSDIS h
      in (Inr (device\<lparr>dev_rx_enabled := True\<rparr>), h))"

definition tn_agent_set_input :: "'h hardware \<Rightarrow> tn_agent \<Rightarrow> tn_device \<Rightarrow> 'h \<Rightarrow> (tn_agent \<times> tn_device, 'h) outcome" where
  "tn_agent_set_input H agent device h =
     (if ag_receive_tail_addr agent \<noteq> 0 then fatal ''Agent receive was already set'' h
      else
      and_then (or_else Undefined (arr_get (ag_transmit_tail_addrs agent) 0) h) (\<lambda>tail_addr h.
      if tail_addr = 0 then fatal ''Agent transmit was not called for output 0, but must be since descriptor ring 0 is shared'' h
      else
      let queue_index = 0;
          addr = dev_addr device;
          (unused, h) = reg_is_field_cleared H addr (REG_RXDCTL queue_index) REG_RXDCTL_ENABLE h in
      if \<not> unused then fatal ''Receive queue is already in use'' h
      else
      and_then (or_else Undefined (arr_get (ag_ring_addrs agent) 0) h) (\<lambda>ring h.
      let ring_phys_addr = hw_virt_to_phys H ring;
          h = reg_write H addr (REG_RDBAH queue_index) (ucast (drop_bit 32 ring_phys_addr)) h;
          h = reg_write H addr (REG_RDBAL queue_index) (ucast ring_phys_addr) h;
          h = reg_write H addr (REG_RDLEN queue_index) (ucast (IXGBE_RING_SIZE * 16)) h;
          h = reg_write_field H addr (REG_SRRCTL queue_index) REG_SRRCTL_BSIZEPACKET (ucast (PACKET_BUFFER_SIZE div 1024)) h;
          h = reg_set_field H addr (REG_SRRCTL queue_index) REG_SRRCTL_DROP_EN h;
          h = reg_set_field H addr (REG_RXDCTL queue_index) REG_RXDCTL_ENABLE h;
          (timed_out, h) = if_after_timeout H (1000 * 1000)
             (reg_is_field_cleared H addr (REG_RXDCTL queue_index) REG_RXDCTL_ENABLE) h in
      if timed_out then fatal ''RXDCTL.ENABLE did not set, cannot enable queue'' h
      else
      let h = reg_write H addr (REG_RDT queue_index) (ucast (IXGBE_RING_SIZE - 1)) h in
      and_then (agent_enable_receive H device h) (\<lambda>device h.
      let h = reg_clear_field H addr (REG_DCARXCTRL queue_index) REG_DCARXCTRL_UNKNOWN h
      in (Inr (agent\<lparr>ag_receive_tail_addr := addr + unat (REG_RDT queue_index)\<rparr>, device), h)))))"

text \<open>The loop over the output devices.\<close>

function agent_init_loop ::
    "'h hardware \<Rightarrow> size_t \<Rightarrow> size_t \<Rightarrow> size_t \<Rightarrow> tn_device list \<Rightarrow> tn_agent \<Rightarrow> os_mem \<Rightarrow> 'h
     \<Rightarrow> (tn_agent \<times> tn_device list \<times> os_mem, 'h) outcome" where
  "agent_init_loop H n input_index devices_count devices agent om h =
     (if n < devices_count then
        if n \<noteq> input_index then
          let true_index = (if input_index < n then n - 1 else n) in
          and_then (or_else Undefined (arr_get devices n) h) (\<lambda>device h.
          and_then (tn_agent_add_output H agent device true_index (input_index * ag_outputs_count agent + true_index) om h)
            (\<lambda>(agent, device, om) h.
          agent_init_loop H (n + 1) input_index devices_count (devices[unat n := device]) agent om h))
        else agent_init_loop H (n + 1) input_index devices_count devices agent om h
      else (Inr (agent, devices, om), h))"
  by pat_completeness auto
termination
  by (relation "measure (\<lambda>(H, n, input_index, devices_count, devices, agent, om, h). unat (devices_count - n))")
    (rule wf_measure, simp_all only: in_measure prod.case word_loop_decreases)

declare agent_init_loop.simps [simp del]

definition tn_agent_init ::
    "'h hardware \<Rightarrow> size_t \<Rightarrow> size_t \<Rightarrow> tn_device list \<Rightarrow> tn_agent \<Rightarrow> os_mem \<Rightarrow> 'h
     \<Rightarrow> (tn_agent \<times> tn_device list \<times> os_mem, 'h) outcome" where
  "tn_agent_init H input_index devices_count devices agent om h =
     (if devices_count = 0 then fatal ''No devices given'' h
      else if devices_count \<le> input_index then fatal ''Input index out of range'' h
      else
      let outputs_count = devices_count - 1; agent = agent\<lparr>ag_outputs_count := outputs_count\<rparr> in
      if outputs_count = 0 then fatal ''No outputs given'' h
      else
      and_then (or_else Out_of_memory (os_memory_alloc om IXGBE_RING_SIZE PACKET_BUFFER_SIZE) h) (\<lambda>(buffer, om) h.
      and_then (or_else Out_of_memory (os_memory_alloc om outputs_count 8) h) (\<lambda>(_, om) h.
      and_then (or_else Out_of_memory (os_memory_alloc om outputs_count (TRANSMIT_HEAD_MULTIPLIER * 4)) h) (\<lambda>(heads, om) h.
      and_then (or_else Out_of_memory (os_memory_alloc om outputs_count 8) h) (\<lambda>(_, om) h.
      and_then (or_else Out_of_memory (os_memory_alloc om outputs_count 8) h) (\<lambda>(_, om) h.
      let outputs = unat outputs_count;
          agent = agent\<lparr>
            ag_buffer := buffer, ag_packets := replicate (unat IXGBE_RING_SIZE) (replicate (unat PACKET_BUFFER_SIZE) 0),
            ag_lengths := replicate outputs 0,
            ag_heads_addr := heads, ag_transmit_heads := replicate (outputs * unat TRANSMIT_HEAD_MULTIPLIER) 0,
            ag_ring_addrs := replicate outputs 0, ag_rings := replicate outputs [],
            ag_transmit_tail_addrs := replicate outputs 0\<rparr> in
      and_then (agent_init_loop H 0 input_index devices_count devices agent om h) (\<lambda>(agent, devices, om) h.
      and_then (or_else Undefined (arr_get devices input_index) h) (\<lambda>device h.
      and_then (tn_agent_set_input H agent device h) (\<lambda>(agent, device) h.
      (Inr (agent, devices[unat input_index := device], om), h))))))))))"
section \<open>Well-formed agents\<close>

text \<open>
  The arrays of an agent that has been set up. Rings and packet buffers have one entry per
  descriptor, and the heads lie \<open>TRANSMIT_HEAD_MULTIPLIER\<close> entries apart.
\<close>

definition agent_ok :: "tn_agent \<Rightarrow> bool" where
  "agent_ok agent \<longleftrightarrow>
     0 < ag_outputs_count agent \<and> ag_outputs_count agent < 0x10000
     \<and> ag_processed_delimiter agent < IXGBE_RING_SIZE
     \<and> length (ag_packets agent) = 256 \<and> (\<forall>p \<in> set (ag_packets agent). length p = 2048)
     \<and> length (ag_lengths agent) = unat (ag_outputs_count agent)
     \<and> length (ag_transmit_heads agent) = unat (ag_outputs_count agent) * 16
     \<and> length (ag_ring_addrs agent) = unat (ag_outputs_count agent)
     \<and> length (ag_rings agent) = unat (ag_outputs_count agent) \<and> (\<forall>ring \<in> set (ag_rings agent). length ring = 256)
     \<and> length (ag_transmit_tail_addrs agent) = unat (ag_outputs_count agent)"

text \<open>The descriptors of a ring point to the packet buffers, one after the other.\<close>

definition ring_descriptors :: "u64 \<Rightarrow> tn_descriptor list" where
  "ring_descriptors buffer =
     map (\<lambda>n. \<lparr>desc_addr = buffer + of_nat n * PACKET_BUFFER_SIZE, desc_metadata = 0\<rparr>) [0 ..< unat IXGBE_RING_SIZE]"

lemma length_ring_descriptors [simp]: "length (ring_descriptors buffer) = 256"
  by (simp add: ring_descriptors_def ixgbe_constants)

lemma fst_and_then_Inr:
  "fst (and_then r f) = Inr y \<longleftrightarrow> (\<exists>x. fst r = Inr x \<and> fst (f x (snd r)) = Inr y)"
  by (cases r) (auto simp: and_then_def split: sum.splits)

lemma fst_or_else_Inr [simp]:
  "fst (or_else failure r h) = Inr x \<longleftrightarrow> r = Some x" "snd (or_else failure r h) = h"
  by (auto simp: or_else_def split: option.split)

lemma fst_fatal [simp]: "fst (fatal message h) \<noteq> Inr x" "snd (fatal message h) = h"
  by (simp_all add: fatal_def)

lemma add_output_success:
  assumes "fst (tn_agent_add_output H agent device output_index queue_index om h) = Inr (agent', device', om')"
  shows "unat output_index < length (ag_transmit_tail_addrs agent)"
    "ag_transmit_tail_addrs agent ! unat output_index = 0" "queue_index < 128"
    "dev_addr device' = dev_addr device"
    "\<exists>ring. descriptor_ring_alloc om IXGBE_RING_SIZE = Some (ring, om') \<and>
       agent' = agent\<lparr>ag_ring_addrs := (ag_ring_addrs agent)[unat output_index := ring],
         ag_rings := (ag_rings agent)[unat output_index := ring_descriptors (hw_virt_to_phys H (ag_buffer agent))],
         ag_transmit_tail_addrs := (ag_transmit_tail_addrs agent)[unat output_index := dev_addr device + unat (REG_TDT queue_index)]\<rparr>"
  using assms
  by (auto simp: tn_agent_add_output_def fst_and_then_Inr Let_def split_beta not_le ixgbe_constants
      ring_descriptors_def dest!: arr_get_SomeD split: if_splits)

lemma set_input_success:
  assumes "fst (tn_agent_set_input H agent device h) = Inr (agent', device')"
  shows "agent' = agent\<lparr>ag_receive_tail_addr := dev_addr device + unat (REG_RDT 0)\<rparr>" "dev_addr device' = dev_addr device"
  using assms
  by (auto simp: tn_agent_set_input_def agent_enable_receive_def fst_and_then_Inr Let_def split_beta split: if_splits)

text \<open>The output of the device with number \<open>k\<close>, for an agent with the given input.\<close>

definition output_of :: "nat \<Rightarrow> nat \<Rightarrow> nat" where
  "output_of input k = (if input < k then k - 1 else k)"

lemma output_of_less: "k < dc \<Longrightarrow> input < dc \<Longrightarrow> k \<noteq> input \<Longrightarrow> output_of input k < dc - 1"
  by (auto simp: output_of_def)

lemma output_of_mono: "j < k \<Longrightarrow> j \<noteq> input \<Longrightarrow> k \<noteq> input \<Longrightarrow> output_of input j < output_of input k"
  by (auto simp: output_of_def)

definition agent_frame :: "tn_agent \<Rightarrow> tn_agent \<Rightarrow> bool" where
  "agent_frame a b \<longleftrightarrow>
     ag_buffer b = ag_buffer a \<and> ag_packets b = ag_packets a \<and> ag_receive_tail_addr b = ag_receive_tail_addr a
     \<and> ag_processed_delimiter b = ag_processed_delimiter a \<and> ag_outputs_count b = ag_outputs_count a
     \<and> ag_lengths b = ag_lengths a \<and> ag_heads_addr b = ag_heads_addr a \<and> ag_transmit_heads b = ag_transmit_heads a
     \<and> length (ag_ring_addrs b) = length (ag_ring_addrs a) \<and> length (ag_rings b) = length (ag_rings a)
     \<and> length (ag_transmit_tail_addrs b) = length (ag_transmit_tail_addrs a)"

text \<open>What the loop establishes for the devices from \<open>n\<close> on, keeping the outputs before.\<close>

definition outputs_set :: "u64 \<Rightarrow> nat \<Rightarrow> nat \<Rightarrow> size_t \<Rightarrow> tn_device list \<Rightarrow> tn_agent \<Rightarrow> bool" where
  "outputs_set buffer n input outputs devices agent \<longleftrightarrow>
     (\<forall>k. n \<le> k \<and> k < length devices \<and> k \<noteq> input \<longrightarrow>
        (let queue = of_nat input * outputs + of_nat (output_of input k) in
         queue < 128
         \<and> ag_transmit_tail_addrs agent ! output_of input k = dev_addr (devices ! k) + unat (REG_TDT queue)
         \<and> ag_rings agent ! output_of input k = ring_descriptors buffer))"

lemma agent_init_loop_success:
  assumes "fst (agent_init_loop H n input dc devices agent om h) = Inr (agent', devices', om')"
    and "unat dc = length devices" "unat input < unat dc" "unat n \<le> unat dc"
    "length (ag_transmit_tail_addrs agent) = unat dc - 1" "length (ag_rings agent) = unat dc - 1"
  shows "length devices' = length devices \<and> (\<forall>k < length devices. dev_addr (devices' ! k) = dev_addr (devices ! k))
    \<and> agent_frame agent agent'
    \<and> outputs_set (hw_virt_to_phys H (ag_buffer agent)) (unat n) (unat input) (ag_outputs_count agent) devices agent'
    \<and> (\<forall>j < unat n. j \<noteq> unat input \<longrightarrow>
         ag_transmit_tail_addrs agent' ! output_of (unat input) j = ag_transmit_tail_addrs agent ! output_of (unat input) j
         \<and> ag_rings agent' ! output_of (unat input) j = ag_rings agent ! output_of (unat input) j)"
  using assms
proof (induction H n input dc devices agent om h arbitrary: agent' devices' om' rule: agent_init_loop.induct)
  case (1 H n input dc devices agent om h)
  show ?case
  proof (cases "n < dc")
    case False
    then have "agent' = agent" "devices' = devices" "\<not> unat n < unat dc"
      using "1.prems"(1) by (simp_all add: agent_init_loop.simps word_less_nat_alt)
    then show ?thesis using "1.prems"(2,4) by (auto simp: agent_frame_def outputs_set_def)
  next
    case True
    then have n: "unat n < unat dc" by (simp add: word_less_nat_alt)
    have Suc_n: "unat (n + 1) = Suc (unat n)" by (rule unat_Suc_word [OF True])
    show ?thesis
    proof (cases "n = input")
      case input: True
      then have "fst (agent_init_loop H (n + 1) input dc devices agent om h) = Inr (agent', devices', om')"
        using "1.prems"(1) True by (simp add: agent_init_loop.simps [of H input input dc devices agent om h])
      from "1.IH"(2) [OF True _ this] input n Suc_n "1.prems"(2-6) show ?thesis
        by (auto simp: outputs_set_def Suc_le_eq less_Suc_eq)
    next
      case other: False
      let ?ti = "if input < n then n - 1 else n"
      have ti: "unat ?ti = output_of (unat input) (unat n)"
        using unat_pred_word [of n] by (auto simp: output_of_def word_less_nat_alt)
      have ne: "unat n \<noteq> unat input" using other by (simp add: word_unat_eq_iff)
      let ?queue = "input * ag_outputs_count agent + ?ti"
      let ?device = "devices ! unat n"
      have dev: "arr_get devices n = Some ?device" using n "1.prems"(2) by simp
      obtain agent1 device1 om1 where add: "fst (tn_agent_add_output H agent ?device ?ti ?queue om h) = Inr (agent1, device1, om1)"
        and rest: "fst (agent_init_loop H (n + 1) input dc (devices[unat n := device1]) agent1 om1
            (snd (tn_agent_add_output H agent ?device ?ti ?queue om h))) = Inr (agent', devices', om')"
        using "1.prems"(1) True other dev
        by (auto simp: agent_init_loop.simps [of H n input dc devices agent om h] Let_def fst_and_then_Inr)
      note added = add_output_success [OF add]
      obtain ring where agent1: "agent1 = agent\<lparr>ag_ring_addrs := (ag_ring_addrs agent)[unat ?ti := ring],
          ag_rings := (ag_rings agent)[unat ?ti := ring_descriptors (hw_virt_to_phys H (ag_buffer agent))],
          ag_transmit_tail_addrs := (ag_transmit_tail_addrs agent)[unat ?ti := dev_addr ?device + unat (REG_TDT ?queue)]\<rparr>"
        using added(5) by blast
      have same: "dev_addr (devices[unat n := device1] ! k) = dev_addr (devices ! k)" if "k < length devices" for k
        by (cases "k = unat n") (use that added(4) in simp_all)
      have ih: "length devices' = length devices \<and> (\<forall>k < length devices. dev_addr (devices' ! k) = dev_addr (devices ! k))
        \<and> agent_frame agent1 agent'
        \<and> outputs_set (hw_virt_to_phys H (ag_buffer agent)) (unat (n + 1)) (unat input) (ag_outputs_count agent) devices agent'
        \<and> (\<forall>j < unat (n + 1). j \<noteq> unat input \<longrightarrow>
             ag_transmit_tail_addrs agent' ! output_of (unat input) j = ag_transmit_tail_addrs agent1 ! output_of (unat input) j
             \<and> ag_rings agent' ! output_of (unat input) j = ag_rings agent1 ! output_of (unat input) j)"
        using "1.IH"(1) [OF True other refl rest] n Suc_n "1.prems"(2-6) same
        by (simp add: outputs_set_def agent1)
      have less: "unat ?ti < length (ag_transmit_tail_addrs agent)" "unat ?ti < length (ag_rings agent)"
        using added(1) "1.prems"(5,6) by simp_all
      have "ag_transmit_tail_addrs agent' ! unat ?ti = dev_addr ?device + unat (REG_TDT ?queue)"
        "ag_rings agent' ! unat ?ti = ring_descriptors (hw_virt_to_phys H (ag_buffer agent))"
        using ih Suc_n ne less by (simp_all add: ti agent1)
      moreover have "?queue = of_nat (unat input) * ag_outputs_count agent + of_nat (output_of (unat input) (unat n))"
        by (simp flip: ti)
      ultimately have "outputs_set (hw_virt_to_phys H (ag_buffer agent)) (unat n) (unat input) (ag_outputs_count agent) devices agent'"
        using ih Suc_n added(3) unfolding outputs_set_def Let_def ti
        by (metis Suc_leI le_neq_implies_less)
      moreover have "ag_transmit_tail_addrs agent' ! output_of (unat input) j = ag_transmit_tail_addrs agent ! output_of (unat input) j
         \<and> ag_rings agent' ! output_of (unat input) j = ag_rings agent ! output_of (unat input) j"
        if j: "j < unat n" "j \<noteq> unat input" for j
      proof -
        have "unat ?ti \<noteq> output_of (unat input) j" using output_of_mono [OF j(1) j(2) ne] ti by simp
        then show ?thesis using ih j Suc_n by (simp add: agent1)
      qed
      moreover have "agent_frame agent agent'" using ih by (simp add: agent_frame_def agent1)
      ultimately show ?thesis using ih by blast
    qed
  qed
qed

lemma output_of_surj: "i < dc - 1 \<Longrightarrow> input < dc \<Longrightarrow> \<exists>k < dc. k \<noteq> input \<and> output_of input k = i"
  by (cases "i < input") (intro exI [of _ i] exI [of _ "Suc i"]; simp add: output_of_def)+

lemma agent_init_success:
  assumes "fst (tn_agent_init H input dc devices agent om h) = Inr (agent', devices', om')"
    and "unat dc = length devices" "dc \<le> 0x10000" "ag_processed_delimiter agent = 0"
  shows "agent_ok agent' \<and> unat (ag_outputs_count agent') = length devices - 1
    \<and> outputs_set (hw_virt_to_phys H (ag_buffer agent')) 0 (unat input) (dc - 1) devices agent'
    \<and> ag_receive_tail_addr agent' = dev_addr (devices ! unat input) + unat (REG_RDT 0)
    \<and> length devices' = length devices \<and> (\<forall>k < length devices. dev_addr (devices' ! k) = dev_addr (devices ! k))
    \<and> ag_lengths agent' = replicate (length devices - 1) 0 \<and> ag_transmit_heads agent' = replicate ((length devices - 1) * 16) 0
    \<and> ag_processed_delimiter agent' = 0 \<and> unat input < length devices"
proof -
  have input': "dc \<noteq> 0" "\<not> dc \<le> input" "dc - 1 \<noteq> 0"
    using assms(1) by (auto simp: tn_agent_init_def split: if_splits)
  then have input: "0 < dc" "unat input < unat dc" "dc - 1 \<noteq> 0"
    by (simp_all add: word_gt_0 word_less_nat_alt not_le)
  have pred: "unat (dc - 1) = length devices - 1" using input(1) assms(2) unat_pred_word [of dc] by simp
  have small: "unat (dc - 1) < 65536" using assms(2,3) pred input(1) by (simp add: word_le_nat_alt word_less_nat_alt)
  obtain buffer om1 heads om2 agent1 devices1 om3 h1 h2 device where
    loop: "fst (agent_init_loop H 0 input dc devices (agent\<lparr>ag_outputs_count := dc - 1,
            ag_buffer := buffer, ag_packets := replicate 256 (replicate 2048 0),
            ag_lengths := replicate (unat (dc - 1)) 0,
            ag_heads_addr := heads, ag_transmit_heads := replicate (unat (dc - 1) * 16) 0,
            ag_ring_addrs := replicate (unat (dc - 1)) 0, ag_rings := replicate (unat (dc - 1)) [],
            ag_transmit_tail_addrs := replicate (unat (dc - 1)) 0\<rparr>) om2 h1) = Inr (agent1, devices1, om')"
    and set: "fst (tn_agent_set_input H agent1 (devices1 ! unat input) h2) = Inr (agent', device)"
    and devices': "devices' = devices1[unat input := device]"
    using assms(1) input'
    by (auto simp: tn_agent_init_def Let_def fst_and_then_Inr ixgbe_constants dest!: arr_get_SomeD)
  from agent_init_loop_success [OF loop assms(2) input(2)] pred
  have looped: "length devices1 = length devices" "\<forall>k < length devices. dev_addr (devices1 ! k) = dev_addr (devices ! k)"
    "ag_processed_delimiter agent1 = 0" "ag_outputs_count agent1 = dc - 1" "ag_buffer agent1 = buffer"
    "ag_packets agent1 = replicate 256 (replicate 2048 0)" "ag_lengths agent1 = replicate (unat (dc - 1)) 0"
    "ag_transmit_heads agent1 = replicate (unat (dc - 1) * 16) 0"
    "length (ag_ring_addrs agent1) = unat (dc - 1)" "length (ag_rings agent1) = unat (dc - 1)"
    "length (ag_transmit_tail_addrs agent1) = unat (dc - 1)"
    "outputs_set (hw_virt_to_phys H buffer) 0 (unat input) (dc - 1) devices agent1"
    using assms(2,4) by (simp_all add: agent_frame_def)
  have ring: "length (ag_rings agent1 ! i) = 256" if i: "i < unat (dc - 1)" for i
  proof -
    obtain k where "k < length devices" "k \<noteq> unat input" "output_of (unat input) k = i"
      using output_of_surj [of i "unat dc" "unat input"] i pred assms(2) input(2) by auto
    then show ?thesis using looped(12) by (auto simp: outputs_set_def Let_def)
  qed
  note agent' = set_input_success [OF set]
  have "0 < unat (dc - 1)" using input(3) by (simp only: unat_gt_0 not_False_eq_True)
  then have "agent_ok agent'"
    using looped(3-11) ring small
    by (auto simp: agent_ok_def agent'(1) ixgbe_constants in_set_conv_nth word_gt_0 word_less_nat_alt)
  moreover have "outputs_set (hw_virt_to_phys H (ag_buffer agent')) 0 (unat input) (dc - 1) devices agent'"
    using looped(5,12) by (simp add: agent'(1) outputs_set_def)
  moreover have "dev_addr (devices' ! k) = dev_addr (devices ! k)" if "k < length devices" for k
    using that looped(1,2) agent'(2) input(2) assms(2) by (cases "k = unat input") (simp_all add: devices')
  ultimately show ?thesis
    using looped(1-4,7,8) agent'(1) pred input(2) assms(2) devices' by simp
qed

section \<open>Properties\<close>

text \<open>
  C22: An agent whose initialisation succeeds has well-formed arrays and one output per device
  other than its input, in the order of the devices: the transmit tail of an output is the tail
  register of the device's queue \<open>input * outputs + output\<close>, which is below 128 and thus in no
  other agent's use, and its ring points to the packet buffers of the agent. Its receive tail is
  the tail register of queue 0 of the input. This holds whatever the hardware answers.
\<close>

theorem agent_init_outputs:
  assumes "fst (tn_agent_init H input dc devices agent om h) = Inr (agent', devices', om')"
    and "unat dc = length devices" "dc \<le> 0x10000" "ag_processed_delimiter agent = 0"
  shows "agent_ok agent' \<and> unat (ag_outputs_count agent') = length devices - 1
    \<and> outputs_set (hw_virt_to_phys H (ag_buffer agent')) 0 (unat input) (dc - 1) devices agent'
    \<and> ag_receive_tail_addr agent' = dev_addr (devices ! unat input) + unat (REG_RDT 0)
    \<and> length devices' = length devices \<and> (\<forall>k < length devices. dev_addr (devices' ! k) = dev_addr (devices ! k))"
  using agent_init_success [OF assms] by simp

text \<open>Hardware that answers register reads with a script, on a machine that maps addresses one to one.\<close>

definition scripted :: "u32 list hardware" where
  "scripted = \<lparr>hw_reg_read = (\<lambda>a h. (hd h, tl h)), hw_reg_write = (\<lambda>a v h. h),
     hw_pci_read = (\<lambda>p r h. (0, h)), hw_pci_write = (\<lambda>p r v h. h), hw_sleep = (\<lambda>n h. h),
     hw_phys_to_virt = (\<lambda>a n. unat a), hw_virt_to_phys = of_nat\<rparr>"

lemma scripted_simps [simp]:
  "reg_read scripted addr reg h = (hd h, tl h)" "reg_write scripted addr reg v h = h"
  "hw_sleep scripted n h = h" "hw_virt_to_phys scripted = of_nat"
  by (simp_all add: reg_read_def reg_write_def reg_write_raw_def scripted_def)

lemma scripted_fields [simp]:
  "reg_write_field scripted addr reg field x h = tl h" "reg_set_field scripted addr reg field h = tl h"
  "reg_clear_field scripted addr reg field h = tl h"
  "reg_is_field_cleared scripted addr reg field h = (field_value field (hd h) = 0, tl h)"
  by (simp_all add: reg_write_field_eq reg_set_field_eq reg_clear_field_def reg_is_field_cleared_eq)

definition example_script :: "u32 list" where
  "example_script = [0, 0, 0, 0, 0, 0, 0x02000000, 0, 0, 0, 0, 0x02000000, 0, 1, 0, 0, 0, 0]"

definition example_devices :: "tn_device list" where
  "example_devices = [\<lparr>dev_addr = 0xFE000000, dev_rx_enabled = False, dev_tx_enabled = False\<rparr>,
     \<lparr>dev_addr = 0xFE100000, dev_rx_enabled = False, dev_tx_enabled = False\<rparr>]"

definition zero_agent :: tn_agent where
  "zero_agent = \<lparr>ag_buffer = 0, ag_packets = [], ag_receive_tail_addr = 0, ag_processed_delimiter = 0, ag_outputs_count = 0,
     ag_lengths = [], ag_heads_addr = 0, ag_transmit_heads = [], ag_ring_addrs = [], ag_rings = [], ag_transmit_tail_addrs = []\<rparr>"

lemma example_values:
  "field_value REG_TXDCTL_ENABLE 0 = 0" "field_value REG_TXDCTL_ENABLE 0x02000000 \<noteq> 0"
  "field_value REG_RXDCTL_ENABLE 0 = 0" "field_value REG_RXDCTL_ENABLE 0x02000000 \<noteq> 0"
  "field_value REG_SECRXSTAT_SECRX_RDY 1 \<noteq> 0"
  by code_simp+

lemma example_agent_allocs:
  "os_memory_alloc \<lparr>mem_base = 0x40000000, mem_used = 0x180\<rparr> 256 2048 = Some (0x40000440, \<lparr>mem_base = 0x40000000, mem_used = 0x80440\<rparr>)"
  "os_memory_alloc \<lparr>mem_base = 0x40000000, mem_used = 0x80440\<rparr> 1 8 = Some (0x40080440, \<lparr>mem_base = 0x40000000, mem_used = 0x80448\<rparr>)"
  "os_memory_alloc \<lparr>mem_base = 0x40000000, mem_used = 0x80448\<rparr> 1 64 = Some (0x40080480, \<lparr>mem_base = 0x40000000, mem_used = 0x804C0\<rparr>)"
  "os_memory_alloc \<lparr>mem_base = 0x40000000, mem_used = 0x804C0\<rparr> 1 8 = Some (0x400804C0, \<lparr>mem_base = 0x40000000, mem_used = 0x804C8\<rparr>)"
  "os_memory_alloc \<lparr>mem_base = 0x40000000, mem_used = 0x804C8\<rparr> 1 8 = Some (0x40080500, \<lparr>mem_base = 0x40000000, mem_used = 0x80508\<rparr>)"
  "os_memory_alloc \<lparr>mem_base = 0x40000000, mem_used = 0x80508\<rparr> 256 16 = Some (0x40080540, \<lparr>mem_base = 0x40000000, mem_used = 0x81540\<rparr>)"
  by (simp_all add: os_memory_alloc_def CACHE_LINE_SIZE_def OS_MEMORY_SIZE_def SIZE_MAX_def Let_def)

lemma example_agent_init:
  "\<exists>agent' devices' om'. fst (tn_agent_init scripted 0 2 example_devices zero_agent
      \<lparr>mem_base = 0x40000000, mem_used = 0x180\<rparr> example_script) = Inr (agent', devices', om')
    \<and> ag_ring_addrs agent' = [0x40080540]"
  by (simp add: tn_agent_init_def Let_def ixgbe_constants and_then_def or_else_def example_agent_allocs fatal_def
      agent_init_loop.simps agent_program_ring_def agent_program_head_def tn_agent_add_output_def tn_agent_set_input_def agent_enable_receive_def example_devices_def
      example_script_def descriptor_ring_alloc_def no_timeout example_values split_beta zero_agent_def)
theorem agent_init_outputs_witness:
  "\<exists>agent' devices' om'. fst (tn_agent_init scripted 0 2 example_devices zero_agent
      \<lparr>mem_base = 0x40000000, mem_used = 0x180\<rparr> example_script) = Inr (agent', devices', om')
    \<and> agent_ok agent' \<and> ag_transmit_tail_addrs agent' ! 0 = 0xFE106018 \<and> ag_receive_tail_addr agent' = 0xFE001018"
proof -
  obtain agent' devices' om' where run: "fst (tn_agent_init scripted 0 2 example_devices zero_agent
      \<lparr>mem_base = 0x40000000, mem_used = 0x180\<rparr> example_script) = Inr (agent', devices', om')"
    using example_agent_init by blast
  have "unat (2 :: size_t) = length example_devices" "ag_processed_delimiter zero_agent = 0"
    by (simp_all add: example_devices_def zero_agent_def)
  note result = agent_init_outputs [OF run this(1) _ this(2)]
  then have "outputs_set (hw_virt_to_phys scripted (ag_buffer agent')) 0 (unat (0 :: size_t)) (2 - 1) example_devices agent'"
    by simp
  from this [unfolded outputs_set_def, rule_format, of 1]
  have "ag_transmit_tail_addrs agent' ! 0 = dev_addr (example_devices ! 1) + unat (REG_TDT 0)"
    by (simp add: output_of_def example_devices_def)
  then show ?thesis
    using run result by (simp add: example_devices_def unat_queues)
qed

text \<open>
  The descriptor rings are only aligned to 64 bytes, while the data sheet, as the comments in
  the code say, asks for 128: with two devices, page-aligned memory and the allocations of
  \<open>main\<close> (which have used \<open>0x180\<close> bytes before the first agent), the ring of the first agent, whose
  address is programmed into the card, starts in the middle of a 128-byte block.
\<close>

theorem ring_alignment:
  "(alloc_ok om \<and> descriptor_ring_alloc om IXGBE_RING_SIZE = Some (a, om') \<longrightarrow> a mod 64 = 0)
   \<and> (\<exists>agent' devices' om'. fst (tn_agent_init scripted 0 2 example_devices zero_agent
        \<lparr>mem_base = 0x40000000, mem_used = 0x180\<rparr> example_script) = Inr (agent', devices', om')
      \<and> ag_ring_addrs agent' ! 0 mod 128 = 64)"
proof (intro conjI impI)
  assume a: "alloc_ok om \<and> descriptor_ring_alloc om IXGBE_RING_SIZE = Some (a, om')"
  then have ok: "alloc_ok om" and alloc: "os_memory_alloc om 256 16 = Some (a, om')"
    by (simp_all add: descriptor_ring_alloc_def ixgbe_constants)
  show "a mod 64 = 0" using os_memory_alloc_correct [OF ok _ alloc] by simp
next
  show "\<exists>agent' devices' om'. fst (tn_agent_init scripted 0 2 example_devices zero_agent
        \<lparr>mem_base = 0x40000000, mem_used = 0x180\<rparr> example_script) = Inr (agent', devices', om')
      \<and> ag_ring_addrs agent' ! 0 mod 128 = 64"
    using example_agent_init by (elim exE conjE) (intro exI conjI, assumption, simp)
qed

theorem ring_alignment_witness:
  "(0x40080540 :: nat) mod 64 = 0"
  using ring_alignment [of "\<lparr>mem_base = 0x40000000, mem_used = 0x80508\<rparr>" "0x40080540" "\<lparr>mem_base = 0x40000000, mem_used = 0x81540\<rparr>"]
    example_agent_allocs(6) by (simp add: alloc_ok_def descriptor_ring_alloc_def ixgbe_constants OS_MEMORY_SIZE_def)

text \<open>
  On a card that behaves as the data sheet says, adding an unused output on a free queue
  succeeds and programs exactly the registers of that queue: the base address and length of the
  ring, the write-back address of the head (with the enable bit), the thresholds and the enable bit
  of the queue, with relaxed ordering off; the transmit path is enabled with the first output of the
  device. An output that is in use, a queue that is out of range and a queue that is in use are
  rejected before any register is written.
\<close>

theorem agent_output_configured:
  assumes C: "card H (dev_addr device) regs dflt"
    and out: "unat output_index < length (ag_transmit_tail_addrs agent)"
    and alloc: "descriptor_ring_alloc om IXGBE_RING_SIZE = Some (ring, om')"
    and head: "wb = hw_virt_to_phys H (ag_heads_addr agent + 4 * unat (output_index * TRANSMIT_HEAD_MULTIPLIER))" "wb mod 16 = 0"
    and rg: "rg = hw_virt_to_phys H ring"
  shows "(ag_transmit_tail_addrs agent ! unat output_index = 0 \<and> q < 128
      \<and> field_value REG_TXDCTL_ENABLE (regs h (REG_TXDCTL q)) = 0 \<longrightarrow>
      (\<exists>agent' h'. tn_agent_add_output H agent device output_index q om h
          = (Inr (agent', device\<lparr>dev_tx_enabled := True\<rparr>, om'), h')
        \<and> regs h' = (regs h)(
            REG_TDBAH q := ucast (drop_bit 32 rg), REG_TDBAL q := ucast rg, REG_TDLEN q := 4096,
            REG_TDWBAH q := ucast (drop_bit 32 wb), REG_TDWBAL q := ucast wb OR 1,
            REG_DCATXCTRL q := regs h (REG_DCATXCTRL q) AND NOT REG_DCATXCTRL_TX_DESC_WB_RO_EN,
            REG_DMATXCTL := (if dev_tx_enabled device then regs h REG_DMATXCTL else regs h REG_DMATXCTL OR REG_DMATXCTL_TE),
            REG_TXDCTL q := field_set REG_TXDCTL_HTHRESH 4 (field_set REG_TXDCTL_PTHRESH 60 (regs h (REG_TXDCTL q))) OR REG_TXDCTL_ENABLE)))
    \<and> (ag_transmit_tail_addrs agent ! unat output_index \<noteq> 0 \<longrightarrow>
         tn_agent_add_output H agent device output_index q om h = (Inl (Fatal ''Output is already in use''), h))
    \<and> (ag_transmit_tail_addrs agent ! unat output_index = 0 \<and> 128 \<le> q \<longrightarrow>
         tn_agent_add_output H agent device output_index q om h = (Inl (Fatal ''Transmit queue index is too large''), h))
    \<and> (ag_transmit_tail_addrs agent ! unat output_index = 0 \<and> q < 128
         \<and> field_value REG_TXDCTL_ENABLE (regs h (REG_TXDCTL q)) \<noteq> 0 \<longrightarrow>
         fst (tn_agent_add_output H agent device output_index q om h) = Inl (Fatal ''Transmit queue is already in use''))"
proof (intro conjI impI)
  assume a: "ag_transmit_tail_addrs agent ! unat output_index = 0 \<and> q < 128
      \<and> field_value REG_TXDCTL_ENABLE (regs h (REG_TXDCTL q)) = 0"
  then have q: "unat q < 128" by (simp add: word_less_nat_alt)
  have unat_DMATXCTL: "unat REG_DMATXCTL = 0x4A80" "unat REG_CTRL = 0" by (simp_all add: ixgbe_regs)
  have DMATXCTL_eq: "x = REG_DMATXCTL" if "unat x = 0x4A80" for x using that by (simp add: word_unat_eq_iff unat_DMATXCTL)
  have ne: "r \<noteq> REG_CTRL" if "unat r \<ge> 0x4000" for r using that by (auto simp: REG_CTRL_def)
  have CTRL: "REG_TDBAH q \<noteq> REG_CTRL" "REG_TDBAL q \<noteq> REG_CTRL" "REG_TDLEN q \<noteq> REG_CTRL" "REG_TDWBAH q \<noteq> REG_CTRL"
    "REG_TDWBAL q \<noteq> REG_CTRL" "REG_DCATXCTRL q \<noteq> REG_CTRL" "REG_TXDCTL q \<noteq> REG_CTRL" "REG_DMATXCTL \<noteq> REG_CTRL"
    by (rule ne, simp add: unat_queues [OF q] unat_DMATXCTL)+
  note distinct = word_unat_eq_iff [where ?'a = 32] unat_queues [OF q] unat_DMATXCTL
  have enabled: "field_value REG_TXDCTL_ENABLE (v OR REG_TXDCTL_ENABLE) \<noteq> 0" for v
  proof -
    have "BITS 25 25 \<noteq> 0"
    proof
      assume zero: "BITS 25 25 = 0"
      have "bit (BITS 25 25) 25" by simp
      then show False unfolding zero by simp
    qed
    then have "(v OR BITS 25 25) AND BITS 25 25 \<noteq> 0" by simp
    then show ?thesis by (simp add: REG_TXDCTL_ENABLE_def BIT_as_BITS field_value_zero_iff)
  qed
  note regs = card_read [OF C] card_write(1) [OF C] card_fields [OF C] card_cleared [OF C]
  have ring_effect: "regs (agent_program_ring H (dev_addr device) q rg h) = (regs h)(
      REG_TDBAH q := ucast (drop_bit 32 rg), REG_TDBAL q := ucast rg, REG_TDLEN q := 4096,
      REG_TXDCTL q := field_set REG_TXDCTL_HTHRESH 4 (field_set REG_TXDCTL_PTHRESH 60 (regs h (REG_TXDCTL q))))" for h
    by (simp add: agent_program_ring_def regs CTRL IXGBE_RING_SIZE_def distinct)
  have head_effect: "regs (agent_program_head H (dev_addr device) q wb h) = (regs h)(
      REG_TDWBAH q := ucast (drop_bit 32 wb), REG_TDWBAL q := ucast wb OR 1,
      REG_DCATXCTRL q := regs h (REG_DCATXCTRL q) AND NOT REG_DCATXCTRL_TX_DESC_WB_RO_EN)" for h
    by (simp add: agent_program_head_def regs CTRL distinct)
  let ?r = "tn_agent_add_output H agent device output_index q om h"
  note regs = card_read [OF C] card_write(1) [OF C] card_fields [OF C] card_cleared [OF C]
  have dev: "device\<lparr>dev_tx_enabled := True\<rparr> = device" if "dev_tx_enabled device" using that by simp
  show "\<exists>agent' h'. ?r = (Inr (agent', device\<lparr>dev_tx_enabled := True\<rparr>, om'), h')
        \<and> regs h' = (regs h)(
            REG_TDBAH q := ucast (drop_bit 32 rg), REG_TDBAL q := ucast rg, REG_TDLEN q := 4096,
            REG_TDWBAH q := ucast (drop_bit 32 wb), REG_TDWBAL q := ucast wb OR 1,
            REG_DCATXCTRL q := regs h (REG_DCATXCTRL q) AND NOT REG_DCATXCTRL_TX_DESC_WB_RO_EN,
            REG_DMATXCTL := (if dev_tx_enabled device then regs h REG_DMATXCTL else regs h REG_DMATXCTL OR REG_DMATXCTL_TE),
            REG_TXDCTL q := field_set REG_TXDCTL_HTHRESH 4 (field_set REG_TXDCTL_PTHRESH 60 (regs h (REG_TXDCTL q))) OR REG_TXDCTL_ENABLE)"
  proof -
    define h0 where "h0 = snd (reg_is_field_cleared H (dev_addr device) (REG_TXDCTL q) REG_TXDCTL_ENABLE h)"
    define h1 where "h1 = agent_program_head H (dev_addr device) q wb (agent_program_ring H (dev_addr device) q rg h0)"
    define h2 where "h2 = (if dev_tx_enabled device then h1 else reg_set_field H (dev_addr device) REG_DMATXCTL REG_DMATXCTL_TE h1)"
    define h3 where "h3 = reg_set_field H (dev_addr device) (REG_TXDCTL q) REG_TXDCTL_ENABLE h2"
    define h4 where "h4 = snd (reg_is_field_cleared H (dev_addr device) (REG_TXDCTL q) REG_TXDCTL_ENABLE (hw_sleep H 0 h3))"
    have h0: "regs h0 = regs h" by (simp add: h0_def regs)
    have h1: "regs h1 (REG_TXDCTL q) = field_set REG_TXDCTL_HTHRESH 4 (field_set REG_TXDCTL_PTHRESH 60 (regs h (REG_TXDCTL q)))"
      "regs h1 REG_DMATXCTL = regs h REG_DMATXCTL"
      unfolding h1_def head_effect ring_effect h0 by (simp_all add: distinct)
    have h3: "regs h3 (REG_TXDCTL q) = regs h1 (REG_TXDCTL q) OR REG_TXDCTL_ENABLE"
      by (simp add: h3_def h2_def regs CTRL distinct)
    have h4: "regs h4 = regs h3" by (simp add: h4_def regs)
    have poll: "if_after_timeout H (1000 * 1000) (reg_is_field_cleared H (dev_addr device) (REG_TXDCTL q) REG_TXDCTL_ENABLE) h3
        = (False, h4)"
      using no_timeout [of "reg_is_field_cleared H (dev_addr device) (REG_TXDCTL q) REG_TXDCTL_ENABLE" H "1000 * 1000" h3]
      by (simp add: regs h3 enabled h4_def)
    have "?r = (Inr (agent\<lparr>ag_ring_addrs := (ag_ring_addrs agent)[unat output_index := ring],
         ag_rings := (ag_rings agent)[unat output_index := ring_descriptors (hw_virt_to_phys H (ag_buffer agent))],
         ag_transmit_tail_addrs := (ag_transmit_tail_addrs agent)[unat output_index := dev_addr device + unat (REG_TDT q)]\<rparr>,
        device\<lparr>dev_tx_enabled := True\<rparr>, om'), h4)"
    proof -
      have first: "reg_is_field_cleared H (dev_addr device) (REG_TXDCTL q) REG_TXDCTL_ENABLE h = (True, h0)"
        using a by (simp add: prod_eq_iff h0_def regs)
      have "\<not> TRANSMIT_QUEUES_COUNT \<le> q" using a by (simp add: TRANSMIT_QUEUES_COUNT_def not_le)
      then show ?thesis
        using a out head(2) poll [simplified, unfolded h3_def h2_def]
        unfolding tn_agent_add_output_def alloc or_else_def arr_get_in [OF out]
        by (cases "dev_tx_enabled device")
          (simp_all add: and_then_def Let_def first rg [symmetric] head(1) [symmetric] h1_def [symmetric] ring_descriptors_def)
    qed
    moreover have "regs h4 = (regs h)(
            REG_TDBAH q := ucast (drop_bit 32 rg), REG_TDBAL q := ucast rg, REG_TDLEN q := 4096,
            REG_TDWBAH q := ucast (drop_bit 32 wb), REG_TDWBAL q := ucast wb OR 1,
            REG_DCATXCTRL q := regs h (REG_DCATXCTRL q) AND NOT REG_DCATXCTRL_TX_DESC_WB_RO_EN,
            REG_DMATXCTL := (if dev_tx_enabled device then regs h REG_DMATXCTL else regs h REG_DMATXCTL OR REG_DMATXCTL_TE),
            REG_TXDCTL q := field_set REG_TXDCTL_HTHRESH 4 (field_set REG_TXDCTL_PTHRESH 60 (regs h (REG_TXDCTL q))) OR REG_TXDCTL_ENABLE)"
      unfolding h4 h3_def h2_def
      by (cases "dev_tx_enabled device")
        (simp_all add: regs CTRL h1_def head_effect ring_effect h0 fun_eq_iff distinct, auto dest!: DMATXCTL_eq)
    ultimately show ?thesis by blast
  qed
next
  assume "ag_transmit_tail_addrs agent ! unat output_index \<noteq> 0"
  then show "tn_agent_add_output H agent device output_index q om h = (Inl (Fatal ''Output is already in use''), h)"
    using out by (simp add: tn_agent_add_output_def and_then_def or_else_def fatal_def)
next
  assume "ag_transmit_tail_addrs agent ! unat output_index = 0 \<and> 128 \<le> q"
  then show "tn_agent_add_output H agent device output_index q om h = (Inl (Fatal ''Transmit queue index is too large''), h)"
    using out by (simp add: tn_agent_add_output_def and_then_def or_else_def fatal_def TRANSMIT_QUEUES_COUNT_def)
next
  assume a: "ag_transmit_tail_addrs agent ! unat output_index = 0 \<and> q < 128
      \<and> field_value REG_TXDCTL_ENABLE (regs h (REG_TXDCTL q)) \<noteq> 0"
  then show "fst (tn_agent_add_output H agent device output_index q om h) = Inl (Fatal ''Transmit queue is already in use'')"
    using out by (simp add: tn_agent_add_output_def and_then_def or_else_def fatal_def TRANSMIT_QUEUES_COUNT_def not_le
        Let_def split_beta card_cleared [OF C])
qed

theorem agent_output_configured_witness:
  "\<exists>agent' h'. tn_agent_add_output example_card
      (zero_agent\<lparr>ag_transmit_tail_addrs := [0], ag_heads_addr := 0x40080480\<rparr>)
      \<lparr>dev_addr = 0xFE000000, dev_rx_enabled = False, dev_tx_enabled = False\<rparr> 0 3
      \<lparr>mem_base = 0x40000000, mem_used = 0x80508\<rparr> (\<lambda>r. 0)
    = (Inr (agent', \<lparr>dev_addr = 0xFE000000, dev_rx_enabled = False, dev_tx_enabled = True\<rparr>, \<lparr>mem_base = 0x40000000, mem_used = 0x81540\<rparr>), h')
    \<and> h' (REG_TDBAL 3) = 0x40080540 \<and> h' (REG_TDLEN 3) = 4096"
proof -
  let ?agent = "zero_agent\<lparr>ag_transmit_tail_addrs := [0], ag_heads_addr := 0x40080480\<rparr>"
  let ?device = "\<lparr>dev_addr = 0xFE000000, dev_rx_enabled = False, dev_tx_enabled = False\<rparr>"
  have alloc: "descriptor_ring_alloc \<lparr>mem_base = 0x40000000, mem_used = 0x80508\<rparr> IXGBE_RING_SIZE
      = Some (0x40080540, \<lparr>mem_base = 0x40000000, mem_used = 0x81540\<rparr>)"
    using example_agent_allocs(6) by (simp add: descriptor_ring_alloc_def ixgbe_constants)
  have C: "card example_card (dev_addr ?device) (\<lambda>h. h) example_defaults" using example_card_ok(1) by simp
  have phys: "hw_virt_to_phys example_card = of_nat" by (simp add: example_card_def)
  have "unat (0 :: size_t) < length (ag_transmit_tail_addrs ?agent)" by simp
  from agent_output_configured [OF C this alloc refl _ refl, of 3 "\<lambda>r. 0"]
  obtain agent' h' where "tn_agent_add_output example_card ?agent ?device 0 3 \<lparr>mem_base = 0x40000000, mem_used = 0x80508\<rparr> (\<lambda>r. 0)
      = (Inr (agent', ?device\<lparr>dev_tx_enabled := True\<rparr>, \<lparr>mem_base = 0x40000000, mem_used = 0x81540\<rparr>), h')"
    "h' (REG_TDBAL 3) = 0x40080540" "h' (REG_TDLEN 3) = 4096"
    by (auto simp: phys example_values fun_upd_def REG_TDBAL_def REG_TDLEN_def REG_TXDCTL_def REG_DCATXCTRL_def
        REG_TDWBAL_def REG_TDWBAH_def REG_DMATXCTL_def REG_TDBAH_def)
  then show ?thesis by auto
qed


end
