(* ===== verification/Ixgbe_Run.thy ===== *)
theory Ixgbe_Run
  imports Ixgbe_Agent
begin

text \<open>
  The processing of packets: \<open>tn_run_peragent\<close> and \<open>tn_run\<close> of \<open>env/src/net/tinynf/ixgbe.c\<close>,
  and \<open>foreach_index_forever\<close> of \<open>env/src/verif/drivers.c\<close>.

  The packet handler works on a state of any type \<open>'s\<close>; \<open>None\<close> means that it has no defined
  result. The card writes to the rings, the packet buffers and the transmit heads while the agent
  runs: the argument \<open>dma\<close> of \<open>tn_run_peragent\<close> says what it has done to the agent's memory
  since the previous iteration. The card does not touch a descriptor between the driver's read of
  its \<open>Descriptor Done\<close> flag and the driver's write, since the flag hands it over to the driver.
\<close>

section \<open>The code\<close>

type_synonym 's packet_handler =
  "'s \<Rightarrow> size_t \<Rightarrow> byte list \<Rightarrow> size_t \<Rightarrow> size_t list \<Rightarrow> ('s \<times> byte list \<times> size_t list) option"

text \<open>The loop that passes the packet to the transmit rings and resets the lengths, from output \<open>n\<close> on.\<close>

function set_descriptors :: "size_t \<Rightarrow> u64 \<Rightarrow> size_t \<Rightarrow> size_t \<Rightarrow> tn_descriptor list list \<Rightarrow> size_t list
    \<Rightarrow> (tn_descriptor list list \<times> size_t list) option" where
  "set_descriptors outputs_count rs_bit delimiter n rings lens =
     (if n < outputs_count then do {
        ring \<leftarrow> arr_get rings n;
        descriptor \<leftarrow> arr_get ring delimiter;
        len \<leftarrow> arr_get lens n;
        ring \<leftarrow> arr_set ring delimiter (descriptor\<lparr>desc_metadata := len OR rs_bit OR BITL (24 + 1) OR BITL 24\<rparr>);
        rings \<leftarrow> arr_set rings n ring;
        lens \<leftarrow> arr_set lens n 0;
        set_descriptors outputs_count rs_bit delimiter (n + 1) rings lens }
      else Some (rings, lens))"
  by pat_completeness auto
termination
  by (relation "measure (\<lambda>(outputs, rs, delimiter, n, rings, lens). unat (outputs - n))")
    (rule wf_measure, simp only: in_measure prod.case word_loop_decreases)

declare set_descriptors.simps [simp del]

text \<open>The loop that finds the earliest transmit head. The difference is computed in 64 bits.\<close>

function earliest_head :: "u32 list \<Rightarrow> size_t \<Rightarrow> size_t \<Rightarrow> size_t \<Rightarrow> u32 \<Rightarrow> u64 \<Rightarrow> u32 option" where
  "earliest_head transmit_heads delimiter outputs_count n earliest_transmit_head min_diff =
     (if n < outputs_count then do {
        head \<leftarrow> arr_get transmit_heads (n * TRANSMIT_HEAD_MULTIPLIER);
        let diff = ucast head - delimiter;
        if diff \<le> min_diff then earliest_head transmit_heads delimiter outputs_count (n + 1) head diff
        else earliest_head transmit_heads delimiter outputs_count (n + 1) earliest_transmit_head min_diff }
      else Some earliest_transmit_head)"
  by pat_completeness auto
termination
  by (relation "measure (\<lambda>(heads, delimiter, outputs, n, earliest, diff). unat (outputs - n))")
    (rule wf_measure, simp_all only: in_measure prod.case word_loop_decreases)

declare earliest_head.simps [simp del]

text \<open>The body of the loop: the flag tells whether there was a packet.\<close>

definition tn_run_iteration ::
    "'h hardware \<Rightarrow> 's packet_handler \<Rightarrow> size_t \<Rightarrow> 's \<Rightarrow> tn_agent \<Rightarrow> 'h \<Rightarrow> (bool \<times> 's \<times> tn_agent \<times> 'h) option" where
  "tn_run_iteration H handler index s agent h = do {
     let delimiter = ag_processed_delimiter agent;
     ring \<leftarrow> arr_get (ag_rings agent) 0;
     descriptor \<leftarrow> arr_get ring delimiter;
     let receive_metadata = desc_metadata descriptor;
     if receive_metadata AND BITL 32 = 0 then Some (False, s, agent, h)
     else do {
     let len = (ucast (receive_metadata AND 0xFFFF) :: u16);
     packet \<leftarrow> arr_get (ag_packets agent) delimiter;
     (s, packet, lens) \<leftarrow> handler s index packet (ucast len) (ag_lengths agent);
     packets \<leftarrow> arr_set (ag_packets agent) delimiter packet;
     let rs_bit = push_bit (24 + 3) (if delimiter AND (IXGBE_AGENT_RECYCLE_PERIOD - 1) = IXGBE_AGENT_RECYCLE_PERIOD - 1 then 1 else 0);
     (rings, lens) \<leftarrow> set_descriptors (ag_outputs_count agent) rs_bit delimiter 0 (ag_rings agent) lens;
     let delimiter = (delimiter + 1) AND (IXGBE_RING_SIZE - 1);
     let agent = agent\<lparr>ag_packets := packets, ag_lengths := lens, ag_rings := rings, ag_processed_delimiter := delimiter\<rparr>;
     h \<leftarrow> (if rs_bit \<noteq> 0 then do {
         earliest_transmit_head \<leftarrow>
           earliest_head (ag_transmit_heads agent) delimiter (ag_outputs_count agent) 0 (ucast delimiter) (- 1);
         Some (reg_write_raw H (ag_receive_tail_addr agent) ((earliest_transmit_head - 1) AND (ucast IXGBE_RING_SIZE - 1)) h) }
       else Some h);
     Some (True, s, agent, h) } }"

function tn_run_loop ::
    "'h hardware \<Rightarrow> 's packet_handler \<Rightarrow> (size_t \<Rightarrow> tn_agent \<Rightarrow> tn_agent) \<Rightarrow> size_t \<Rightarrow> size_t \<Rightarrow> 's \<Rightarrow> tn_agent \<Rightarrow> 'h
     \<Rightarrow> (size_t \<times> 's \<times> tn_agent \<times> 'h) option" where
  "tn_run_loop H handler dma index flush_counter s agent h =
     (if flush_counter < IXGBE_AGENT_FLUSH_PERIOD then do {
        (received, s, agent, h) \<leftarrow> tn_run_iteration H handler index s (dma flush_counter agent) h;
        if \<not> received then Some (flush_counter, s, agent, h)
        else tn_run_loop H handler dma index (flush_counter + 1) s agent h }
      else Some (flush_counter, s, agent, h))"
  by pat_completeness auto
termination
  by (relation "measure (\<lambda>(H, handler, dma, index, flush_counter, s, agent, h). unat (IXGBE_AGENT_FLUSH_PERIOD - flush_counter))")
    (rule wf_measure, simp only: in_measure prod.case split_beta fst_conv snd_conv word_loop_decreases)

declare tn_run_loop.simps [simp del]

text \<open>The loop that moves the transmit tails to the delimiter.\<close>

function flush_tails :: "'h hardware \<Rightarrow> addr list \<Rightarrow> size_t \<Rightarrow> u32 \<Rightarrow> size_t \<Rightarrow> 'h \<Rightarrow> 'h option" where
  "flush_tails H transmit_tail_addrs outputs_count delimiter n h =
     (if n < outputs_count then do {
        tail_addr \<leftarrow> arr_get transmit_tail_addrs n;
        flush_tails H transmit_tail_addrs outputs_count delimiter (n + 1) (reg_write_raw H tail_addr delimiter h) }
      else Some h)"
  by pat_completeness auto
termination
  by (relation "measure (\<lambda>(H, tails, outputs, delimiter, n, h). unat (outputs - n))")
    (rule wf_measure, simp only: in_measure prod.case word_loop_decreases)

declare flush_tails.simps [simp del]

definition tn_run_peragent ::
    "'h hardware \<Rightarrow> 's packet_handler \<Rightarrow> (size_t \<Rightarrow> tn_agent \<Rightarrow> tn_agent) \<Rightarrow> size_t \<Rightarrow> 's \<Rightarrow> tn_agent list \<Rightarrow> 'h
     \<Rightarrow> ('s \<times> tn_agent list \<times> 'h) option" where
  "tn_run_peragent H handler dma index s agents h = do {
     agent \<leftarrow> arr_get agents index;
     (flush_counter, s, agent, h) \<leftarrow> tn_run_loop H handler dma index 0 s agent h;
     h \<leftarrow> (if flush_counter \<noteq> 0
       then flush_tails H (ag_transmit_tail_addrs agent) (ag_outputs_count agent) (ucast (ag_processed_delimiter agent)) 0 h
       else Some h);
     agents \<leftarrow> arr_set agents index agent;
     Some (s, agents, h) }"

text \<open>
  \<open>tn_run\<close> never returns: \<open>foreach_index_forever\<close> repeats its \<open>for\<close> loop. \<open>foreach_index\<close> is
  that loop and \<open>tn_run_rounds\<close> the state after a number of repetitions; the card's writes differ
  in each round and for each agent.
\<close>

function foreach_index :: "(size_t \<Rightarrow> 'x \<Rightarrow> 'x option) \<Rightarrow> size_t \<Rightarrow> size_t \<Rightarrow> 'x \<Rightarrow> 'x option" where
  "foreach_index func len index x =
     (if index < len then do { x \<leftarrow> func index x; foreach_index func len (index + 1) x } else Some x)"
  by pat_completeness auto
termination
  by (relation "measure (\<lambda>(func, len, index, x). unat (len - index))")
    (rule wf_measure, simp only: in_measure prod.case word_loop_decreases)

declare foreach_index.simps [simp del]

primrec tn_run_rounds ::
    "'h hardware \<Rightarrow> 's packet_handler \<Rightarrow> (nat \<Rightarrow> size_t \<Rightarrow> size_t \<Rightarrow> tn_agent \<Rightarrow> tn_agent) \<Rightarrow> size_t \<Rightarrow> nat
     \<Rightarrow> 's \<times> tn_agent list \<times> 'h \<Rightarrow> ('s \<times> tn_agent list \<times> 'h) option" where
  "tn_run_rounds H handler dma agents_count 0 x = Some x"
| "tn_run_rounds H handler dma agents_count (Suc k) x = do {
     x \<leftarrow> tn_run_rounds H handler dma agents_count k x;
     foreach_index (\<lambda>index (s, agents, h). tn_run_peragent H handler (dma k index) index s agents h) agents_count 0 x }"

section \<open>The loops\<close>

text \<open>The metadata of a packet that is handed to the card, and the descriptors of a ring with it.\<close>

definition transmit_metadata :: "u64 \<Rightarrow> size_t \<Rightarrow> u64" where
  "transmit_metadata rs_bit len = len OR rs_bit OR BITL (24 + 1) OR BITL 24"

definition hand_over :: "u64 \<Rightarrow> size_t \<Rightarrow> size_t \<Rightarrow> tn_descriptor list \<Rightarrow> tn_descriptor list" where
  "hand_over rs_bit delimiter len ring =
     ring[unat delimiter := (ring ! unat delimiter)\<lparr>desc_metadata := transmit_metadata rs_bit len\<rparr>]"

lemma set_descriptors_correct:
  assumes "length rings = unat outputs_count" "length lens = unat outputs_count"
    "\<forall>ring \<in> set rings. unat delimiter < length ring" "unat n \<le> unat outputs_count"
  shows "set_descriptors outputs_count rs_bit delimiter n rings lens
    = Some (take (unat n) rings @ map2 (hand_over rs_bit delimiter) (drop (unat n) lens) (drop (unat n) rings),
        take (unat n) lens @ replicate (unat outputs_count - unat n) 0)"
  using assms
proof (induction outputs_count rs_bit delimiter n rings lens rule: set_descriptors.induct)
  case (1 outputs_count rs_bit delimiter n rings lens)
  show ?case
  proof (cases "n < outputs_count")
    case True
    then have n: "unat n < length rings" "unat n < length lens"
      using "1.prems"(1,2) by (simp_all add: word_less_nat_alt)
    have Suc_n: "unat (n + 1) = Suc (unat n)" by (rule unat_Suc_word [OF True])
    let ?ring = "rings ! unat n" and ?len = "lens ! unat n"
    have d: "unat delimiter < length ?ring" using n(1) "1.prems"(3) by simp
    let ?rings = "rings[unat n := hand_over rs_bit delimiter ?len ?ring]"
    have step: "set_descriptors outputs_count rs_bit delimiter n rings lens
        = set_descriptors outputs_count rs_bit delimiter (n + 1) ?rings (lens[unat n := 0])"
      using True n d by (simp add: set_descriptors.simps [of outputs_count rs_bit delimiter n rings lens]
          hand_over_def transmit_metadata_def)
    have wide: "\<forall>ring \<in> set ?rings. unat delimiter < length ring"
      using "1.prems"(3) d by (auto dest!: set_update_subset_insert [THEN subsetD] simp: hand_over_def)
    have "set_descriptors outputs_count rs_bit delimiter (n + 1) ?rings (lens[unat n := 0])
      = Some (take (unat (n + 1)) ?rings
            @ map2 (hand_over rs_bit delimiter) (drop (unat (n + 1)) (lens[unat n := 0])) (drop (unat (n + 1)) ?rings),
          take (unat (n + 1)) (lens[unat n := 0]) @ replicate (unat outputs_count - unat (n + 1)) 0)"
      using True n d Suc_n "1.prems" wide
      by (intro "1.IH" [OF True, of ?ring "?ring ! unat delimiter" ?len
            "hand_over rs_bit delimiter ?len ?ring" ?rings "lens[unat n := 0]"])
        (simp_all add: hand_over_def transmit_metadata_def word_less_nat_alt)
    moreover have "drop (unat n) lens = ?len # drop (Suc (unat n)) lens" "drop (unat n) rings = ?ring # drop (Suc (unat n)) rings"
      using n by (simp_all add: Cons_nth_drop_Suc)
    moreover have "unat outputs_count - unat n = Suc (unat outputs_count - Suc (unat n))"
      using n "1.prems"(1) by simp
    ultimately show ?thesis
      using n Suc_n by (simp add: step take_Suc_conv_app_nth)
  next
    case False
    then have "unat n = unat outputs_count" using "1.prems"(4) by (simp add: word_less_nat_alt)
    with False show ?thesis using "1.prems" by (simp add: set_descriptors.simps)
  qed
qed

text \<open>
  How far a transmit head is behind the delimiter, on the ring: the number of descriptors that the
  card has still to transmit. The code minimises another number, and with it maximises this one.
\<close>

definition pending :: "size_t \<Rightarrow> u32 \<Rightarrow> nat" where
  "pending delimiter head = (unat delimiter + 256 - unat head) mod 256"

lemma head_diff:
  fixes head :: u32
  assumes "unat delimiter < 256" "unat head < 256"
  shows "unat (ucast head - delimiter :: u64)
    = (if unat delimiter \<le> unat head then unat head - unat delimiter else 2 ^ 64 + unat head - unat delimiter)"
proof -
  have "unat (ucast head :: u64) = unat head" by (rule unat_ucast_32_64)
  then show ?thesis using assms by (auto simp: unat_sub_if' word_le_nat_alt)
qed

lemma head_diff_antimono:
  assumes "unat delimiter < 256" "unat a < 256" "unat b < 256" "ucast a \<noteq> delimiter" "ucast b \<noteq> delimiter"
    and "(ucast a - delimiter :: u64) \<le> ucast b - delimiter"
  shows "pending delimiter b \<le> pending delimiter a"
proof -
  have ne: "unat a \<noteq> unat delimiter" "unat b \<noteq> unat delimiter" using assms(4,5) by (auto simp: word_unat_eq_iff)
  have pend: "pending delimiter x = (if unat delimiter < unat x then unat delimiter + 256 - unat x else unat delimiter - unat x)"
    if "unat x < 256" "unat x \<noteq> unat delimiter" for x
    using that assms(1) by (auto simp: pending_def mod_if)
  have "unat (ucast a - delimiter :: u64) \<le> unat (ucast b - delimiter :: u64)" using assms(6) by (simp add: word_le_nat_alt)
  then show ?thesis
    using assms(1-3) ne unfolding head_diff [OF assms(1,2)] head_diff [OF assms(1,3)] pend [OF assms(2) ne(1)] pend [OF assms(3) ne(2)]
    by (auto split: if_splits)
qed

lemma earliest_head_correct:
  assumes "length heads = unat outputs_count * 16" "unat outputs_count < 65536" "unat n \<le> unat outputs_count"
    and "\<forall>j < unat n. min_diff \<le> ucast (heads ! (j * 16)) - delimiter"
    and "if n = 0 then min_diff = - 1 else \<exists>j < unat n. earliest = heads ! (j * 16) \<and> min_diff = ucast earliest - delimiter"
    and "0 < outputs_count"
  shows "\<exists>j < unat outputs_count. earliest_head heads delimiter outputs_count n earliest min_diff = Some (heads ! (j * 16))
    \<and> (\<forall>k < unat outputs_count. (ucast (heads ! (j * 16)) - delimiter :: u64) \<le> ucast (heads ! (k * 16)) - delimiter)"
  using assms
proof (induction heads delimiter outputs_count n earliest min_diff rule: earliest_head.induct)
  case (1 heads delimiter outputs_count n earliest min_diff)
  show ?case
  proof (cases "n < outputs_count")
    case True
    then have n: "unat n < unat outputs_count" by (simp add: word_less_nat_alt)
    have Suc_n: "unat (n + 1) = Suc (unat n)" by (rule unat_Suc_word [OF True])
    have "n + 1 \<noteq> 0" using Suc_n by auto
    have mult: "unat (n * TRANSMIT_HEAD_MULTIPLIER) = unat n * 16"
      unfolding TRANSMIT_HEAD_MULTIPLIER_def
      using n "1.prems"(2) by (subst unat_mult_lem [THEN iffD1]) simp_all
    let ?head = "heads ! (unat n * 16)"
    let ?diff = "ucast ?head - delimiter :: u64"
    have get: "arr_get heads (n * TRANSMIT_HEAD_MULTIPLIER) = Some ?head"
      using n "1.prems"(1) by (simp add: mult)
    show ?thesis
    proof (cases "?diff \<le> min_diff")
      case le: True
      have below: "\<forall>j < unat (n + 1). ?diff \<le> ucast (heads ! (j * 16)) - delimiter"
        using "1.prems"(4) le Suc_n by (auto simp: less_Suc_eq intro: order_trans)
      have "\<exists>j < unat outputs_count. earliest_head heads delimiter outputs_count (n + 1) ?head ?diff = Some (heads ! (j * 16))
          \<and> (\<forall>k < unat outputs_count. (ucast (heads ! (j * 16)) - delimiter :: u64) \<le> ucast (heads ! (k * 16)) - delimiter)"
        using "1.IH"(1) [OF True get refl le "1.prems"(1,2) _ below _ "1.prems"(6)] n Suc_n \<open>n + 1 \<noteq> 0\<close>
        by (auto simp: Suc_le_eq)
      then show ?thesis
        using True le get by (simp add: earliest_head.simps [of heads delimiter outputs_count n earliest min_diff])
    next
      case gt: False
      then have "n \<noteq> 0" using "1.prems"(5) by (auto simp: word_order.extremum split: if_splits)
      have below: "\<forall>j < unat (n + 1). min_diff \<le> ucast (heads ! (j * 16)) - delimiter"
        using "1.prems"(4) gt Suc_n by (auto simp: less_Suc_eq)
      have "\<exists>j < unat outputs_count. earliest_head heads delimiter outputs_count (n + 1) earliest min_diff = Some (heads ! (j * 16))
          \<and> (\<forall>k < unat outputs_count. (ucast (heads ! (j * 16)) - delimiter :: u64) \<le> ucast (heads ! (k * 16)) - delimiter)"
        using "1.IH"(2) [OF True get refl gt "1.prems"(1,2) _ below _ "1.prems"(6)] n Suc_n \<open>n + 1 \<noteq> 0\<close> \<open>n \<noteq> 0\<close> "1.prems"(5)
        by (auto simp: Suc_le_eq less_Suc_eq)
      then show ?thesis
        using True gt get by (simp add: earliest_head.simps [of heads delimiter outputs_count n earliest min_diff])
    qed
  next
    case False
    then have n: "unat n = unat outputs_count" using "1.prems"(3) by (simp add: word_less_nat_alt)
    then have "n \<noteq> 0" using "1.prems"(6) by (auto simp: word_less_nat_alt)
    then show ?thesis
      using False n "1.prems"(4,5) by (auto simp: earliest_head.simps)
  qed
qed

section \<open>One iteration\<close>

text \<open>What the recycling writes to the receive tail: one before the head that is most behind.\<close>

definition recycled_tail :: "tn_agent \<Rightarrow> size_t \<Rightarrow> u32" where
  "recycled_tail agent delimiter =
     (case earliest_head (ag_transmit_heads agent) delimiter (ag_outputs_count agent) 0 (ucast delimiter) (- 1) of
        Some head \<Rightarrow> (head - 1) AND 255 | None \<Rightarrow> 0)"

definition recycles :: "size_t \<Rightarrow> bool" where
  "recycles delimiter \<longleftrightarrow> unat delimiter mod 64 = 63"

definition rs_bit_of :: "size_t \<Rightarrow> u64" where
  "rs_bit_of delimiter = push_bit 27 (if recycles delimiter then 1 else 0)"

definition next_delimiter :: "size_t \<Rightarrow> size_t" where
  "next_delimiter delimiter = of_nat ((unat delimiter + 1) mod 256)"

definition has_packet :: "tn_agent \<Rightarrow> bool" where
  "has_packet agent \<longleftrightarrow> bit (desc_metadata (ag_rings agent ! 0 ! unat (ag_processed_delimiter agent))) 32"

definition packet_length :: "tn_agent \<Rightarrow> u64" where
  "packet_length agent = take_bit 16 (desc_metadata (ag_rings agent ! 0 ! unat (ag_processed_delimiter agent)))"

text \<open>The agent after a packet: the packet is handed over to every output with the length for it.\<close>

definition after_packet :: "tn_agent \<Rightarrow> byte list \<Rightarrow> size_t list \<Rightarrow> tn_agent" where
  "after_packet agent packet lens = (let delimiter = ag_processed_delimiter agent in
     agent\<lparr>ag_packets := (ag_packets agent)[unat delimiter := packet],
       ag_lengths := replicate (unat (ag_outputs_count agent)) 0,
       ag_rings := map2 (hand_over (rs_bit_of delimiter) delimiter) lens (ag_rings agent),
       ag_processed_delimiter := next_delimiter delimiter\<rparr>)"

lemma recycles_eq: "delimiter AND (IXGBE_AGENT_RECYCLE_PERIOD - 1) = IXGBE_AGENT_RECYCLE_PERIOD - 1 \<longleftrightarrow> recycles delimiter"
proof -
  have "unat (delimiter AND (IXGBE_AGENT_RECYCLE_PERIOD - 1)) = unat delimiter mod 2 ^ 6"
    by (rule and_pow2_minus_1) (simp add: ixgbe_constants)
  then show ?thesis by (simp add: word_unat_eq_iff recycles_def IXGBE_AGENT_RECYCLE_PERIOD_def)
qed

lemma next_delimiter_eq: "(delimiter + 1) AND (IXGBE_RING_SIZE - 1) = next_delimiter delimiter"
proof -
  have "unat ((delimiter + 1) AND (IXGBE_RING_SIZE - 1)) = unat (delimiter + 1) mod 2 ^ 8"
    by (rule and_pow2_minus_1) (simp add: ixgbe_constants)
  also have "\<dots> = (unat delimiter + 1) mod 256"
    by (simp add: unat_word_ariths mod_mod_cancel)
  finally show ?thesis by (simp add: word_unat_eq_iff next_delimiter_def)
qed

lemma next_delimiter_less: "unat (next_delimiter delimiter) < 256"
  by (simp add: next_delimiter_def)

lemma low_half: "(receive_metadata AND 0xFFFF :: u64) = take_bit 16 receive_metadata"
  by (simp add: take_bit_eq_mask mask_eq_exp_minus_1)

lemma done_flag: "receive_metadata AND BITL 32 = 0 \<longleftrightarrow> \<not> bit receive_metadata 32"
proof -
  have "bit (BITL 32) m \<longleftrightarrow> m = 32" for m
    by (simp only: BITL_def bit_push_bit_iff bit_1_iff) auto
  note bits = this
  show ?thesis
  proof
    assume "receive_metadata AND BITL 32 = 0"
    then have "\<not> bit (receive_metadata AND BITL 32) 32" by simp
    then show "\<not> bit receive_metadata 32" by (simp add: bit_and_iff bits)
  next
    assume "\<not> bit receive_metadata 32"
    then show "receive_metadata AND BITL 32 = 0" by (intro bit_word_eqI) (auto simp: bit_and_iff bits)
  qed
qed

lemma agent_ok_ring:
  assumes "agent_ok agent"
  shows "unat (ag_processed_delimiter agent) < 256" "0 < length (ag_rings agent)"
    "\<forall>ring \<in> set (ag_rings agent). length ring = 256" "length (ag_rings agent ! 0) = 256" "length (ag_packets agent) = 256"
proof -
  show d: "unat (ag_processed_delimiter agent) < 256" "0 < length (ag_rings agent)"
    and rings: "\<forall>ring \<in> set (ag_rings agent). length ring = 256" "length (ag_packets agent) = 256"
    using assms by (auto simp: agent_ok_def ixgbe_constants word_less_nat_alt)
  show "length (ag_rings agent ! 0) = 256" using rings(1) nth_mem [OF d(2)] by blast
qed

lemma run_iteration_idle:
  assumes "agent_ok agent" "\<not> has_packet agent"
  shows "tn_run_iteration H handler index s agent h = Some (False, s, agent, h)"
proof -
  show ?thesis
    using assms(2) agent_ok_ring [OF assms(1)] by (simp add: tn_run_iteration_def has_packet_def done_flag)
qed

lemma run_iteration_packet:
  assumes ok: "agent_ok agent" and packet: "has_packet agent"
    and handled: "handler s index (ag_packets agent ! unat (ag_processed_delimiter agent)) (packet_length agent) (ag_lengths agent)
      = Some (s', packet', lens')"
    and lens': "length lens' = unat (ag_outputs_count agent)"
  shows "tn_run_iteration H handler index s agent h = Some (True, s', after_packet agent packet' lens',
      if recycles (ag_processed_delimiter agent)
      then reg_write_raw H (ag_receive_tail_addr agent) (recycled_tail agent (next_delimiter (ag_processed_delimiter agent))) h
      else h)"
    "recycles (ag_processed_delimiter agent) \<Longrightarrow> \<exists>j < unat (ag_outputs_count agent).
       recycled_tail agent (next_delimiter (ag_processed_delimiter agent)) = (ag_transmit_heads agent ! (j * 16) - 1) AND 255
       \<and> (\<forall>k < unat (ag_outputs_count agent).
            (ucast (ag_transmit_heads agent ! (j * 16)) - next_delimiter (ag_processed_delimiter agent) :: u64)
            \<le> ucast (ag_transmit_heads agent ! (k * 16)) - next_delimiter (ag_processed_delimiter agent))"
proof -
  let ?d = "ag_processed_delimiter agent"
  note d = agent_ok_ring(1) [OF ok] and rings = agent_ok_ring(2,3) [OF ok] and ring0 = agent_ok_ring(4) [OF ok]
  have len: "(ucast (ucast (take_bit 16 w :: u64) :: u16) :: u64) = take_bit 16 w" for w
    by (rule bit_word_eqI) (auto simp: bit_simps)
  have rs: "push_bit (24 + 3) (if ?d AND (IXGBE_AGENT_RECYCLE_PERIOD - 1) = IXGBE_AGENT_RECYCLE_PERIOD - 1 then 1 else 0) = rs_bit_of ?d"
    by (simp add: recycles_eq rs_bit_of_def)
  have rs0: "rs_bit_of ?d \<noteq> 0 \<longleftrightarrow> recycles ?d" by (simp add: rs_bit_of_def)
  have set: "set_descriptors (ag_outputs_count agent) (rs_bit_of ?d) ?d 0 (ag_rings agent) lens'
    = Some (map2 (hand_over (rs_bit_of ?d) ?d) lens' (ag_rings agent), replicate (unat (ag_outputs_count agent)) 0)"
    using set_descriptors_correct [of "ag_rings agent" "ag_outputs_count agent" lens' ?d 0 "rs_bit_of ?d"] ok lens' rings d
    by (simp add: agent_ok_def)
  obtain j where j: "j < unat (ag_outputs_count agent)"
    "earliest_head (ag_transmit_heads agent) (next_delimiter ?d) (ag_outputs_count agent) 0 (ucast (next_delimiter ?d)) (- 1)
      = Some (ag_transmit_heads agent ! (j * 16))"
    "\<forall>k < unat (ag_outputs_count agent). (ucast (ag_transmit_heads agent ! (j * 16)) - next_delimiter ?d :: u64)
       \<le> ucast (ag_transmit_heads agent ! (k * 16)) - next_delimiter ?d"
    using earliest_head_correct [of "ag_transmit_heads agent" "ag_outputs_count agent" 0 "- 1" "next_delimiter ?d" "ucast (next_delimiter ?d)"] ok
    by (auto simp: agent_ok_def word_less_nat_alt)
  have ring_mask: "(ucast IXGBE_RING_SIZE - 1 :: u32) = 255" by (simp add: ixgbe_constants)
  show "tn_run_iteration H handler index s agent h = Some (True, s', after_packet agent packet' lens',
      if recycles ?d then reg_write_raw H (ag_receive_tail_addr agent) (recycled_tail agent (next_delimiter ?d)) h else h)"
    using packet handled j(2) agent_ok_ring [OF ok]
    unfolding tn_run_iteration_def Let_def rs next_delimiter_eq low_half done_flag rs0
    by (simp add: has_packet_def len packet_length_def set after_packet_def recycled_tail_def ring_mask Let_def)
  show "\<exists>j < unat (ag_outputs_count agent).
       recycled_tail agent (next_delimiter ?d) = (ag_transmit_heads agent ! (j * 16) - 1) AND 255
       \<and> (\<forall>k < unat (ag_outputs_count agent).
            (ucast (ag_transmit_heads agent ! (j * 16)) - next_delimiter ?d :: u64)
            \<le> ucast (ag_transmit_heads agent ! (k * 16)) - next_delimiter ?d)"
    if "recycles ?d"
    using j by (auto simp: recycled_tail_def)
qed
section \<open>Packet handlers\<close>

text \<open>An agent between packets: its lengths are zero.\<close>

definition agent_idle :: "size_t \<Rightarrow> tn_agent \<Rightarrow> bool" where
  "agent_idle outputs agent \<longleftrightarrow>
     agent_ok agent \<and> ag_outputs_count agent = outputs \<and> (\<forall>l \<in> set (ag_lengths agent). l = 0)"

text \<open>
  The card only writes to the contents of the packet buffers, the metadata of descriptors and the
  transmit heads.
\<close>

definition card_writes :: "tn_agent \<Rightarrow> tn_agent \<Rightarrow> bool" where
  "card_writes a b \<longleftrightarrow>
     (\<exists>packets rings heads. b = a\<lparr>ag_packets := packets, ag_rings := rings, ag_transmit_heads := heads\<rparr>
        \<and> length packets = length (ag_packets a) \<and> (\<forall>p \<in> set packets. length p = 2048)
        \<and> length heads = length (ag_transmit_heads a)
        \<and> map (map desc_addr) rings = map (map desc_addr) (ag_rings a))"

lemma card_writes_idle:
  assumes "card_writes a b" "agent_idle outputs a"
  shows "agent_idle outputs b" "ag_transmit_tail_addrs b = ag_transmit_tail_addrs a"
proof -
  obtain packets rings heads where b: "b = a\<lparr>ag_packets := packets, ag_rings := rings, ag_transmit_heads := heads\<rparr>"
    "length packets = length (ag_packets a)" "\<forall>p \<in> set packets. length p = 2048"
    "length heads = length (ag_transmit_heads a)" "map (map desc_addr) rings = map (map desc_addr) (ag_rings a)"
    using assms(1) unfolding card_writes_def by blast
  have len: "length rings = length (ag_rings a)" using b(5) by (rule map_eq_imp_length_eq)
  have "length ring = 256" if ring: "ring \<in> set rings" for ring
  proof -
    obtain i where i: "i < length rings" "rings ! i = ring" using ring unfolding in_set_conv_nth by blast
    have "map desc_addr (rings ! i) = map desc_addr (ag_rings a ! i)"
      using arg_cong [OF b(5), of "\<lambda>xs. xs ! i"] i(1) len by simp
    then have "length ring = length (ag_rings a ! i)" using i(2) map_eq_imp_length_eq by blast
    then show ?thesis using assms(2) i(1) len by (simp add: agent_idle_def agent_ok_def)
  qed
  then show "agent_idle outputs b" "ag_transmit_tail_addrs b = ag_transmit_tail_addrs a"
    using assms(2) b len by (auto simp: agent_idle_def agent_ok_def)
qed

lemma after_packet_ok:
  assumes ok: "agent_ok agent" and "length packet = 2048" "length lens = unat (ag_outputs_count agent)"
  shows "agent_ok (after_packet agent packet lens)"
proof -
  have "length ring = 256" if "ring \<in> set (map2 (hand_over rs d) lens (ag_rings agent))" for ring rs d
    using that agent_ok_ring(3) [OF ok] by (auto simp: hand_over_def dest!: set_zip_rightD)
  moreover have "length p = 2048" if "p \<in> set ((ag_packets agent)[i := packet])" for p i
    using set_mp [OF set_update_subset_insert that] ok assms(2) by (auto simp: agent_ok_def)
  ultimately show ?thesis
    using ok assms(3) next_delimiter_less [of "ag_processed_delimiter agent"]
    unfolding agent_ok_def after_packet_def Let_def by (simp add: word_less_nat_alt IXGBE_RING_SIZE_def)
qed

lemma flush_tails_total:
  "length tails = unat outputs_count \<Longrightarrow> \<exists>h'. flush_tails H tails outputs_count delimiter n h = Some h'"
proof (induction H tails outputs_count delimiter n h rule: flush_tails.induct)
  case (1 H tails outputs_count delimiter n h)
  show ?case
  proof (cases "n < outputs_count")
    case True
    then have get: "arr_get tails n = Some (tails ! unat n)" using "1.prems" by (simp add: word_less_nat_alt)
    then show ?thesis
      using True "1.IH" [OF True get "1.prems"] by (simp add: flush_tails.simps [of H tails outputs_count delimiter n h])
  qed (simp add: flush_tails.simps)
qed

text \<open>
  What the driver asks of a packet handler: on a packet buffer and an array of zero lengths for the
  other devices it has a defined result, and keeps their sizes; the lengths it sets fit into the
  16 bits of a descriptor.
\<close>

locale tn_handler =
  fixes handler :: "'s packet_handler" and inv :: "'s \<Rightarrow> bool" and devices_count :: size_t
  assumes handles: "inv s \<Longrightarrow> unat index < unat devices_count \<Longrightarrow> length packet = 2048 \<Longrightarrow> unat len < 65536
      \<Longrightarrow> length lens = unat (devices_count - 1) \<Longrightarrow> \<forall>l \<in> set lens. l = 0
      \<Longrightarrow> \<exists>s' packet' lens'. handler s index packet len lens = Some (s', packet', lens')
            \<and> inv s' \<and> length packet' = 2048 \<and> length lens' = length lens \<and> (\<forall>l \<in> set lens'. unat l < 65536)"
begin

lemma iteration_handles:
  assumes "inv s" "agent_idle (devices_count - 1) agent" "unat index < unat devices_count"
  shows "\<exists>received s' agent' h'. tn_run_iteration H handler index s agent h = Some (received, s', agent', h')
    \<and> inv s' \<and> agent_idle (devices_count - 1) agent' \<and> ag_transmit_tail_addrs agent' = ag_transmit_tail_addrs agent"
proof (cases "has_packet agent")
  case False
  then have "tn_run_iteration H handler index s agent h = Some (False, s, agent, h)"
    using assms(2) by (simp add: agent_idle_def run_iteration_idle)
  with assms show ?thesis by blast
next
  case True
  have ok: "agent_ok agent" and outs: "ag_outputs_count agent = devices_count - 1"
    using assms(2) by (simp_all add: agent_idle_def)
  have zero_lens: "length (ag_lengths agent) = unat (devices_count - 1)" "\<forall>l \<in> set (ag_lengths agent). l = 0"
    using assms(2) ok outs by (simp_all add: agent_idle_def agent_ok_def)
  have "length (ag_packets agent ! unat (ag_processed_delimiter agent)) = 2048"
    using agent_ok_ring [OF ok] ok by (simp add: agent_ok_def)
  moreover have "unat (packet_length agent) < 65536"
    using take_bit_nat_less_exp [of 16] by (simp only: packet_length_def unsigned_take_bit_eq) simp
  ultimately obtain s' packet' lens' where handled:
    "handler s index (ag_packets agent ! unat (ag_processed_delimiter agent)) (packet_length agent) (ag_lengths agent)
      = Some (s', packet', lens')"
    "inv s'" "length packet' = 2048" "length lens' = length (ag_lengths agent)"
    using handles [OF assms(1,3) _ _ zero_lens(1,2)] by blast
  have len: "length lens' = unat (ag_outputs_count agent)" using handled(4) ok by (simp add: agent_ok_def)
  have "agent_ok (after_packet agent packet' lens')" by (rule after_packet_ok [OF ok handled(3) len])
  then have "agent_idle (devices_count - 1) (after_packet agent packet' lens')"
    "ag_transmit_tail_addrs (after_packet agent packet' lens') = ag_transmit_tail_addrs agent"
    using outs by (simp_all add: agent_idle_def after_packet_def Let_def)
  then show ?thesis
    using run_iteration_packet(1) [where handler = handler, OF ok True handled(1) len, of H h] handled(2) by blast
qed

lemma loop_handles:
  assumes "inv s" "agent_idle (devices_count - 1) agent" "unat index < unat devices_count"
    and "\<And>i a. card_writes a (dma i a)"
  shows "\<exists>flush_counter s' agent' h'. tn_run_loop H handler dma index n s agent h = Some (flush_counter, s', agent', h')
    \<and> inv s' \<and> agent_idle (devices_count - 1) agent' \<and> ag_transmit_tail_addrs agent' = ag_transmit_tail_addrs agent"
  using assms
proof (induction "unat (IXGBE_AGENT_FLUSH_PERIOD - n)" arbitrary: n s agent h rule: less_induct)
  case less
  show ?case
  proof (cases "n < IXGBE_AGENT_FLUSH_PERIOD")
    case False
    then show ?thesis using less.prems by (simp add: tn_run_loop.simps)
  next
    case True
    note written = card_writes_idle [OF less.prems(4) less.prems(2), of n]
    obtain received s1 agent1 h1 where step: "tn_run_iteration H handler index s (dma n agent) h = Some (received, s1, agent1, h1)"
      "inv s1" "agent_idle (devices_count - 1) agent1" "ag_transmit_tail_addrs agent1 = ag_transmit_tail_addrs (dma n agent)"
      using iteration_handles [OF less.prems(1) written(1) less.prems(3), where H = H and h = h] by blast
    show ?thesis
    proof (cases received)
      case False
      then show ?thesis
        using True step written(2) by (simp add: tn_run_loop.simps [of H handler dma index n s agent h])
    next
      case received: True
      have "unat (IXGBE_AGENT_FLUSH_PERIOD - (n + 1)) < unat (IXGBE_AGENT_FLUSH_PERIOD - n)"
        by (rule word_loop_decreases [OF True])
      from less.hyps [OF this step(2,3) less.prems(3,4)] True step written(2) received show ?thesis
        by (simp add: tn_run_loop.simps [of H handler dma index n s agent h])
    qed
  qed
qed

lemma peragent_handles:
  assumes "inv s" "\<forall>agent \<in> set agents. agent_idle (devices_count - 1) agent" "unat index < unat devices_count"
    and "length agents = unat devices_count" "\<And>i a. card_writes a (dma i a)"
  shows "\<exists>s' agents' h'. tn_run_peragent H handler dma index s agents h = Some (s', agents', h')
    \<and> inv s' \<and> (\<forall>agent \<in> set agents'. agent_idle (devices_count - 1) agent) \<and> length agents' = length agents"
proof -
  have idx: "unat index < length agents" using assms(3,4) by simp
  then have idle: "agent_idle (devices_count - 1) (agents ! unat index)" using assms(2) by simp
  obtain n s' agent' h' where loop: "tn_run_loop H handler dma index 0 s (agents ! unat index) h = Some (n, s', agent', h')"
    "inv s'" "agent_idle (devices_count - 1) agent'"
    using loop_handles [where dma = dma and n = 0 and H = H and h = h, OF assms(1) idle assms(3,5)] by blast
  have "length (ag_transmit_tail_addrs agent') = unat (ag_outputs_count agent')"
    using loop(3) by (simp add: agent_idle_def agent_ok_def)
  then obtain h2 where "flush_tails H (ag_transmit_tail_addrs agent') (ag_outputs_count agent') (ucast (ag_processed_delimiter agent')) 0 h' = Some h2"
    using flush_tails_total [of "ag_transmit_tail_addrs agent'" "ag_outputs_count agent'" H "ucast (ag_processed_delimiter agent')" 0 h'] by blast
  then have "\<exists>h3. tn_run_peragent H handler dma index s agents h = Some (s', agents[unat index := agent'], h3)"
    using idx loop(1) by (simp add: tn_run_peragent_def)
  then show ?thesis
    using loop(2,3) assms(2) by (auto dest!: set_update_subset_insert [THEN subsetD])
qed

lemma round_handles:
  assumes "inv s" "\<forall>agent \<in> set agents. agent_idle (devices_count - 1) agent"
    and "length agents = unat devices_count" "\<And>j i a. card_writes a (dma j i a)"
  shows "\<exists>s' agents' h'. foreach_index (\<lambda>index (s, agents, h). tn_run_peragent H handler (dma index) index s agents h)
        devices_count n (s, agents, h) = Some (s', agents', h')
    \<and> inv s' \<and> (\<forall>agent \<in> set agents'. agent_idle (devices_count - 1) agent) \<and> length agents' = length agents"
  using assms(1-3)
proof (induction "unat (devices_count - n)" arbitrary: n s agents h rule: less_induct)
  case less
  show ?case
  proof (cases "n < devices_count")
    case False
    then show ?thesis using less.prems by (simp add: foreach_index.simps)
  next
    case True
    then have n: "unat n < unat devices_count" by (simp add: word_less_nat_alt)
    obtain s1 agents1 h1 where step: "tn_run_peragent H handler (dma n) n s agents h = Some (s1, agents1, h1)"
      "inv s1" "\<forall>agent \<in> set agents1. agent_idle (devices_count - 1) agent" "length agents1 = length agents"
      using peragent_handles [where dma = "dma n" and H = H and h = h, OF less.prems(1,2) n less.prems(3) assms(4)] by blast
    have "unat (devices_count - (n + 1)) < unat (devices_count - n)" by (rule word_loop_decreases [OF True])
    from less.hyps [OF this step(2,3)] less.prems(3) step show ?thesis
      using True by (simp add: foreach_index.simps [of _ devices_count n])
  qed
qed

lemma rounds_handle:
  assumes "inv s" "\<forall>agent \<in> set agents. agent_idle (devices_count - 1) agent"
    and "length agents = unat devices_count" "\<And>r j i a. card_writes a (dma r j i a)"
  shows "\<exists>s' agents' h'. tn_run_rounds H handler dma devices_count k (s, agents, h) = Some (s', agents', h')
    \<and> inv s' \<and> (\<forall>agent \<in> set agents'. agent_idle (devices_count - 1) agent) \<and> length agents' = length agents"
proof (induction k)
  case 0
  then show ?case using assms by simp
next
  case (Suc k)
  then obtain s1 agents1 h1 where "tn_run_rounds H handler dma devices_count k (s, agents, h) = Some (s1, agents1, h1)"
    "inv s1" "\<forall>agent \<in> set agents1. agent_idle (devices_count - 1) agent" "length agents1 = length agents"
    by blast
  with round_handles [where dma = "dma k" and H = H and n = 0 and h = h1, OF this(2,3) _ assms(4)] assms(3) show ?case by simp
qed

end
section \<open>What the card finds in a descriptor\<close>

lemma bit_BITL [simp]: "bit (BITL k) m \<longleftrightarrow> m = k \<and> k < 64"
  by (simp only: BITL_def bit_push_bit_iff bit_1_iff) auto

lemma bit_length_beyond: "unat len < 65536 \<Longrightarrow> 16 \<le> m \<Longrightarrow> \<not> bit len m" for len :: u64
  using not_bit_beyond [of len 16] by simp

lemma bit_transmit_metadata:
  assumes "unat len < 65536"
  shows "bit (transmit_metadata (rs_bit_of delimiter) len) m
    \<longleftrightarrow> m < 16 \<and> bit len m \<or> m = 24 \<or> m = 25 \<or> m = 27 \<and> recycles delimiter"
proof -
  have rs: "bit (rs_bit_of delimiter) m \<longleftrightarrow> m = 27 \<and> recycles delimiter"
    by (simp only: rs_bit_of_def bit_push_bit_iff bit_1_iff if_distrib [of "\<lambda>w. bit w (m - 27)"] bit_0_eq bot_fun_def) auto
  show ?thesis
    using bit_length_beyond [OF assms, of m]
    by (auto simp only: transmit_metadata_def bit_or_iff rs bit_BITL) auto
qed

lemma transmit_metadata_length:
  assumes "unat len < 65536"
  shows "take_bit 16 (transmit_metadata (rs_bit_of delimiter) len) = len"
  using bit_length_beyond [OF assms]
  by (intro bit_word_eqI) (auto simp: bit_take_bit_iff bit_transmit_metadata [OF assms], meson not_le)

text \<open>The descriptor with number \<open>d\<close> of output \<open>n\<close>.\<close>

definition output_descriptor :: "tn_agent \<Rightarrow> nat \<Rightarrow> nat \<Rightarrow> tn_descriptor" where
  "output_descriptor agent n d = ag_rings agent ! n ! d"

lemma after_packet_descriptors:
  assumes ok: "agent_ok agent" and lens: "length lens = unat (ag_outputs_count agent)" and n: "n < unat (ag_outputs_count agent)"
  shows "d \<noteq> unat (ag_processed_delimiter agent) \<Longrightarrow>
      output_descriptor (after_packet agent packet lens) n d = output_descriptor agent n d"
    "output_descriptor (after_packet agent packet lens) n (unat (ag_processed_delimiter agent))
      = (output_descriptor agent n (unat (ag_processed_delimiter agent)))\<lparr>desc_metadata :=
          transmit_metadata (rs_bit_of (ag_processed_delimiter agent)) (lens ! n)\<rparr>"
proof -
  have rings: "length (ag_rings agent) = unat (ag_outputs_count agent)" using ok by (simp add: agent_ok_def)
  then have "length (ag_rings agent ! n) = 256" using n agent_ok_ring(3) [OF ok] by simp
  then show "d \<noteq> unat (ag_processed_delimiter agent) \<Longrightarrow>
      output_descriptor (after_packet agent packet lens) n d = output_descriptor agent n d"
    "output_descriptor (after_packet agent packet lens) n (unat (ag_processed_delimiter agent))
      = (output_descriptor agent n (unat (ag_processed_delimiter agent)))\<lparr>desc_metadata :=
          transmit_metadata (rs_bit_of (ag_processed_delimiter agent)) (lens ! n)\<rparr>"
    using n lens rings agent_ok_ring(1) [OF ok]
    by (simp_all add: output_descriptor_def after_packet_def Let_def hand_over_def)
qed

text \<open>
  C15: When a packet has arrived, the iteration passes it to the packet handler with its length
  and hands it to every output in one go: each output's descriptor at the delimiter then carries
  the length that the handler has set for that output, asks for the frame checksum and for the end
  of the packet, asks for a report exactly once in 64 descriptors, and has its Descriptor Done flag
  clear, so that the packet is not taken for a new one; all other descriptors and all buffer
  addresses stay. The lengths are zero again and the delimiter has moved by one on the ring.
\<close>

theorem packet_handed_over:
  assumes "agent_ok agent" "has_packet agent"
    and "handler s index (ag_packets agent ! unat (ag_processed_delimiter agent)) (packet_length agent) (ag_lengths agent)
      = Some (s', packet', lens')"
    and "length lens' = unat (ag_outputs_count agent)" "\<forall>l \<in> set lens'. unat l < 65536"
  shows "\<exists>agent' h'. tn_run_iteration H handler index s agent h = Some (True, s', agent', h')
    \<and> ag_packets agent' = (ag_packets agent)[unat (ag_processed_delimiter agent) := packet']
    \<and> ag_lengths agent' = replicate (unat (ag_outputs_count agent)) 0
    \<and> unat (ag_processed_delimiter agent') = (unat (ag_processed_delimiter agent) + 1) mod 256
    \<and> (\<forall>n < unat (ag_outputs_count agent). \<forall>d.
         let old = output_descriptor agent n d; new = output_descriptor agent' n d in
         if d = unat (ag_processed_delimiter agent)
         then desc_addr new = desc_addr old \<and> take_bit 16 (desc_metadata new) = lens' ! n
           \<and> bit (desc_metadata new) 24 \<and> bit (desc_metadata new) 25
           \<and> (bit (desc_metadata new) 27 \<longleftrightarrow> d mod 64 = 63) \<and> \<not> bit (desc_metadata new) 32
         else new = old)"
proof (intro exI conjI, rule run_iteration_packet(1) [where handler = handler, OF assms(1-4)])
  let ?agent' = "after_packet agent packet' lens'"
  show "\<forall>n < unat (ag_outputs_count agent). \<forall>d.
         let old = output_descriptor agent n d; new = output_descriptor ?agent' n d in
         if d = unat (ag_processed_delimiter agent)
         then desc_addr new = desc_addr old \<and> take_bit 16 (desc_metadata new) = lens' ! n
           \<and> bit (desc_metadata new) 24 \<and> bit (desc_metadata new) 25
           \<and> (bit (desc_metadata new) 27 \<longleftrightarrow> d mod 64 = 63) \<and> \<not> bit (desc_metadata new) 32
         else new = old"
  proof (intro allI impI)
    fix n d assume n: "n < unat (ag_outputs_count agent)"
    then have len: "unat (lens' ! n) < 65536" using assms(4,5) by simp
    show "let old = output_descriptor agent n d; new = output_descriptor ?agent' n d in
         if d = unat (ag_processed_delimiter agent)
         then desc_addr new = desc_addr old \<and> take_bit 16 (desc_metadata new) = lens' ! n
           \<and> bit (desc_metadata new) 24 \<and> bit (desc_metadata new) 25
           \<and> (bit (desc_metadata new) 27 \<longleftrightarrow> d mod 64 = 63) \<and> \<not> bit (desc_metadata new) 32
         else new = old"
      using after_packet_descriptors [OF assms(1,4) n, where packet = packet']
      by (simp add: Let_def transmit_metadata_length [OF len] bit_transmit_metadata [OF len] recycles_def)
  qed
qed (simp_all add: after_packet_def Let_def next_delimiter_def)

text \<open>An agent with a single output that has just received a packet of 60 bytes.\<close>

definition example_agent :: "size_t \<Rightarrow> tn_agent" where
  "example_agent delimiter = \<lparr>ag_buffer = 0, ag_packets = replicate 256 (replicate 2048 0), ag_receive_tail_addr = 0x1018,
     ag_processed_delimiter = delimiter, ag_outputs_count = 1, ag_lengths = [0],
     ag_heads_addr = 0, ag_transmit_heads = replicate 16 0, ag_ring_addrs = [0],
     ag_rings = [replicate 256 \<lparr>desc_addr = 0, desc_metadata = 0x10000003C\<rparr>], ag_transmit_tail_addrs = [0x6018]\<rparr>"

lemma example_agent_ok:
  assumes "unat delimiter < 256"
  shows "agent_ok (example_agent delimiter)" "has_packet (example_agent delimiter)" "packet_length (example_agent delimiter) = 60"
  using assms
  by (simp_all add: agent_ok_def example_agent_def has_packet_def packet_length_def ixgbe_constants word_less_nat_alt)

theorem packet_handed_over_witness:
  "\<exists>agent' h'. tn_run_iteration scripted (\<lambda>s i packet len lens. Some (s, packet, [len])) 0 () (example_agent 63) []
      = Some (True, (), agent', h')
    \<and> unat (ag_processed_delimiter agent') = 64 \<and> take_bit 16 (desc_metadata (output_descriptor agent' 0 63)) = 60
    \<and> bit (desc_metadata (output_descriptor agent' 0 63)) 27"
proof -
  have "unat (63 :: size_t) < 256" by simp
  note ok = example_agent_ok [OF this]
  have count: "ag_outputs_count (example_agent 63) = 1" "ag_processed_delimiter (example_agent 63) = 63"
    by (simp_all add: example_agent_def)
  show ?thesis
    using packet_handed_over [where handler = "\<lambda>s i packet len lens. Some (s, packet, [len])",
        OF ok(1,2) refl, of scripted 0 "()" "[]"] ok(3)
    by (fastforce simp: count Let_def)
qed

end
