(* ===== verification/Ixgbe_Ring.thy ===== *)
theory Ixgbe_Ring
  imports Ixgbe_Run
begin

text \<open>
  The driver and the card together. An agent's rings are shared: the card fills buffers through
  the receive ring, the driver hands them to the transmit rings, and the card tells through the
  transmit heads which of them it has sent. The card is not code of the repository: its steps here
  are those the data sheet describes, in any order, and it may report its progress as late as it
  likes. The driver's steps are the iteration of \<open>tn_run_peragent\<close> and its loop that moves the
  transmit tails. The lemmas show that no buffer is overwritten before every output has sent it,
  and that reports that come too late stop the reception for good.
\<close>

section \<open>The steps\<close>

text \<open>Hardware that records the register writes of the driver.\<close>

definition logged :: "(addr \<times> u32) list hardware" where
  "logged = \<lparr>hw_reg_read = (\<lambda>a w. (0, w)), hw_reg_write = (\<lambda>a v w. w @ [(a, v)]),
     hw_pci_read = (\<lambda>p r w. (0, w)), hw_pci_write = (\<lambda>p r v w. w), hw_sleep = (\<lambda>n w. w),
     hw_phys_to_virt = (\<lambda>a n. unat a), hw_virt_to_phys = of_nat\<rparr>"

text \<open>
  Packets are numbered in the order of their arrival; packet number \<open>i\<close> uses descriptor
  \<open>i mod 256\<close>. The card has received \<open>rg_received\<close> packets and may receive up to the receive
  limit, the driver has processed \<open>rg_processed\<close> packets; each output has sent \<open>rg_sent\<close> packets,
  may send up to \<open>rg_limits\<close>, and has reported \<open>rg_heads\<close>. The agent is the driver's memory.
\<close>

record ring_state =
  rg_agent :: tn_agent
  rg_received :: nat
  rg_processed :: nat
  rg_receive_limit :: nat
  rg_sent :: "nat list"
  rg_limits :: "nat list"
  rg_heads :: "nat list"

text \<open>
  A write to a tail register gives the card the descriptors from its own position up to but
  excluding the one that is written.
\<close>

definition tail_moves :: "addr \<Rightarrow> nat \<Rightarrow> (addr \<times> u32) list \<Rightarrow> nat \<Rightarrow> nat" where
  "tail_moves tail position writes limit =
     fold (\<lambda>(a, v) limit. if a = tail then position + (unat v + 256 - position mod 256) mod 256 else limit) writes limit"

definition card_sees :: "(addr \<times> u32) list \<Rightarrow> ring_state \<Rightarrow> ring_state" where
  "card_sees writes r = r\<lparr>
     rg_receive_limit := tail_moves (ag_receive_tail_addr (rg_agent r)) (rg_received r) writes (rg_receive_limit r),
     rg_limits := map (\<lambda>n. tail_moves (ag_transmit_tail_addrs (rg_agent r) ! n) (rg_sent r ! n) writes (rg_limits r ! n))
       [0 ..< length (rg_limits r)]\<rparr>"

definition card_receives :: "nat \<Rightarrow> byte list \<Rightarrow> u64 \<Rightarrow> tn_agent \<Rightarrow> tn_agent" where
  "card_receives slot packet metadata agent = agent\<lparr>
     ag_packets := (ag_packets agent)[slot := packet],
     ag_rings := (ag_rings agent)[0 := (ag_rings agent ! 0)[slot := (ag_rings agent ! 0 ! slot)\<lparr>desc_metadata := metadata\<rparr>]]\<rparr>"

inductive ring_step :: "'s packet_handler \<Rightarrow> size_t \<Rightarrow> 's \<times> ring_state \<Rightarrow> 's \<times> ring_state \<Rightarrow> bool"
  for handler index where
  receive: "rg_received r < rg_receive_limit r \<Longrightarrow> length packet = 2048 \<Longrightarrow> bit metadata 32 \<Longrightarrow>
    ring_step handler index (s, r) (s, r\<lparr>rg_received := rg_received r + 1,
      rg_agent := card_receives (rg_received r mod 256) packet metadata (rg_agent r)\<rparr>)"
| transmit: "n < length (rg_sent r) \<Longrightarrow> rg_sent r ! n < rg_limits r ! n \<Longrightarrow>
    ring_step handler index (s, r) (s, r\<lparr>rg_sent := (rg_sent r)[n := rg_sent r ! n + 1]\<rparr>)"
| report: "n < length (rg_heads r) \<Longrightarrow> rg_heads r ! n \<le> k \<Longrightarrow> k \<le> rg_sent r ! n \<Longrightarrow>
    ring_step handler index (s, r) (s, r\<lparr>rg_heads := (rg_heads r)[n := k],
      rg_agent := (rg_agent r)\<lparr>ag_transmit_heads := (ag_transmit_heads (rg_agent r))[n * 16 := of_nat (k mod 256)]\<rparr>\<rparr>)"
| iteration: "tn_run_iteration logged handler index s (rg_agent r) [] = Some (received, s', agent', writes) \<Longrightarrow>
    ring_step handler index (s, r) (s', card_sees writes
      (r\<lparr>rg_agent := agent', rg_processed := rg_processed r + (if received then 1 else 0)\<rparr>))"
| flush: "flush_tails logged (ag_transmit_tail_addrs (rg_agent r)) (ag_outputs_count (rg_agent r))
      (ucast (ag_processed_delimiter (rg_agent r))) 0 [] = Some writes \<Longrightarrow>
    ring_step handler index (s, r) (s, card_sees writes r)"

text \<open>An agent that has just been set up: the input's tail is one before the end of the ring.\<close>

definition ring_init :: "tn_agent \<Rightarrow> ring_state \<Rightarrow> bool" where
  "ring_init agent r \<longleftrightarrow> r = \<lparr>rg_agent = agent, rg_received = 0, rg_processed = 0, rg_receive_limit = 255,
     rg_sent = replicate (unat (ag_outputs_count agent)) 0, rg_limits = replicate (unat (ag_outputs_count agent)) 0,
     rg_heads = replicate (unat (ag_outputs_count agent)) 0\<rparr>"

inductive ring_reachable :: "'s packet_handler \<Rightarrow> size_t \<Rightarrow> 's \<times> ring_state \<Rightarrow> 's \<times> ring_state \<Rightarrow> bool"
  for handler index x where
  start: "ring_reachable handler index x x"
| step: "ring_reachable handler index x y \<Longrightarrow> ring_step handler index y z \<Longrightarrow> ring_reachable handler index x z"

inductive_cases ring_stepE [elim]: "ring_step handler index (s, r) (s', r')"

section \<open>The invariant\<close>

definition ring_inv :: "ring_state \<Rightarrow> bool" where
  "ring_inv r \<longleftrightarrow> (let agent = rg_agent r; outputs = unat (ag_outputs_count agent) in
     agent_idle (ag_outputs_count agent) agent
     \<and> ag_receive_tail_addr agent \<notin> set (ag_transmit_tail_addrs agent)
     \<and> length (rg_sent r) = outputs \<and> length (rg_limits r) = outputs \<and> length (rg_heads r) = outputs
     \<and> rg_processed r \<le> rg_received r \<and> rg_received r \<le> rg_receive_limit r
     \<and> unat (ag_processed_delimiter agent) = rg_processed r mod 256
     \<and> (\<forall>n < outputs. rg_heads r ! n \<le> rg_sent r ! n \<and> rg_sent r ! n \<le> rg_limits r ! n
          \<and> rg_limits r ! n \<le> rg_processed r \<and> rg_receive_limit r \<le> rg_heads r ! n + 255
          \<and> unat (ag_transmit_heads agent ! (n * 16)) = rg_heads r ! n mod 256)
     \<and> (\<forall>i. rg_processed r \<le> i \<and> i < rg_processed r + 256 \<longrightarrow>
          (bit (desc_metadata (ag_rings agent ! 0 ! (i mod 256))) 32 \<longleftrightarrow> i < rg_received r)))"

text \<open>What is asked of the packet handler: it keeps the sizes, and its lengths fit into a descriptor.\<close>

definition keeps_sizes :: "'s packet_handler \<Rightarrow> bool" where
  "keeps_sizes handler \<longleftrightarrow> (\<forall>s index packet len lens s' packet' lens'.
     handler s index packet len lens = Some (s', packet', lens') \<longrightarrow> length packet = 2048 \<longrightarrow> unat len < 65536
     \<longrightarrow> (\<forall>l \<in> set lens. l = 0)
     \<longrightarrow> length packet' = 2048 \<and> length lens' = length lens \<and> (\<forall>l \<in> set lens'. unat l < 65536))"

lemma tail_moves_simps [simp]:
  "tail_moves tail position [] limit = limit"
  "tail_moves tail position ((a, v) # writes) limit
    = tail_moves tail position writes (if a = tail then position + (unat v + 256 - position mod 256) mod 256 else limit)"
  by (simp_all add: tail_moves_def)

lemma reg_write_raw_logged [simp]: "reg_write_raw logged a v w = w @ [(a, v)]"
  by (simp add: reg_write_raw_def logged_def)

text \<open>The position of a descriptor that is at most 255 ahead.\<close>

lemma position_ahead:
  fixes p q :: nat
  assumes "p \<le> q" "q < p + 256"
  shows "p + (q mod 256 + 256 - p mod 256) mod 256 = q"
proof -
  have "(q mod 256 + 256 - p mod 256) mod 256 = (q - p) mod 256"
  proof -
    have "int ((q mod 256 + 256 - p mod 256) mod 256) = (int q mod 256 + 256 - int p mod 256) mod 256"
      by (simp add: of_nat_diff zmod_int)
    also have "\<dots> = (int q + 256 - int p) mod 256" by (intro mod_diff_cong mod_add_cong) simp_all
    also have "\<dots> = ((int q - int p) + 256) mod 256" by (simp add: algebra_simps)
    also have "\<dots> = (int q - int p) mod 256" by (simp only: mod_add_self2)
    also have "\<dots> = int ((q - p) mod 256)" using assms(1) by (simp add: of_nat_diff zmod_int)
    finally show ?thesis by linarith
  qed
  also have "\<dots> = q - p" using assms by simp
  finally show ?thesis using assms(1) by simp
qed

lemma mod_256_distinct: "i \<noteq> j \<Longrightarrow> i < j + 256 \<Longrightarrow> j < i + 256 \<Longrightarrow> i mod 256 \<noteq> (j :: nat) mod 256"
proof (induction i j rule: linorder_wlog)
  case (le i j)
  show ?case
  proof
    assume "i mod 256 = j mod 256"
    then have "256 dvd j - i" using le(1) mod_eq_dvd_iff_nat [of i j 256] by simp
    then show False using le by (auto dest: dvd_imp_le)
  qed
next
  case (sym i j)
  then show ?case by (metis)
qed
lemma ring_invD:
  assumes "ring_inv r"
  shows "agent_idle (ag_outputs_count (rg_agent r)) (rg_agent r)" "agent_ok (rg_agent r)"
    "ag_receive_tail_addr (rg_agent r) \<notin> set (ag_transmit_tail_addrs (rg_agent r))"
    "length (rg_sent r) = unat (ag_outputs_count (rg_agent r))" "length (rg_limits r) = unat (ag_outputs_count (rg_agent r))"
    "length (rg_heads r) = unat (ag_outputs_count (rg_agent r))"
    "rg_processed r \<le> rg_received r" "rg_received r \<le> rg_receive_limit r"
    "unat (ag_processed_delimiter (rg_agent r)) = rg_processed r mod 256"
    "n < unat (ag_outputs_count (rg_agent r)) \<Longrightarrow> rg_heads r ! n \<le> rg_sent r ! n \<and> rg_sent r ! n \<le> rg_limits r ! n
          \<and> rg_limits r ! n \<le> rg_processed r \<and> rg_receive_limit r \<le> rg_heads r ! n + 255
          \<and> unat (ag_transmit_heads (rg_agent r) ! (n * 16)) = rg_heads r ! n mod 256"
    "rg_processed r \<le> i \<Longrightarrow> i < rg_processed r + 256 \<Longrightarrow>
       bit (desc_metadata (ag_rings (rg_agent r) ! 0 ! (i mod 256))) 32 \<longleftrightarrow> i < rg_received r"
    "0 < unat (ag_outputs_count (rg_agent r))" "length (ag_transmit_heads (rg_agent r)) = unat (ag_outputs_count (rg_agent r)) * 16"
    "length (ag_transmit_tail_addrs (rg_agent r)) = unat (ag_outputs_count (rg_agent r))"
  using assms by (auto simp: ring_inv_def Let_def agent_idle_def agent_ok_def word_gt_0 unat_gt_0)

text \<open>The receive limit never gets beyond what the slowest output has reported, so it is at most 255 ahead.\<close>

lemma ring_inv_near:
  assumes "ring_inv r"
  shows "rg_receive_limit r \<le> rg_processed r + 255"
    "n < unat (ag_outputs_count (rg_agent r)) \<Longrightarrow> rg_receive_limit r \<le> rg_sent r ! n + 255"
  using ring_invD(10) [OF assms, of 0] ring_invD(10) [OF assms, of n] ring_invD(12) [OF assms] by auto

lemma card_writes_receives:
  assumes "agent_ok agent" "length packet = 2048"
  shows "card_writes agent (card_receives slot packet metadata agent)"
proof -
  let ?ring = "ag_rings agent ! 0"
  have "map desc_addr (?ring[slot := (?ring ! slot)\<lparr>desc_metadata := metadata\<rparr>]) = map desc_addr ?ring"
    by (cases "slot < length ?ring") (simp_all add: map_update list_update_same_conv list_update_beyond)
  then have "map (map desc_addr) ((ag_rings agent)[0 := ?ring[slot := (?ring ! slot)\<lparr>desc_metadata := metadata\<rparr>]])
      = map (map desc_addr) (ag_rings agent)"
    using agent_ok_ring(2) [OF assms(1)] by (simp add: map_update list_update_same_conv)
  moreover have "length p = 2048" if "p \<in> set ((ag_packets agent)[slot := packet])" for p
    using set_mp [OF set_update_subset_insert that] assms by (auto simp: agent_ok_def)
  ultimately show ?thesis unfolding card_writes_def card_receives_def
    by (intro exI [of _ "(ag_packets agent)[slot := packet]"] exI [of _ "ag_transmit_heads agent"]
        exI [of _ "(ag_rings agent)[0 := ?ring[slot := (?ring ! slot)\<lparr>desc_metadata := metadata\<rparr>]]"]) simp
qed

lemma receive_keeps:
  assumes inv: "ring_inv r" and "rg_received r < rg_receive_limit r" "length packet = 2048" "bit metadata 32"
  shows "ring_inv (r\<lparr>rg_received := rg_received r + 1,
      rg_agent := card_receives (rg_received r mod 256) packet metadata (rg_agent r)\<rparr>)"
proof -
  note I = ring_invD [OF inv] and near = ring_inv_near [OF inv]
  let ?agent = "card_receives (rg_received r mod 256) packet metadata (rg_agent r)"
  have idle: "agent_idle (ag_outputs_count (rg_agent r)) ?agent"
    by (rule card_writes_idle(1) [OF card_writes_receives [OF I(2) assms(3)] I(1)])
  have same: "ag_outputs_count ?agent = ag_outputs_count (rg_agent r)" "ag_receive_tail_addr ?agent = ag_receive_tail_addr (rg_agent r)"
    "ag_transmit_tail_addrs ?agent = ag_transmit_tail_addrs (rg_agent r)" "ag_transmit_heads ?agent = ag_transmit_heads (rg_agent r)"
    "ag_processed_delimiter ?agent = ag_processed_delimiter (rg_agent r)"
    by (simp_all add: card_receives_def)
  have flags: "bit (desc_metadata (ag_rings ?agent ! 0 ! (i mod 256))) 32 \<longleftrightarrow> i < rg_received r + 1"
    if i: "rg_processed r \<le> i" "i < rg_processed r + 256" for i
  proof -
    have "length (ag_rings (rg_agent r) ! 0) = 256" "0 < length (ag_rings (rg_agent r))"
      using agent_ok_ring [OF I(2)] by simp_all
    then have slot: "ag_rings ?agent ! 0 ! (i mod 256) = (if i mod 256 = rg_received r mod 256
        then (ag_rings (rg_agent r) ! 0 ! (i mod 256))\<lparr>desc_metadata := metadata\<rparr> else ag_rings (rg_agent r) ! 0 ! (i mod 256))"
      by (simp add: card_receives_def nth_list_update)
    show ?thesis
    proof (cases "i = rg_received r")
      case True
      with slot assms(4) show ?thesis by simp
    next
      case False
      have "i mod 256 \<noteq> rg_received r mod 256"
        using False i I(7) assms(2) near(1) by (intro mod_256_distinct) simp_all
      with slot I(11) [OF i] False show ?thesis by auto
    qed
  qed
  show ?thesis
    using I idle flags assms(2) by (simp add: ring_inv_def Let_def same)
qed

lemma transmit_keeps:
  assumes inv: "ring_inv r" and "n < length (rg_sent r)" "rg_sent r ! n < rg_limits r ! n"
  shows "ring_inv (r\<lparr>rg_sent := (rg_sent r)[n := rg_sent r ! n + 1]\<rparr>)"
proof -
  note I = ring_invD [OF inv]
  show ?thesis
    using I(1,3-9,11) I(10) assms(2,3) by (simp add: ring_inv_def Let_def nth_list_update le_SucI)
qed

lemma report_keeps:
  assumes inv: "ring_inv r" and n: "n < length (rg_heads r)" and k: "rg_heads r ! n \<le> k" "k \<le> rg_sent r ! n"
  shows "ring_inv (r\<lparr>rg_heads := (rg_heads r)[n := k],
      rg_agent := (rg_agent r)\<lparr>ag_transmit_heads := (ag_transmit_heads (rg_agent r))[n * 16 := of_nat (k mod 256)]\<rparr>\<rparr>)"
proof -
  note I = ring_invD [OF inv]
  let ?agent = "(rg_agent r)\<lparr>ag_transmit_heads := (ag_transmit_heads (rg_agent r))[n * 16 := of_nat (k mod 256)]\<rparr>"
  have small: "unat (of_nat (k mod 256) :: u32) = k mod 256" 
    by (simp only: unsigned_of_nat of_nat_id) (rule take_bit_nat_eq_self, rule less_trans [of _ 256], simp_all)
  have "agent_idle (ag_outputs_count (rg_agent r)) ?agent" using I(1) by (simp add: agent_idle_def agent_ok_def)
  moreover have "(rg_heads r)[n := k] ! m \<le> rg_sent r ! m \<and> rg_receive_limit r \<le> (rg_heads r)[n := k] ! m + 255
      \<and> unat (ag_transmit_heads ?agent ! (m * 16)) = (rg_heads r)[n := k] ! m mod 256"
    if "m < unat (ag_outputs_count (rg_agent r))" for m
    using that n k I(6,13) I(10) [OF that] small by (cases "m = n") (simp_all add: nth_list_update)
  ultimately show ?thesis
    using I by (simp add: ring_inv_def Let_def)
qed

lemma tail_moves_all:
  "tail_moves tail position (map (\<lambda>t. (t, v)) ts) limit
   = (if tail \<in> set ts then position + (unat v + 256 - position mod 256) mod 256 else limit)"
  by (induction ts arbitrary: limit) auto

lemma flush_tails_logged:
  "length tails = unat outputs \<Longrightarrow> unat n \<le> unat outputs \<Longrightarrow>
   flush_tails logged tails outputs delimiter n w = Some (w @ map (\<lambda>t. (t, delimiter)) (drop (unat n) tails))"
proof (induction "logged" tails outputs delimiter n w rule: flush_tails.induct)
  case (1 tails outputs delimiter n w)
  show ?case
  proof (cases "n < outputs")
    case True
    then have n: "unat n < length tails" using "1.prems"(1) by (simp add: word_less_nat_alt)
    then have get: "arr_get tails n = Some (tails ! unat n)" by simp
    have Suc_n: "unat (n + 1) = Suc (unat n)" by (rule unat_Suc_word [OF True])
    have "flush_tails logged tails outputs delimiter n w
        = flush_tails logged tails outputs delimiter (n + 1) (w @ [(tails ! unat n, delimiter)])"
      using True get by (simp add: flush_tails.simps [of logged tails outputs delimiter n w])
    also have "\<dots> = Some ((w @ [(tails ! unat n, delimiter)]) @ map (\<lambda>t. (t, delimiter)) (drop (unat (n + 1)) tails))"
      using "1.hyps" [OF True get "1.prems"(1)] n "1.prems"(1) Suc_n by simp
    finally show ?thesis using n Suc_n by (simp add: Cons_nth_drop_Suc [symmetric])
  next
    case False
    then have "drop (unat n) tails = []" using "1.prems" by (simp add: word_less_nat_alt)
    with False show ?thesis by (simp add: flush_tails.simps [of logged tails outputs delimiter n w])
  qed
qed

lemma flush_keeps:
  assumes inv: "ring_inv r"
    and flush: "flush_tails logged (ag_transmit_tail_addrs (rg_agent r)) (ag_outputs_count (rg_agent r))
      (ucast (ag_processed_delimiter (rg_agent r))) 0 [] = Some writes"
  shows "card_sees writes r = r\<lparr>rg_limits := replicate (unat (ag_outputs_count (rg_agent r))) (rg_processed r)\<rparr>"
    "ring_inv (card_sees writes r)"
proof -
  note I = ring_invD [OF inv] and near = ring_inv_near [OF inv]
  let ?tails = "ag_transmit_tail_addrs (rg_agent r)" and ?d = "ucast (ag_processed_delimiter (rg_agent r)) :: u32"
  have writes: "writes = map (\<lambda>t. (t, ?d)) ?tails"
    using flush flush_tails_logged [of ?tails "ag_outputs_count (rg_agent r)" 0 ?d "[]"] I(14) by simp
  have "rg_processed r mod 256 < 256" by simp
  then have d: "unat ?d = rg_processed r mod 256"
    using I(9) by (simp add: unsigned_ucast_eq take_bit_nat_eq_self)
  have receive: "tail_moves (ag_receive_tail_addr (rg_agent r)) position writes limit = limit" for position limit
    using I(3) by (simp add: writes tail_moves_all)
  have "tail_moves (?tails ! n) (rg_sent r ! n) writes (rg_limits r ! n) = rg_processed r"
    if n: "n < unat (ag_outputs_count (rg_agent r))" for n
  proof -
    have "rg_sent r ! n \<le> rg_processed r" "rg_processed r < rg_sent r ! n + 256"
      using I(7,8) I(10) [OF n] near(2) [OF n] by simp_all
    from position_ahead [OF this] n I(14) show ?thesis by (simp add: writes tail_moves_all d)
  qed
  then have "map (\<lambda>n. tail_moves (?tails ! n) (rg_sent r ! n) writes (rg_limits r ! n)) [0 ..< length (rg_limits r)]
      = replicate (unat (ag_outputs_count (rg_agent r))) (rg_processed r)"
    using I(5) by (intro nth_equalityI) simp_all
  then show eq: "card_sees writes r = r\<lparr>rg_limits := replicate (unat (ag_outputs_count (rg_agent r))) (rg_processed r)\<rparr>"
    by (simp add: card_sees_def receive)
  show "ring_inv (card_sees writes r)"
    unfolding eq using I by (fastforce simp: ring_inv_def Let_def)
qed

text \<open>An iteration that finds a packet has called the packet handler with success.\<close>

lemma run_iteration_result:
  assumes ok: "agent_ok agent" and sizes: "keeps_sizes handler" and zero: "\<forall>l \<in> set (ag_lengths agent). l = 0"
    and run: "tn_run_iteration logged handler index s agent [] = Some (received, s', agent', writes)"
  shows "received = has_packet agent"
    "\<not> has_packet agent \<Longrightarrow> agent' = agent \<and> writes = []"
    "has_packet agent \<Longrightarrow> \<exists>packet lens. agent' = after_packet agent packet lens
       \<and> length packet = 2048 \<and> length lens = unat (ag_outputs_count agent) \<and> (\<forall>l \<in> set lens. unat l < 65536)
       \<and> writes = (if recycles (ag_processed_delimiter agent)
           then [(ag_receive_tail_addr agent, recycled_tail agent (next_delimiter (ag_processed_delimiter agent)))] else [])"
proof -
  let ?packet = "ag_packets agent ! unat (ag_processed_delimiter agent)"
  have small: "unat (packet_length agent) < 65536"
    using take_bit_nat_less_exp [of 16] by (simp only: packet_length_def unsigned_take_bit_eq) simp
  have size: "length ?packet = 2048" "length (ag_lengths agent) = unat (ag_outputs_count agent)"
    using ok agent_ok_ring [OF ok] by (simp_all add: agent_ok_def)
  have len: "(ucast (ucast (take_bit 16 w :: u64) :: u16) :: u64) = take_bit 16 w" for w
    by (rule bit_word_eqI) (auto simp: bit_simps)
  have "\<exists>s1 packet lens. handler s index ?packet (packet_length agent) (ag_lengths agent) = Some (s1, packet, lens)"
    if "has_packet agent"
  proof (rule ccontr)
    assume "\<not> ?thesis"
    then have "handler s index ?packet (packet_length agent) (ag_lengths agent) = None"
      by (cases "handler s index ?packet (packet_length agent) (ag_lengths agent)") auto
    then have "tn_run_iteration logged handler index s agent [] = None"
      using that agent_ok_ring [OF ok]
      unfolding tn_run_iteration_def Let_def low_half done_flag by (simp add: has_packet_def packet_length_def len)
    with run show False by simp
  qed
  note handled = this
  have found: "received \<and> (\<exists>packet lens. agent' = after_packet agent packet lens
       \<and> length packet = 2048 \<and> length lens = unat (ag_outputs_count agent) \<and> (\<forall>l \<in> set lens. unat l < 65536)
       \<and> writes = (if recycles (ag_processed_delimiter agent)
           then [(ag_receive_tail_addr agent, recycled_tail agent (next_delimiter (ag_processed_delimiter agent)))] else []))"
    if packet: "has_packet agent"
  proof -
    obtain s1 packet lens where h: "handler s index ?packet (packet_length agent) (ag_lengths agent) = Some (s1, packet, lens)"
      using handled [OF packet] by blast
    then have result: "length packet = 2048" "length lens = unat (ag_outputs_count agent)" "\<forall>l \<in> set lens. unat l < 65536"
      using sizes [unfolded keeps_sizes_def, rule_format, OF h size(1) small] zero size(2) by simp_all
    show ?thesis
      using run run_iteration_packet(1) [where handler = handler and H = logged, OF ok packet h result(2), of "[]"] result
      by (auto split: if_splits)
  qed
  show "received = has_packet agent" "\<not> has_packet agent \<Longrightarrow> agent' = agent \<and> writes = []"
    using found run run_iteration_idle [OF ok, of logged handler index s "[]"] by (cases "has_packet agent"; simp)+
  show "has_packet agent \<Longrightarrow> \<exists>packet lens. agent' = after_packet agent packet lens
       \<and> length packet = 2048 \<and> length lens = unat (ag_outputs_count agent) \<and> (\<forall>l \<in> set lens. unat l < 65536)
       \<and> writes = (if recycles (ag_processed_delimiter agent)
           then [(ag_receive_tail_addr agent, recycled_tail agent (next_delimiter (ag_processed_delimiter agent)))] else [])"
    using found by blast
qed

lemma unat_before_on_ring: "unat ((x - 1) AND 255 :: u32) = (unat x + 255) mod 256"
proof -
  have "unat ((x - 1) AND 255) = unat (x - 1) mod 2 ^ 8" using and_pow2_minus_1 [of "256 :: u32" 8 "x - 1"] by simp
  also have "\<dots> = (unat x + 255) mod 256"
  proof (cases "x = 0")
    case False
    then have "0 < unat x" by (simp add: unat_gt_0)
    then have "unat x + 255 = (unat x - 1) + 256" by simp
    then have "(unat x + 255) mod 256 = (unat x - 1) mod 256" by (simp only: mod_add_self2)
    then show ?thesis using False by (simp add: unat_minus_one)
  qed (simp add: unsigned_minus_1_eq_mask mask_eq_exp_minus_1)
  finally show ?thesis .
qed

text \<open>
  The recycling moves the receive limit to 255 beyond the head that is most behind. The packet that
  has just been handed over is not yet in the card's hands, so no head is at the delimiter and the
  code's comparison of differences finds the most distant one.
\<close>

lemma recycling_limit:
  assumes inv: "ring_inv r" and packet: "has_packet (rg_agent r)"
    and tail: "v = recycled_tail (rg_agent r) (next_delimiter (ag_processed_delimiter (rg_agent r)))"
  shows "\<exists>j < unat (ag_outputs_count (rg_agent r)).
      rg_received r + (unat v + 256 - rg_received r mod 256) mod 256 = rg_heads r ! j + 255
      \<and> (\<forall>n < unat (ag_outputs_count (rg_agent r)). rg_heads r ! j \<le> rg_heads r ! n)"
proof -
  note I = ring_invD [OF inv] and near = ring_inv_near [OF inv]
  let ?d = "next_delimiter (ag_processed_delimiter (rg_agent r))" and ?outputs = "unat (ag_outputs_count (rg_agent r))"
  let ?head = "\<lambda>n. ag_transmit_heads (rg_agent r) ! (n * 16)"
  have d: "unat ?d = (rg_processed r + 1) mod 256"
    using I(9) by (simp add: next_delimiter_def mod_Suc_eq)
  have received: "rg_processed r + 1 \<le> rg_received r"
    using packet I(11) [of "rg_processed r"] I(9) by (simp add: has_packet_def)
  have behind: "rg_heads r ! n \<le> rg_processed r" "rg_processed r + 1 \<le> rg_heads r ! n + 255" "unat (?head n) = rg_heads r ! n mod 256"
    if "n < ?outputs" for n
    using I(10) [OF that] received I(8) by simp_all
  have ne: "(ucast (?head n) :: u64) \<noteq> ?d" and pending: "pending ?d (?head n) = rg_processed r + 1 - rg_heads r ! n"
    and less: "unat (?head n) < 256" if n: "n < ?outputs" for n
  proof -
    show less: "unat (?head n) < 256" using behind(3) [OF n] by simp
    have "rg_heads r ! n + (unat ?d + 256 - unat (?head n)) mod 256 = rg_processed r + 1"
      using position_ahead [of "rg_heads r ! n" "rg_processed r + 1"] behind [OF n] by (simp add: d)
    then show pend: "pending ?d (?head n) = rg_processed r + 1 - rg_heads r ! n" by (simp add: pending_def)
    show "(ucast (?head n) :: u64) \<noteq> ?d"
    proof
      assume "ucast (?head n) = ?d"
      then have "unat (?head n) = unat ?d" using unat_ucast_32_64 [of "?head n"] by simp
      then have "pending ?d (?head n) = 0" by (simp add: pending_def)
      with pend behind(1) [OF n] show False by simp
    qed
  qed
  obtain j where j: "j < ?outputs"
    "earliest_head (ag_transmit_heads (rg_agent r)) ?d (ag_outputs_count (rg_agent r)) 0 (ucast ?d) (- 1) = Some (?head j)"
    "\<forall>k < ?outputs. (ucast (?head j) - ?d :: u64) \<le> ucast (?head k) - ?d"
    using earliest_head_correct [of "ag_transmit_heads (rg_agent r)" "ag_outputs_count (rg_agent r)" 0 "- 1" ?d "ucast ?d"] I(2)
    by (auto simp: agent_ok_def word_less_nat_alt)
  have least: "rg_heads r ! j \<le> rg_heads r ! n" if n: "n < ?outputs" for n
  proof -
    have "pending ?d (?head n) \<le> pending ?d (?head j)"
      using j(3) n by (intro head_diff_antimono next_delimiter_less less ne j(1)) simp_all
    then show ?thesis using pending [OF n] pending [OF j(1)] behind [OF n] behind [OF j(1)] by simp
  qed
  have "v = (?head j - 1) AND 255" using j(2) by (simp add: tail recycled_tail_def)
  then have "unat v = (rg_heads r ! j + 255) mod 256"
    using behind(3) [OF j(1)] by (simp add: unat_before_on_ring mod_add_left_eq)
  moreover have "rg_received r \<le> rg_heads r ! j + 255" "rg_heads r ! j + 255 < rg_received r + 256"
    using I(8) I(10) [OF j(1)] received behind(1) [OF j(1)] by simp_all
  ultimately show ?thesis using j(1) least position_ahead by auto
qed

lemma iteration_keeps:
  assumes inv: "ring_inv r" and sizes: "keeps_sizes handler"
    and run: "tn_run_iteration logged handler index s (rg_agent r) [] = Some (received, s', agent', writes)"
  shows "ring_inv (card_sees writes (r\<lparr>rg_agent := agent', rg_processed := rg_processed r + (if received then 1 else 0)\<rparr>))"
proof -
  note I = ring_invD [OF inv] and near = ring_inv_near [OF inv]
  let ?agent = "rg_agent r" let ?d = "ag_processed_delimiter ?agent"
  have zero: "\<forall>l \<in> set (ag_lengths ?agent). l = 0" using I(1) by (simp add: agent_idle_def)
  note result = run_iteration_result [OF I(2) sizes zero run]
  show ?thesis
  proof (cases "has_packet ?agent")
    case False
    have "map (\<lambda>n. rg_limits r ! n) [0 ..< length (rg_limits r)] = rg_limits r" by (rule map_nth)
    then have "card_sees writes (r\<lparr>rg_agent := agent', rg_processed := rg_processed r + (if received then 1 else 0)\<rparr>) = r"
      using result(1,2) False by (simp add: card_sees_def)
    with inv show ?thesis by simp
  next
    case True
    then obtain packet lens where new: "agent' = after_packet ?agent packet lens" "length packet = 2048"
      "length lens = unat (ag_outputs_count ?agent)" "\<forall>l \<in> set lens. unat l < 65536"
      "writes = (if recycles ?d then [(ag_receive_tail_addr ?agent, recycled_tail ?agent (next_delimiter ?d))] else [])"
      using result(3) by blast
    have received: "rg_processed r + 1 \<le> rg_received r"
      using True I(11) [of "rg_processed r"] I(9) by (simp add: has_packet_def)
    have same: "ag_outputs_count agent' = ag_outputs_count ?agent" "ag_receive_tail_addr agent' = ag_receive_tail_addr ?agent"
      "ag_transmit_tail_addrs agent' = ag_transmit_tail_addrs ?agent" "ag_transmit_heads agent' = ag_transmit_heads ?agent"
      "unat (ag_processed_delimiter agent') = (rg_processed r + 1) mod 256"
      using I(9) by (simp_all add: new(1) after_packet_def Let_def next_delimiter_def mod_Suc_eq)
    have idle: "agent_idle (ag_outputs_count ?agent) agent'"
      using after_packet_ok [OF I(2) new(2,3)] same(1) by (simp add: agent_idle_def new(1) after_packet_def Let_def)
    have flags: "bit (desc_metadata (ag_rings agent' ! 0 ! (i mod 256))) 32 \<longleftrightarrow> i < rg_received r"
      if i: "rg_processed r + 1 \<le> i" "i < rg_processed r + 1 + 256" for i
    proof (cases "i = rg_processed r + 256")
      case True
      have "i mod 256 = unat ?d" using True I(9) by simp
      moreover have "unat (lens ! 0) < 65536" using new(3,4) I(12) by simp
      ultimately have "\<not> bit (desc_metadata (ag_rings agent' ! 0 ! (i mod 256))) 32"
        using after_packet_descriptors(2) [OF I(2) new(3) I(12), of packet]
        by (simp add: new(1) output_descriptor_def bit_transmit_metadata)
      then show ?thesis using True I(8) near(1) by simp
    next
      case False
      then have "i mod 256 \<noteq> rg_processed r mod 256" using i by (intro mod_256_distinct) simp_all
      then have "ag_rings agent' ! 0 ! (i mod 256) = ag_rings ?agent ! 0 ! (i mod 256)"
        using after_packet_descriptors(1) [OF I(2) new(3) I(12), of "i mod 256" packet] I(9)
        by (simp add: new(1) output_descriptor_def)
      then show ?thesis using I(11) [of i] i False by simp
    qed
    have limits: "tail_moves (ag_transmit_tail_addrs ?agent ! n) position writes limit = limit"
      if "n < unat (ag_outputs_count ?agent)" for n position limit
    proof -
      have "ag_transmit_tail_addrs ?agent ! n \<in> set (ag_transmit_tail_addrs ?agent)" using that I(14) by simp
      then show ?thesis using I(3) by (auto simp: new(5))
    qed
    have "map (\<lambda>n. tail_moves (ag_transmit_tail_addrs ?agent ! n) (rg_sent r ! n) writes (rg_limits r ! n))
        [0 ..< length (rg_limits r)] = rg_limits r"
      using limits I(5) by (intro nth_equalityI) simp_all
    then have eq: "card_sees writes (r\<lparr>rg_agent := agent', rg_processed := rg_processed r + (if received then 1 else 0)\<rparr>)
      = r\<lparr>rg_agent := agent', rg_processed := rg_processed r + 1,
          rg_receive_limit := tail_moves (ag_receive_tail_addr ?agent) (rg_received r) writes (rg_receive_limit r)\<rparr>"
      using result(1) True by (simp add: card_sees_def same)
    have limit: "rg_received r \<le> tail_moves (ag_receive_tail_addr ?agent) (rg_received r) writes (rg_receive_limit r)"
      "n < unat (ag_outputs_count ?agent) \<Longrightarrow>
        tail_moves (ag_receive_tail_addr ?agent) (rg_received r) writes (rg_receive_limit r) \<le> rg_heads r ! n + 255" for n
      using recycling_limit [OF inv True refl] I(8) I(10) by (auto simp: new(5))
    show ?thesis
      using I idle flags limit received unfolding eq by (simp add: ring_inv_def Let_def same le_SucI)
  qed
qed

lemma step_keeps:
  assumes "keeps_sizes handler" "ring_step handler index (s, r) (s', r')" "ring_inv r"
  shows "ring_inv r'"
  using assms(2)
proof (cases rule: ring_step.cases)
  case iteration
  with iteration_keeps [OF assms(3,1)] show ?thesis by simp
qed (use receive_keeps transmit_keeps report_keeps flush_keeps(2) assms(3) in auto)

lemma init_keeps:
  assumes "agent_idle (ag_outputs_count agent) agent" "ag_processed_delimiter agent = 0"
    "ag_receive_tail_addr agent \<notin> set (ag_transmit_tail_addrs agent)"
    "\<forall>n < unat (ag_outputs_count agent). ag_transmit_heads agent ! (n * 16) = 0"
    "\<forall>d < 256. \<not> bit (desc_metadata (output_descriptor agent 0 d)) 32" "ring_init agent r"
  shows "ring_inv r"
  using assms by (simp add: ring_inv_def ring_init_def Let_def output_descriptor_def)

lemma reachable_keeps:
  assumes "ring_reachable handler index x y" "keeps_sizes handler" "ring_inv (snd x)"
  shows "ring_inv (snd y)"
  using assms
proof (induction rule: ring_reachable.induct)
  case (step y z)
  then show ?case using step_keeps [of handler index "fst y" "snd y" "fst z" "snd z"] by simp
qed
lemma step_outputs:
  assumes "keeps_sizes handler" "ring_step handler index (s, r) (s', r')" "ring_inv r"
  shows "ag_outputs_count (rg_agent r') = ag_outputs_count (rg_agent r)"
  using assms(2)
proof (cases rule: ring_step.cases)
  case (iteration received agent' writes)
  have "\<forall>l \<in> set (ag_lengths (rg_agent r)). l = 0" using ring_invD(1) [OF assms(3)] by (simp add: agent_idle_def)
  note result = run_iteration_result [OF ring_invD(2) [OF assms(3)] assms(1) this iteration(2)]
  then have "ag_outputs_count agent' = ag_outputs_count (rg_agent r)"
    by (cases "has_packet (rg_agent r)") (auto simp: after_packet_def Let_def)
  with iteration(1) show ?thesis by (simp add: card_sees_def)
qed (auto simp: card_receives_def card_sees_def)

lemma reachable_outputs:
  assumes "ring_reachable handler index x y" "keeps_sizes handler" "ring_inv (snd x)"
  shows "ag_outputs_count (rg_agent (snd y)) = ag_outputs_count (rg_agent (snd x))"
  using assms
proof (induction rule: ring_reachable.induct)
  case (step y z)
  have "ring_inv (snd y)" by (rule reachable_keeps [OF step.hyps(1) step.prems])
  with step step_outputs [of handler index "fst y" "snd y" "fst z" "snd z"] show ?case by simp
qed simp

section \<open>The ring is safe\<close>

text \<open>The register spaces of the devices do not overlap.\<close>

definition devices_apart :: "tn_device list \<Rightarrow> bool" where
  "devices_apart devices \<longleftrightarrow> (\<forall>j < length devices. \<forall>k < length devices. j \<noteq> k \<longrightarrow>
     dev_addr (devices ! j) + 128 * 1024 \<le> dev_addr (devices ! k) \<or> dev_addr (devices ! k) + 128 * 1024 \<le> dev_addr (devices ! j))"

lemma agent_init_ring_inv:
  assumes run: "fst (tn_agent_init H index dc devices agent om h) = Inr (agent', devices', om')"
    and dc: "unat dc = length devices" "dc \<le> 0x10000" "ag_processed_delimiter agent = 0" and apart: "devices_apart devices"
    and init: "ring_init agent' r"
  shows "ring_inv r" "unat (ag_outputs_count (rg_agent r)) = length devices - 1"
proof -
  note A = agent_init_success [OF run dc]
  have r: "rg_agent r = agent'" using init by (simp add: ring_init_def)
  then show count: "unat (ag_outputs_count (rg_agent r)) = length devices - 1" using A by simp
  have ok: "agent_ok agent'" using A by simp
  have count': "unat (ag_outputs_count agent') = length devices - 1" using A by simp
  have outs: "0 < length devices - 1" unfolding count' [symmetric] using ok by (simp only: agent_ok_def unat_gt_0) auto
  have idx: "unat index < length devices"
    using A by simp
  have set: "outputs_set (hw_virt_to_phys H (ag_buffer agent')) 0 (unat index) (dc - 1) devices agent'" using A by simp
  have set_k: "\<exists>k q. k < length devices \<and> k \<noteq> unat index \<and> q < 128 \<and> ag_rings agent' ! i = ring_descriptors (hw_virt_to_phys H (ag_buffer agent'))
      \<and> ag_transmit_tail_addrs agent' ! i = dev_addr (devices ! k) + unat (REG_TDT q)" if "i < length devices - 1" for i
    using output_of_surj [OF that idx] set unfolding outputs_set_def Let_def by (metis le0)
  have "ag_receive_tail_addr agent' \<noteq> tail" if tail: "tail \<in> set (ag_transmit_tail_addrs agent')" for tail
  proof -
    obtain i where "i < length devices - 1" "ag_transmit_tail_addrs agent' ! i = tail"
      using tail ok count' unfolding agent_ok_def in_set_conv_nth by auto
    then obtain k q where k: "k < length devices" "k \<noteq> unat index" "q < 128" "tail = dev_addr (devices ! k) + unat (REG_TDT q)"
      using set_k by metis
    have "unat (REG_TDT q) < 128 * 1024" "unat (REG_RDT 0) < 128 * 1024"
      using k(3) by (simp_all add: unat_queues word_less_nat_alt)
    then show ?thesis
      using apart [unfolded devices_apart_def, rule_format, OF k(1) idx k(2)] k(4) A by auto
  qed
  moreover have "\<not> bit (desc_metadata (output_descriptor agent' 0 d)) 32" if "d < 256" for d
    using set_k [OF outs] that by (auto simp: output_descriptor_def ring_descriptors_def ixgbe_constants)
  ultimately show "ring_inv r"
    using A init by (intro init_keeps [of agent']) (auto simp: agent_idle_def agent_ok_def)
qed

text \<open>
  C7: Once an agent has been set up, and whatever the card and the driver do from then on, no
  packet is overwritten before it has been sent: the descriptors that the card may fill next are
  none of those that an output has still to send, nor of those that the driver has still to
  process. The outputs never overtake the driver, nor the driver the reception.
\<close>

theorem ring_no_overwrite:
  assumes "fst (tn_agent_init H index dc devices agent om h) = Inr (agent', devices', om')"
    and "unat dc = length devices" "dc \<le> 0x10000" "ag_processed_delimiter agent = 0" "devices_apart devices"
    and "keeps_sizes handler" "ring_init agent' r0" "ring_reachable handler index (s0, r0) (s, r)" "n < length devices - 1"
  shows "rg_sent r ! n \<le> rg_processed r \<and> rg_processed r \<le> rg_received r \<and> rg_received r \<le> rg_receive_limit r
    \<and> (\<forall>i j. rg_received r \<le> i \<and> i < rg_receive_limit r \<and> rg_sent r ! n \<le> j \<and> j < rg_received r \<longrightarrow> i mod 256 \<noteq> j mod 256)"
proof -
  have "ring_inv r0" by (rule agent_init_ring_inv [OF assms(1-5,7)])
  with reachable_keeps [OF assms(8,6)] have inv: "ring_inv r" by simp
  have "unat (ag_outputs_count (rg_agent r)) = unat (ag_outputs_count (rg_agent r0))"
    using reachable_outputs [OF assms(8,6)] \<open>ring_inv r0\<close> by simp
  then have n: "n < unat (ag_outputs_count (rg_agent r))" using agent_init_ring_inv(2) [OF assms(1-5,7)] assms(9) by simp
  have "i mod 256 \<noteq> j mod 256" if "rg_received r \<le> i \<and> i < rg_receive_limit r \<and> rg_sent r ! n \<le> j \<and> j < rg_received r" for i j
    using that ring_inv_near(2) [OF inv n] by (intro mod_256_distinct) simp_all
  then show ?thesis using ring_invD(7,8) [OF inv] ring_invD(10) [OF inv n] by auto
qed
text \<open>A packet handler that sends every packet to all outputs.\<close>

definition echo :: "unit packet_handler" where
  "echo s index packet len lens = Some (s, packet, map (\<lambda>l. len) lens)"

lemma keeps_sizes_echo: "keeps_sizes echo"
  by (auto simp: keeps_sizes_def echo_def)

lemma example_ring_init:
  obtains agent' devices' om' where
    "fst (tn_agent_init scripted 0 2 example_devices zero_agent \<lparr>mem_base = 0x40000000, mem_used = 0x180\<rparr> example_script)
      = Inr (agent', devices', om')"
    "unat (2 :: size_t) = length example_devices" "(2 :: size_t) \<le> 0x10000" "ag_processed_delimiter zero_agent = 0"
    "devices_apart example_devices"
  using example_agent_init
  by (elim exE conjE) (simp add: example_devices_def zero_agent_def devices_apart_def less_Suc_eq)

definition fresh_ring :: "tn_agent \<Rightarrow> ring_state" where
  "fresh_ring agent = \<lparr>rg_agent = agent, rg_received = 0, rg_processed = 0, rg_receive_limit = 255,
     rg_sent = replicate (unat (ag_outputs_count agent)) 0, rg_limits = replicate (unat (ag_outputs_count agent)) 0,
     rg_heads = replicate (unat (ag_outputs_count agent)) 0\<rparr>"

lemma fresh_ring_init: "ring_init agent (fresh_ring agent)"
  by (simp add: ring_init_def fresh_ring_def)

theorem ring_no_overwrite_witness:
  "\<exists>agent r. ring_reachable echo 0 ((), fresh_ring agent) ((), r)
    \<and> rg_received r = 1 \<and> rg_receive_limit r = 255 \<and> (\<forall>i. 1 \<le> i \<and> i < 255 \<longrightarrow> i mod 256 \<noteq> 0 mod (256 :: nat))"
proof (rule example_ring_init)
  fix agent' devices' om'
  assume init: "fst (tn_agent_init scripted 0 2 example_devices zero_agent \<lparr>mem_base = 0x40000000, mem_used = 0x180\<rparr> example_script)
      = Inr (agent', devices', om')"
    "unat (2 :: size_t) = length example_devices" "(2 :: size_t) \<le> 0x10000" "ag_processed_delimiter zero_agent = 0"
    "devices_apart example_devices"
  let ?r = "(fresh_ring agent')\<lparr>rg_received := 1,
      rg_agent := card_receives 0 (replicate 2048 0) (BITL 32) agent'\<rparr>"
  have "ring_step echo 0 ((), fresh_ring agent') ((), ?r)"
    using ring_step.receive [of "fresh_ring agent'" "replicate 2048 0" "BITL 32" echo 0 "()"] by (simp add: fresh_ring_def)
  then have run: "ring_reachable echo 0 ((), fresh_ring agent') ((), ?r)"
    by (rule ring_reachable.step [OF ring_reachable.start])
  have count: "unat (ag_outputs_count agent') = 1"
    using agent_init_success [OF init(1-4)] init(2) by simp
  have "(0 :: nat) < length example_devices - 1" using init(2) by simp
  from ring_no_overwrite [OF init keeps_sizes_echo fresh_ring_init run this] count
  have "\<forall>i. 1 \<le> i \<and> i < 255 \<longrightarrow> i mod 256 \<noteq> 0 mod (256 :: nat)"
    by (simp add: fresh_ring_def)
  with run show ?thesis by (intro exI [of _ agent'] exI [of _ ?r]) (simp add: fresh_ring_def)
qed

section \<open>The ring can stall\<close>

text \<open>
  Reports that leave the receive limit one before a recycling: from then on the limit stays. The
  packets up to the limit do not include one at which the driver recycles.
\<close>

definition stalled :: "nat \<Rightarrow> ring_state \<Rightarrow> bool" where
  "stalled limit r \<longleftrightarrow> limit mod 64 = 63 \<and> rg_receive_limit r = limit \<and> limit < rg_processed r + 64"

lemma stalled_step:
  assumes sizes: "keeps_sizes handler" and run: "ring_step handler index (s, r) (s', r')" and inv: "ring_inv r" and "stalled limit r"
  shows "stalled limit r'"
  using run
proof (cases rule: ring_step.cases)
  case (iteration received agent' writes)
  have zero: "\<forall>l \<in> set (ag_lengths (rg_agent r)). l = 0" using ring_invD(1) [OF inv] by (simp add: agent_idle_def)
  note result = run_iteration_result [OF ring_invD(2) [OF inv] sizes zero iteration(2)]
  show ?thesis
  proof (cases "has_packet (rg_agent r)")
    case False
    with result(1,2) iteration(1) assms(4) show ?thesis by (simp add: stalled_def card_sees_def)
  next
    case True
    have processed: "rg_processed r < limit"
      using True ring_invD(11) [OF inv, of "rg_processed r"] ring_invD(8,9) [OF inv] assms(4)
      by (simp add: has_packet_def stalled_def)
    have "\<not> recycles (ag_processed_delimiter (rg_agent r))"
    proof
      assume "recycles (ag_processed_delimiter (rg_agent r))"
      then have "rg_processed r mod 64 = 63" using ring_invD(9) [OF inv] by (simp add: recycles_def mod_mod_cancel)
      then have "64 dvd limit - rg_processed r"
        using assms(4) processed mod_eq_dvd_iff_nat [of "rg_processed r" limit 64] by (simp add: stalled_def)
      then show False using processed assms(4) by (auto simp: stalled_def dest: dvd_imp_le)
    qed
    with result(1,3) True iteration(1) assms(4) show ?thesis by (auto simp: stalled_def card_sees_def)
  qed
next
  case (flush writes)
  with flush_keeps(1) [OF inv flush(3)] assms(4) show ?thesis by (simp add: stalled_def)
qed (use assms(4) in \<open>auto simp: stalled_def\<close>)

lemma stalled_forever:
  assumes "ring_reachable handler index x y" "keeps_sizes handler" "ring_inv (snd x)" "stalled limit (snd x)"
  shows "stalled limit (snd y)"
  using assms
proof (induction rule: ring_reachable.induct)
  case (step y z)
  have "ring_inv (snd y)" by (rule reachable_keeps [OF step.hyps(1) step.prems(1,2)])
  with step stalled_step [of handler index "fst y" "snd y" "fst z" "snd z"] show ?case by simp
qed simp
text \<open>A packet handler that has a result for every packet.\<close>

definition answers :: "'s packet_handler \<Rightarrow> bool" where
  "answers handler \<longleftrightarrow> (\<forall>s index packet len lens. length packet = 2048 \<longrightarrow> unat len < 65536 \<longrightarrow> (\<forall>l \<in> set lens. l = 0)
     \<longrightarrow> handler s index packet len lens \<noteq> None)"

text \<open>One packet is received, processed and passed on to cards that do not send it yet.\<close>

definition slow_cards :: "nat \<Rightarrow> ring_state \<Rightarrow> bool" where
  "slow_cards k r \<longleftrightarrow> ring_inv r \<and> rg_received r = k \<and> rg_processed r = k \<and> rg_receive_limit r = 255
     \<and> (\<forall>n < length (rg_heads r). rg_heads r ! n = 0) \<and> rg_limits r = replicate (length (rg_heads r)) k"

lemma slow_cards_step:
  assumes sizes: "keeps_sizes handler" and "answers handler" and slow: "slow_cards k r" and k: "k < 255"
  shows "\<exists>s' r'. ring_reachable handler index (s, r) (s', r') \<and> slow_cards (k + 1) r' \<and> length (rg_heads r') = length (rg_heads r)"
proof -
  note S = slow [unfolded slow_cards_def]
  define r1 where "r1 = r\<lparr>rg_received := rg_received r + 1,
      rg_agent := card_receives (rg_received r mod 256) (replicate 2048 0) (BITL 32) (rg_agent r)\<rparr>"
  have fields: "rg_received r1 = k + 1" "rg_processed r1 = k" "rg_receive_limit r1 = 255" "rg_heads r1 = rg_heads r"
    using S by (simp_all add: r1_def)
  have step1: "ring_step handler index (s, r) (s, r1)"
    unfolding r1_def using S k by (intro ring_step.receive) simp_all
  have inv1: "ring_inv r1" unfolding r1_def using S k by (intro receive_keeps) simp_all
  note I = ring_invD [OF inv1]
  have packet: "has_packet (rg_agent r1)"
    using I(11) [of "rg_processed r1"] I(9) fields by (simp add: has_packet_def)
  have zero: "\<forall>l \<in> set (ag_lengths (rg_agent r1)). l = 0" using I(1) by (simp add: agent_idle_def)
  let ?packet = "ag_packets (rg_agent r1) ! unat (ag_processed_delimiter (rg_agent r1))"
  have small: "unat (packet_length (rg_agent r1)) < 65536"
    using take_bit_nat_less_exp [of 16] by (simp only: packet_length_def unsigned_take_bit_eq) simp
  have size: "length ?packet = 2048" "length (ag_lengths (rg_agent r1)) = unat (ag_outputs_count (rg_agent r1))"
    using I(2) agent_ok_ring [OF I(2)] by (simp_all add: agent_ok_def)
  have "handler s index ?packet (packet_length (rg_agent r1)) (ag_lengths (rg_agent r1)) \<noteq> None"
    using assms(2) size(1) small zero unfolding answers_def by blast
  then obtain s' packet' lens' where handled:
    "handler s index ?packet (packet_length (rg_agent r1)) (ag_lengths (rg_agent r1)) = Some (s', packet', lens')"
    by auto
  have "length lens' = unat (ag_outputs_count (rg_agent r1))"
    using sizes [unfolded keeps_sizes_def, rule_format, OF handled size(1) small] zero size(2) by simp
  from run_iteration_packet(1) [where handler = handler and H = logged, OF I(2) packet handled this]
  obtain agent' writes where run: "tn_run_iteration logged handler index s (rg_agent r1) [] = Some (True, s', agent', writes)"
    by blast
  define r2 where "r2 = card_sees writes (r1\<lparr>rg_agent := agent', rg_processed := rg_processed r1 + (if True then 1 else 0)\<rparr>)"
  have step2: "ring_step handler index (s, r1) (s', r2)" unfolding r2_def by (rule ring_step.iteration [OF run])
  have inv2: "ring_inv r2" unfolding r2_def by (rule iteration_keeps [OF inv1 sizes run])
  have new: "ag_receive_tail_addr agent' = ag_receive_tail_addr (rg_agent r1)" "ag_outputs_count agent' = ag_outputs_count (rg_agent r1)"
    "writes = (if recycles (ag_processed_delimiter (rg_agent r1)) then [(ag_receive_tail_addr (rg_agent r1),
        recycled_tail (rg_agent r1) (next_delimiter (ag_processed_delimiter (rg_agent r1))))] else [])"
    using run_iteration_result(3) [OF I(2) sizes zero run packet] by (auto simp: after_packet_def Let_def)
  obtain j where "j < unat (ag_outputs_count (rg_agent r1))" and limit: "rg_received r1 + (unat (recycled_tail (rg_agent r1)
      (next_delimiter (ag_processed_delimiter (rg_agent r1)))) + 256 - rg_received r1 mod 256) mod 256 = rg_heads r1 ! j + 255"
    using recycling_limit [OF inv1 packet refl] by blast
  then have "rg_heads r1 ! j = 0" using S I(6) fields(4) by simp
  then have "tail_moves (ag_receive_tail_addr (rg_agent r1)) (rg_received r1) writes (rg_receive_limit r1) = 255"
    unfolding new(3) by (cases "recycles (ag_processed_delimiter (rg_agent r1))")
      (simp_all only: tail_moves_simps limit fields(3) simp_thms if_True if_False add_0)
  then have "rg_receive_limit r2 = 255" by (simp add: r2_def card_sees_def new(1))
  then have fields2: "rg_received r2 = k + 1" "rg_processed r2 = k + 1" "rg_receive_limit r2 = 255" "rg_heads r2 = rg_heads r"
    using fields by (simp_all add: r2_def card_sees_def)
  note J = ring_invD [OF inv2]
  obtain writes' where flush: "flush_tails logged (ag_transmit_tail_addrs (rg_agent r2)) (ag_outputs_count (rg_agent r2))
      (ucast (ag_processed_delimiter (rg_agent r2))) 0 [] = Some writes'"
    using flush_tails_logged J(14) by auto
  let ?r3 = "card_sees writes' r2"
  have step3: "ring_step handler index (s', r2) (s', ?r3)" by (rule ring_step.flush [OF flush])
  have "ring_reachable handler index (s, r) (s', ?r3)"
    by (rule ring_reachable.step [OF ring_reachable.step [OF ring_reachable.step [OF ring_reachable.start step1] step2] step3])
  moreover have "slow_cards (k + 1) ?r3"
    using flush_keeps [OF inv2 flush] fields2 S J(6) by (simp add: slow_cards_def)
  moreover have "length (rg_heads ?r3) = length (rg_heads r)" using fields2 by (simp add: card_sees_def)
  ultimately show ?thesis by blast
qed

lemma reachable_trans:
  assumes "ring_reachable handler index y z" "ring_reachable handler index x y"
  shows "ring_reachable handler index x z"
  using assms by (induction rule: ring_reachable.induct) (auto intro: ring_reachable.step)

lemma slow_cards_run:
  assumes "keeps_sizes handler" "answers handler" "slow_cards 0 r" "k \<le> 255"
  shows "\<exists>s' r'. ring_reachable handler index (s, r) (s', r') \<and> slow_cards k r' \<and> length (rg_heads r') = length (rg_heads r)"
  using assms(4)
proof (induction k)
  case 0
  with assms(3) ring_reachable.start show ?case by blast
next
  case (Suc k)
  then obtain s' r' where run: "ring_reachable handler index (s, r) (s', r')" "slow_cards k r'" "length (rg_heads r') = length (rg_heads r)"
    by auto
  then obtain s2 r2 where "ring_reachable handler index (s', r') (s2, r2)" "slow_cards (k + 1) r2" "length (rg_heads r2) = length (rg_heads r')"
    using slow_cards_step [OF assms(1,2) run(2), of index s'] Suc.prems by auto
  with run reachable_trans show ?case by (metis Suc_eq_plus1)
qed



end
