(* ===== verification/Nf_Firewall.thy ===== *)
theory Nf_Firewall
  imports Net_Flow Os_Config
begin

text \<open>
  The firewall: \<open>nf/firewall/flow_table.h\<close> and \<open>nf/firewall/firewall.c\<close>. Packets from the internal
  device are forwarded and their flow is learned; packets from the external device are
  forwarded only if the inverse flow is known and has not expired.
\<close>

section \<open>The model\<close>

record fw_table =
  fw_flows_addr :: addr
  fw_flows :: "flow list"
  fw_flow_indexes :: cmap
  fw_port_allocator :: index_pool

text \<open>\<open>sizeof (struct flow_table)\<close> is 24 and \<open>sizeof (struct flow)\<close> is 16.\<close>

definition fw_flow_table_alloc :: "os_mem \<Rightarrow> time_t \<Rightarrow> size_t \<Rightarrow> (fw_table \<times> os_mem) option" where
  "fw_flow_table_alloc om expiration_time max_flows = do {
     (table, om) \<leftarrow> os_memory_alloc om 1 24;
     (flows, om) \<leftarrow> os_memory_alloc om max_flows 16;
     (flow_indexes, om) \<leftarrow> map_alloc om 16 max_flows;
     (port_allocator, om) \<leftarrow> index_pool_alloc om max_flows expiration_time;
     Some (\<lparr>fw_flows_addr = flows, fw_flows = replicate (unat max_flows) zero_flow,
            fw_flow_indexes = flow_indexes, fw_port_allocator = port_allocator\<rparr>, om) }"

definition fw_flow_table_learn_internal :: "fw_table \<Rightarrow> time_t \<Rightarrow> flow \<Rightarrow> fw_table option" where
  "fw_flow_table_learn_internal table time flow = do {
     let mem = key_mem flow_bytes (fw_flows_addr table) (fw_flows table);
     r \<leftarrow> map_get mem (fw_flow_indexes table) (flow_bytes flow);
     case r of
       Some index \<Rightarrow> do {
         pool \<leftarrow> index_pool_refresh (fw_port_allocator table) time index;
         Some (table\<lparr>fw_port_allocator := pool\<rparr>) }
     | None \<Rightarrow> do {
         (pool, b) \<leftarrow> index_pool_borrow (fw_port_allocator table) time;
         case b of
           None \<Rightarrow> Some (table\<lparr>fw_port_allocator := pool\<rparr>)
         | Some (index, was_used) \<Rightarrow> do {
             old \<leftarrow> arr_get (fw_flows table) index;
             indexes \<leftarrow> (if was_used then map_remove mem (fw_flow_indexes table) (flow_bytes old)
                        else Some (fw_flow_indexes table));
             flows \<leftarrow> arr_set (fw_flows table) index flow;
             indexes \<leftarrow> map_set (key_mem flow_bytes (fw_flows_addr table) flows) indexes
               (fw_flows_addr table + 16 * unat index) index;
             Some (table\<lparr>fw_flows := flows, fw_flow_indexes := indexes, fw_port_allocator := pool\<rparr>) } } }"

definition fw_flow_table_has_external :: "fw_table \<Rightarrow> time_t \<Rightarrow> flow \<Rightarrow> (fw_table \<times> bool) option" where
  "fw_flow_table_has_external table time flow = do {
     let mem = key_mem flow_bytes (fw_flows_addr table) (fw_flows table);
     r \<leftarrow> map_get mem (fw_flow_indexes table) (flow_bytes flow);
     case r of
       None \<Rightarrow> Some (table, False)
     | Some index \<Rightarrow> do {
         u \<leftarrow> index_pool_used (fw_port_allocator table) time index;
         if u then do {
           pool \<leftarrow> index_pool_refresh (fw_port_allocator table) time index;
           Some (table\<lparr>fw_port_allocator := pool\<rparr>, True) }
         else Some (table, False) } }"

text \<open>The globals of \<open>firewall.c\<close>. \<open>fw_nf_init\<close> gives \<^theory_text>\<open>Some None\<close> where the code returns \<open>false\<close>.\<close>

record firewall =
  fw_external_device :: device_t
  fw_the_table :: fw_table

definition fw_nf_init :: "config \<Rightarrow> os_mem \<Rightarrow> device_t \<Rightarrow> (firewall \<times> os_mem) option option" where
  "fw_nf_init cfg om devices_count =
     (if devices_count \<noteq> 2 then Some None
      else do {
        dev \<leftarrow> os_config_get_device cfg ''external device'' devices_count;
        case dev of None \<Rightarrow> Some None | Some external_device \<Rightarrow> do {
        e \<leftarrow> os_config_get_time cfg ''expiration time'';
        case e of None \<Rightarrow> Some None | Some expiration_time \<Rightarrow> do {
        m \<leftarrow> os_config_get_size cfg ''max flows'';
        case m of None \<Rightarrow> Some None | Some max_flows \<Rightarrow> do {
        (table, om) \<leftarrow> fw_flow_table_alloc om expiration_time max_flows;
        Some (Some (\<lparr>fw_external_device = external_device, fw_the_table = table\<rparr>, om)) } } } })"

definition fw_nf_handle :: "firewall \<Rightarrow> net_packet \<Rightarrow> (firewall \<times> net_packet \<times> tx list) option" where
  "fw_nf_handle st packet = do {
     let d = pkt_data packet;
     (ok1, ether_header) \<leftarrow> net_get_ether_header packet;
     if \<not> ok1 then Some (st, packet, []) else do {
     (ok2, ipv4_header) \<leftarrow> net_get_ipv4_header d ether_header;
     if \<not> ok2 then Some (st, packet, []) else do {
     (ok3, tcpudp_header) \<leftarrow> net_get_tcpudp_header d ipv4_header;
     if \<not> ok3 then Some (st, packet, []) else do {
     saddr \<leftarrow> ip_src_addr d ipv4_header;
     daddr \<leftarrow> ip_dst_addr d ipv4_header;
     sport \<leftarrow> l4_src_port d tcpudp_header;
     dport \<leftarrow> l4_dst_port d tcpudp_header;
     proto \<leftarrow> ip_next_proto_id d ipv4_header;
     if pkt_device packet = fw_external_device st then do {
       let flow = \<lparr>src_ip = daddr, dst_ip = saddr, src_port = dport, dst_port = sport, protocol = proto\<rparr>;
       (table, has) \<leftarrow> fw_flow_table_has_external (fw_the_table st) (pkt_time packet) flow;
       if \<not> has then Some (st\<lparr>fw_the_table := table\<rparr>, packet, [])
       else Some (st\<lparr>fw_the_table := table\<rparr>, packet, [Net_Transmit (1 - pkt_device packet) NONE]) }
     else do {
       let flow = \<lparr>src_ip = saddr, dst_ip = daddr, src_port = sport, dst_port = dport, protocol = proto\<rparr>;
       table \<leftarrow> fw_flow_table_learn_internal (fw_the_table st) (pkt_time packet) flow;
       Some (st\<lparr>fw_the_table := table\<rparr>, packet, [Net_Transmit (1 - pkt_device packet) NONE]) } } } } }"

section \<open>The flow table\<close>

definition fw_table_ok :: "size_t \<Rightarrow> fw_table \<Rightarrow> bool" where
  "fw_table_ok n table \<longleftrightarrow> table_ok flow_bytes 16 n (fw_flows_addr table) (fw_flows table)
     (fw_flow_indexes table) (fw_port_allocator table)"

text \<open>The table holds a flow, last seen at time \<open>t\<close>.\<close>

definition fw_holds :: "fw_table \<Rightarrow> flow \<Rightarrow> time_t \<Rightarrow> bool" where
  "fw_holds table flow t \<longleftrightarrow> table_holds (fw_flows table) (fw_port_allocator table) flow t"

definition fw_expiration :: "fw_table \<Rightarrow> time_t" where
  "fw_expiration table = ip_expiration_time (fw_port_allocator table)"

text \<open>A flow that the firewall lets in at time \<open>now\<close>.\<close>

definition fw_accepts :: "fw_table \<Rightarrow> time_t \<Rightarrow> flow \<Rightarrow> bool" where
  "fw_accepts table now flow \<longleftrightarrow> (\<exists>t. fw_holds table flow t \<and> pool_young now (fw_expiration table) t)"

text \<open>All entries are in use by flows that have not expired.\<close>

definition fw_full :: "size_t \<Rightarrow> fw_table \<Rightarrow> time_t \<Rightarrow> bool" where
  "fw_full n table now \<longleftrightarrow> (\<forall>i < n. \<exists>f t. table_maps (fw_flows table) (fw_port_allocator table) f i t
     \<and> pool_young now (fw_expiration table) t)"

lemma fw_holds_unique:
  "fw_table_ok n table \<Longrightarrow> fw_holds table flow t \<Longrightarrow> fw_holds table flow t' \<Longrightarrow> t = t'"
  unfolding fw_table_ok_def fw_holds_def by (rule table_holds_unique)

lemma fw_accepts_iff:
  "fw_table_ok n table \<Longrightarrow> fw_holds table flow t \<Longrightarrow>
   fw_accepts table now flow \<longleftrightarrow> pool_young now (fw_expiration table) t"
  unfolding fw_accepts_def using fw_holds_unique by blast

text \<open>
  Learning never fails and keeps the table well-formed. The flow is in the table afterwards,
  last seen at \<open>time\<close>, unless the table is full of other flows; flows that have not expired stay.
\<close>

lemma fw_learn_correct:
  assumes ok: "fw_table_ok n table" and t: "time \<noteq> TIME_MAX"
  obtains table' where "fw_flow_table_learn_internal table time flow = Some table'" "fw_table_ok n table'"
    "fw_expiration table' = fw_expiration table"
    "(\<forall>t. fw_holds table' flow t \<longleftrightarrow> t = time) \<or> (table' = table \<and> (\<forall>t. \<not> fw_holds table flow t) \<and> fw_full n table time)"
    "\<And>f t. f \<noteq> flow \<Longrightarrow> fw_holds table' f t \<Longrightarrow> fw_holds table f t"
    "\<And>f t. f \<noteq> flow \<Longrightarrow> fw_holds table f t \<Longrightarrow> pool_young time (fw_expiration table) t \<Longrightarrow> fw_holds table' f t"
proof -
  note ok' = ok [unfolded fw_table_ok_def]
  show ?thesis
    using ok'
  proof (cases rule: flow_keys.ok_lookup [where key = flow])
    case (known i t0)
    from ok' known(1) t show ?thesis
    proof (rule flow_keys.ok_refresh)
      fix pool' assume p: "index_pool_refresh (fw_port_allocator table) time i = Some pool'"
        "table_ok flow_bytes 16 n (fw_flows_addr table) (fw_flows table) (fw_flow_indexes table) pool'"
        "ip_expiration_time pool' = ip_expiration_time (fw_port_allocator table)"
        "\<And>key' j t. table_maps (fw_flows table) pool' key' j t \<longleftrightarrow>
          (if j = i then key' = flow \<and> t = time else table_maps (fw_flows table) (fw_port_allocator table) key' j t)"
      have holds: "fw_holds (table\<lparr>fw_port_allocator := pool'\<rparr>) f t = (if f = flow then t = time else fw_holds table f t)" for f t
        using table_holds_refresh [OF ok' known(1) p(4)] by (simp add: fw_holds_def)
      show ?thesis
        by (rule that [of "table\<lparr>fw_port_allocator := pool'\<rparr>"])
          (use known(2) p(1-3) in \<open>simp_all add: holds fw_flow_table_learn_internal_def fw_table_ok_def fw_expiration_def\<close>)
    qed
  next
    case unknown
    show ?thesis
      using ok' unknown(1) t
    proof (cases rule: flow_keys.ok_learn)
      case (learned pool' i was_used m1 m2)
      let ?t' = "table\<lparr>fw_flows := (fw_flows table)[unat i := flow], fw_flow_indexes := m2, fw_port_allocator := pool'\<rparr>"
      have run: "fw_flow_table_learn_internal table time flow = Some ?t'"
        using unknown learned(1,2,5,6) by (simp add: fw_flow_table_learn_internal_def)
      have holds: "fw_holds ?t' f t = (if f = flow then t = time
        else (\<exists>j. j \<noteq> i \<and> table_maps (fw_flows table) (fw_port_allocator table) f j t))" for f t
        using table_holds_learn [OF unknown(1) learned(9)] by (simp add: fw_holds_def)
      have old: "fw_holds table f t \<longleftrightarrow> (\<exists>j. table_maps (fw_flows table) (fw_port_allocator table) f j t)" for f t
        by (simp add: fw_holds_def table_holds_def)
      have stays: "j \<noteq> i" if "table_maps (fw_flows table) (fw_port_allocator table) f j t"
        "pool_young time (ip_expiration_time (fw_port_allocator table)) t" for f j t
        using that learned(4) by blast
      show ?thesis
        by (rule that [OF run])
          (use stays learned(7,8) in \<open>auto simp: holds old fw_table_ok_def fw_expiration_def\<close>)
    next
      case full
      have run: "fw_flow_table_learn_internal table time flow = Some table"
        using unknown full(1) by (simp add: fw_flow_table_learn_internal_def)
      show ?thesis
        by (rule that [OF run]) (use full(2) unknown(1) ok in
          \<open>auto simp: fw_holds_def table_holds_def fw_expiration_def fw_full_def\<close>)
    qed
  qed
qed

text \<open>An external packet's flow is accepted exactly if it is held and young; then it is refreshed.\<close>

lemma fw_has_external_correct:
  assumes ok: "fw_table_ok n table" and t: "time \<noteq> TIME_MAX"
  obtains table' where
    "fw_flow_table_has_external table time flow = Some (table', fw_accepts table time flow)"
    "fw_table_ok n table'" "fw_expiration table' = fw_expiration table"
    "\<And>f t. fw_holds table' f t \<longleftrightarrow>
      (if f = flow \<and> fw_accepts table time flow then t = time else fw_holds table f t)"
proof -
  note ok' = ok [unfolded fw_table_ok_def]
  show ?thesis
    using ok'
  proof (cases rule: flow_keys.ok_lookup [where key = flow])
    case (known i t0)
    have held: "fw_holds table flow t0" using known(1) by (auto simp: fw_holds_def table_holds_def)
    have used: "index_pool_used (fw_port_allocator table) time i = Some (fw_accepts table time flow)"
      using flow_keys.ok_used [OF ok' known(1)] fw_accepts_iff [OF ok held] by (simp add: fw_expiration_def)
    show ?thesis
    proof (cases "fw_accepts table time flow")
      case True
      from ok' known(1) t show ?thesis
      proof (rule flow_keys.ok_refresh)
        fix pool' assume p: "index_pool_refresh (fw_port_allocator table) time i = Some pool'"
          "table_ok flow_bytes 16 n (fw_flows_addr table) (fw_flows table) (fw_flow_indexes table) pool'"
          "ip_expiration_time pool' = ip_expiration_time (fw_port_allocator table)"
          "\<And>key' j t. table_maps (fw_flows table) pool' key' j t \<longleftrightarrow>
            (if j = i then key' = flow \<and> t = time else table_maps (fw_flows table) (fw_port_allocator table) key' j t)"
        have holds: "fw_holds (table\<lparr>fw_port_allocator := pool'\<rparr>) f t = (if f = flow then t = time else fw_holds table f t)" for f t
          using table_holds_refresh [OF ok' known(1) p(4)] by (simp add: fw_holds_def)
        show ?thesis
          by (rule that [of "table\<lparr>fw_port_allocator := pool'\<rparr>"])
            (use known(2) used True p(1-3) in \<open>simp_all add: holds fw_flow_table_has_external_def fw_table_ok_def fw_expiration_def\<close>)
      qed
    next
      case False
      show ?thesis
        by (rule that [of table]) (use known(2) used False ok in \<open>simp_all add: fw_flow_table_has_external_def\<close>)
    qed
  next
    case unknown
    then have no: "\<not> fw_accepts table time flow" by (simp add: fw_accepts_def fw_holds_def table_holds_def)
    show ?thesis
      by (rule that [of table]) (use unknown(2) no ok in \<open>simp_all add: fw_flow_table_has_external_def\<close>)
  qed
qed
section \<open>The packet handler\<close>

definition fw_external :: "firewall \<Rightarrow> net_packet \<Rightarrow> bool" where
  "fw_external st packet \<longleftrightarrow> pkt_device packet = fw_external_device st"

abbreviation fw_forward :: "net_packet \<Rightarrow> tx list" where
  "fw_forward packet \<equiv> [Net_Transmit (1 - pkt_device packet) NONE]"

text \<open>The handler in terms of the table operations, once the headers are read.\<close>

lemma fw_handle_other:
  assumes "headers_fit packet" "\<not> is_tcpudp packet"
  shows "fw_nf_handle st packet = Some (st, packet, [])"
  using assms by (rule not_tcpudp_headers) (simp_all add: fw_nf_handle_def Let_def header_reads)

lemma fw_handle_external:
  "headers_fit packet \<Longrightarrow> is_tcpudp packet \<Longrightarrow> fw_external st packet \<Longrightarrow>
   fw_flow_table_has_external (fw_the_table st) (pkt_time packet) (flow_inverse (packet_flow packet))
     = Some (table, has) \<Longrightarrow>
   fw_nf_handle st packet = Some (st\<lparr>fw_the_table := table\<rparr>, packet, if has then fw_forward packet else [])"
  by (simp add: fw_nf_handle_def Let_def header_reads fw_external_def flow_inverse_def)

lemma fw_handle_internal:
  "headers_fit packet \<Longrightarrow> is_tcpudp packet \<Longrightarrow> \<not> fw_external st packet \<Longrightarrow>
   fw_flow_table_learn_internal (fw_the_table st) (pkt_time packet) (packet_flow packet) = Some table \<Longrightarrow>
   fw_nf_handle st packet = Some (st\<lparr>fw_the_table := table\<rparr>, packet, fw_forward packet)"
  by (simp add: fw_nf_handle_def Let_def header_reads fw_external_def)

text \<open>What a packet's step does to the state, and when the packet goes out.\<close>

lemma fw_handle_correct:
  assumes ok: "fw_table_ok n (fw_the_table st)" and fit: "headers_fit packet" and t: "pkt_time packet \<noteq> TIME_MAX"
  obtains st' out where "fw_nf_handle st packet = Some (st', packet, out)"
    "fw_table_ok n (fw_the_table st')" "fw_external_device st' = fw_external_device st"
    "fw_expiration (fw_the_table st') = fw_expiration (fw_the_table st)"
    "out = (if is_tcpudp packet \<and> (fw_external st packet \<longrightarrow>
        fw_accepts (fw_the_table st) (pkt_time packet) (flow_inverse (packet_flow packet)))
      then fw_forward packet else [])"
    "\<And>f t. fw_holds (fw_the_table st') f t \<Longrightarrow> fw_holds (fw_the_table st) f t
      \<or> t = pkt_time packet \<and> is_tcpudp packet
        \<and> (if fw_external st packet
           then f = flow_inverse (packet_flow packet) \<and> fw_accepts (fw_the_table st) (pkt_time packet) f
           else f = packet_flow packet)"
    "is_tcpudp packet \<Longrightarrow> \<not> fw_external st packet \<Longrightarrow>
      (\<forall>t. fw_holds (fw_the_table st') (packet_flow packet) t \<longleftrightarrow> t = pkt_time packet)
      \<or> (\<forall>t. \<not> fw_holds (fw_the_table st) (packet_flow packet) t) \<and> fw_full n (fw_the_table st) (pkt_time packet)"
proof -
  consider (other) "\<not> is_tcpudp packet" | (ext) "is_tcpudp packet" "fw_external st packet"
    | (int) "is_tcpudp packet" "\<not> fw_external st packet" by blast
  then show ?thesis
  proof cases
    case other
    show ?thesis by (rule that [OF fw_handle_other [OF fit other]]) (use ok other in simp_all)
  next
    case ext
    let ?f = "flow_inverse (packet_flow packet)"
    from ok t show ?thesis
    proof (rule fw_has_external_correct [where flow = ?f])
      fix table' assume a: "fw_flow_table_has_external (fw_the_table st) (pkt_time packet) ?f
          = Some (table', fw_accepts (fw_the_table st) (pkt_time packet) ?f)"
        "fw_table_ok n table'" "fw_expiration table' = fw_expiration (fw_the_table st)"
        "\<And>f t. fw_holds table' f t \<longleftrightarrow> (if f = ?f \<and> fw_accepts (fw_the_table st) (pkt_time packet) ?f
          then t = pkt_time packet else fw_holds (fw_the_table st) f t)"
      show ?thesis
        by (rule that [OF fw_handle_external [OF fit ext a(1)]]) (use a(2-4) ext in \<open>auto split: if_splits\<close>)
    qed
  next
    case int
    from ok t show ?thesis
    proof (rule fw_learn_correct [where flow = "packet_flow packet"])
      fix table' assume a: "fw_flow_table_learn_internal (fw_the_table st) (pkt_time packet) (packet_flow packet) = Some table'"
        "fw_table_ok n table'" "fw_expiration table' = fw_expiration (fw_the_table st)"
        "(\<forall>t. fw_holds table' (packet_flow packet) t \<longleftrightarrow> t = pkt_time packet)
          \<or> table' = fw_the_table st \<and> (\<forall>t. \<not> fw_holds (fw_the_table st) (packet_flow packet) t)
            \<and> fw_full n (fw_the_table st) (pkt_time packet)"
        "\<And>f t. f \<noteq> packet_flow packet \<Longrightarrow> fw_holds table' f t \<Longrightarrow> fw_holds (fw_the_table st) f t"
      have held: "fw_holds (fw_the_table st) f t \<or> t = pkt_time packet \<and> f = packet_flow packet"
        if h: "fw_holds table' f t" for f t
      proof (cases "f = packet_flow packet")
        case True
        from a(4) show ?thesis by (rule disjE) (use h True in simp_all)
      next
        case False
        from a(5) [OF False h] show ?thesis ..
      qed
      show ?thesis
      proof (rule that [OF fw_handle_internal [OF fit int a(1)]])
        fix f t assume "fw_holds (fw_the_table (st\<lparr>fw_the_table := table'\<rparr>)) f t"
        then have "fw_holds table' f t" by simp
        from held [OF this] show "fw_holds (fw_the_table st) f t \<or> t = pkt_time packet \<and> is_tcpudp packet
          \<and> (if fw_external st packet
             then f = flow_inverse (packet_flow packet) \<and> fw_accepts (fw_the_table st) (pkt_time packet) f
             else f = packet_flow packet)" using int by simp
      next
        show "(\<forall>t. fw_holds (fw_the_table (st\<lparr>fw_the_table := table'\<rparr>)) (packet_flow packet) t \<longleftrightarrow> t = pkt_time packet)
          \<or> (\<forall>t. \<not> fw_holds (fw_the_table st) (packet_flow packet) t) \<and> fw_full n (fw_the_table st) (pkt_time packet)"
          using a(4) by (elim disjE) simp_all
      qed (use a(2,3) int in simp_all)
    qed
  qed
qed

text \<open>A flow that has not expired survives every packet, with its own time or, if the packet belongs to it, the packet's.\<close>

lemma fw_handle_keeps:
  assumes ok: "fw_table_ok n (fw_the_table st)" and fit: "headers_fit packet" and t: "pkt_time packet \<noteq> TIME_MAX"
    and held: "fw_holds (fw_the_table st) f t0" "pool_young (pkt_time packet) (fw_expiration (fw_the_table st)) t0"
    and run: "fw_nf_handle st packet = Some (st', packet', out)"
  shows "fw_holds (fw_the_table st') f
    (if is_tcpudp packet \<and> (if fw_external st packet then flow_inverse (packet_flow packet) = f else packet_flow packet = f)
     then pkt_time packet else t0)"
proof -
  consider (other) "\<not> is_tcpudp packet" | (ext) "is_tcpudp packet" "fw_external st packet"
    | (int) "is_tcpudp packet" "\<not> fw_external st packet" by blast
  then show ?thesis
  proof cases
    case other
    then show ?thesis using fw_handle_other [OF fit other] run held(1) by simp
  next
    case ext
    have accepted: "fw_accepts (fw_the_table st) (pkt_time packet) f" using held by (auto simp: fw_accepts_def)
    from ok t show ?thesis
    proof (rule fw_has_external_correct [where flow = "flow_inverse (packet_flow packet)"])
      fix table' assume a: "fw_flow_table_has_external (fw_the_table st) (pkt_time packet) (flow_inverse (packet_flow packet))
          = Some (table', fw_accepts (fw_the_table st) (pkt_time packet) (flow_inverse (packet_flow packet)))"
        "\<And>g t. fw_holds table' g t \<longleftrightarrow> (if g = flow_inverse (packet_flow packet)
            \<and> fw_accepts (fw_the_table st) (pkt_time packet) (flow_inverse (packet_flow packet))
          then t = pkt_time packet else fw_holds (fw_the_table st) g t)"
      have "st' = st\<lparr>fw_the_table := table'\<rparr>" using fw_handle_external [OF fit ext a(1)] run by simp
      then show ?thesis using a(2) accepted held(1) ext by auto
    qed
  next
    case int
    from ok t show ?thesis
    proof (rule fw_learn_correct [where flow = "packet_flow packet"])
      fix table' assume a: "fw_flow_table_learn_internal (fw_the_table st) (pkt_time packet) (packet_flow packet) = Some table'"
        "(\<forall>t. fw_holds table' (packet_flow packet) t \<longleftrightarrow> t = pkt_time packet)
          \<or> table' = fw_the_table st \<and> (\<forall>t. \<not> fw_holds (fw_the_table st) (packet_flow packet) t)
            \<and> fw_full n (fw_the_table st) (pkt_time packet)"
        and stay: "\<And>f t. f \<noteq> packet_flow packet \<Longrightarrow> fw_holds (fw_the_table st) f t
          \<Longrightarrow> pool_young (pkt_time packet) (fw_expiration (fw_the_table st)) t \<Longrightarrow> fw_holds table' f t"
      have "st' = st\<lparr>fw_the_table := table'\<rparr>" using fw_handle_internal [OF fit int a(1)] run by simp
      then show ?thesis using a(2) stay held int by (cases "f = packet_flow packet") auto
    qed
  qed
qed

section \<open>Initialisation\<close>

lemma fw_init_correct:
  assumes "alloc_ok om" "fw_nf_init cfg om devices_count = Some (Some (st, om'))"
  obtains n where "fw_table_ok n (fw_the_table st)" "\<And>f t. \<not> fw_holds (fw_the_table st) f t"
    "fw_external_device st < 2" "devices_count = 2"
    "os_config_get_size cfg ''max flows'' = Some (Some n)"
    "os_config_get_time cfg ''expiration time'' = Some (Some (fw_expiration (fw_the_table st)))"
proof -
  from assms(2) obtain external_device e n table where c: "devices_count = 2"
    "os_config_get_device cfg ''external device'' devices_count = Some (Some external_device)"
    "os_config_get_time cfg ''expiration time'' = Some (Some e)"
    "os_config_get_size cfg ''max flows'' = Some (Some n)"
    "fw_flow_table_alloc om e n = Some (table, om')"
    "st = \<lparr>fw_external_device = external_device, fw_the_table = table\<rparr>"
    by (auto simp: fw_nf_init_def split: if_splits Option.bind_splits option.splits)
  from c(5) obtain a1 om1 a2 om2 m om3 p where al: "os_memory_alloc om 1 24 = Some (a1, om1)"
    "os_memory_alloc om1 n 16 = Some (a2, om2)" "map_alloc om2 16 n = Some (m, om3)"
    "index_pool_alloc om3 n e = Some (p, om')"
    "table = \<lparr>fw_flows_addr = a2, fw_flows = replicate (unat n) zero_flow, fw_flow_indexes = m, fw_port_allocator = p\<rparr>"
    by (auto simp: fw_flow_table_alloc_def split: Option.bind_splits)
  have small: "unat n < 2 ^ 58" by (rule os_config_get_size_bound [OF c(4)])
  have "alloc_ok om1" using os_memory_alloc_correct [OF assms(1) _ al(1)] by simp
  from os_memory_alloc_correct [OF this _ al(2)] small have base: "a2 \<noteq> NULL" by simp
  have m16: "map_alloc om2 (of_nat 16) n = Some (m, om3)" using al(3) by simp
  have "unat n \<le> 2 ^ 63" using small by simp
  note fresh = flow_keys.ok_alloc [OF m16 al(4) this _ base, of "replicate (unat n) zero_flow", simplified]
  have "external_device < 2"
    using os_config_get_device_bound [OF c(2)] c(1) by simp
  then show ?thesis
    using fresh c al(5) by (intro that [of n])
      (simp_all add: fw_table_ok_def fw_holds_def table_holds_def fw_expiration_def)
qed

section \<open>Runs\<close>

text \<open>The packets handled one after the other, and the state they lead to.\<close>

inductive fw_run :: "firewall \<Rightarrow> net_packet list \<Rightarrow> firewall \<Rightarrow> bool" where
  fw_run_start: "fw_run st [] st"
| fw_run_step: "fw_run st0 packets st \<Longrightarrow> headers_fit packet \<Longrightarrow> pkt_time packet \<noteq> TIME_MAX \<Longrightarrow>
    fw_nf_handle st packet = Some (st', packet', out) \<Longrightarrow> fw_run st0 (packets @ [packet]) st'"

inductive_cases fw_run_snocE: "fw_run st0 (packets @ [packet]) st"

lemma fw_run_total:
  "fw_table_ok n (fw_the_table st0) \<Longrightarrow> \<forall>q \<in> set packets. headers_fit q \<and> pkt_time q \<noteq> TIME_MAX \<Longrightarrow>
   \<exists>st. fw_run st0 packets st \<and> fw_table_ok n (fw_the_table st)"
proof (induction packets rule: rev_induct)
  case Nil
  then show ?case using fw_run_start by blast
next
  case (snoc q packets)
  then obtain st where st: "fw_run st0 packets st" "fw_table_ok n (fw_the_table st)" by auto
  have q: "headers_fit q" "pkt_time q \<noteq> TIME_MAX" using snoc.prems(2) by simp_all
  obtain st' out where "fw_nf_handle st q = Some (st', q, out)" "fw_table_ok n (fw_the_table st')"
    using st(2) q by (rule fw_handle_correct) blast
  then show ?case using fw_run_step [OF st(1) q] by blast
qed

text \<open>A packet of a connection, in either direction, and one that opens it from the inside.\<close>

definition fw_opens :: "device_t \<Rightarrow> flow \<Rightarrow> net_packet \<Rightarrow> bool" where
  "fw_opens ext f q \<longleftrightarrow> is_tcpudp q \<and> pkt_device q \<noteq> ext \<and> packet_flow q = f"

definition fw_belongs :: "device_t \<Rightarrow> flow \<Rightarrow> net_packet \<Rightarrow> bool" where
  "fw_belongs ext f q \<longleftrightarrow> is_tcpudp q
     \<and> (if pkt_device q = ext then flow_inverse (packet_flow q) = f else packet_flow q = f)"

text \<open>A connection that is kept alive stays in the table.\<close>

lemma fw_run_keeps:
  assumes "fw_run st0 packets st" "fw_table_ok n (fw_the_table st0)" "fw_holds (fw_the_table st0) f t"
    and "kept_alive (fw_belongs (fw_external_device st0) f) (fw_expiration (fw_the_table st0)) t packets"
  shows "fw_table_ok n (fw_the_table st) \<and> fw_external_device st = fw_external_device st0
    \<and> fw_expiration (fw_the_table st) = fw_expiration (fw_the_table st0)
    \<and> fw_holds (fw_the_table st) f (last_use (fw_belongs (fw_external_device st0) f) t packets)"
  using assms
proof (induction rule: fw_run.induct)
  case (fw_run_step st0 packets st packet st' packet' out)
  have alive: "kept_alive (fw_belongs (fw_external_device st0) f) (fw_expiration (fw_the_table st0)) t packets"
    "pool_young (pkt_time packet) (fw_expiration (fw_the_table st0)) (last_use (fw_belongs (fw_external_device st0) f) t packets)"
    using fw_run_step.prems(3) by (simp_all add: kept_alive_snoc)
  note IH = fw_run_step.IH [OF fw_run_step.prems(1,2) alive(1)]
  then have ok: "fw_table_ok n (fw_the_table st)"
    and held: "fw_holds (fw_the_table st) f (last_use (fw_belongs (fw_external_device st0) f) t packets)" by blast+
  have same: "fw_external_device st = fw_external_device st0"
    "fw_expiration (fw_the_table st) = fw_expiration (fw_the_table st0)" using IH by blast+
  have young: "pool_young (pkt_time packet) (fw_expiration (fw_the_table st)) (last_use (fw_belongs (fw_external_device st0) f) t packets)"
    using alive(2) same(2) by simp
  have "fw_holds (fw_the_table st') f (last_use (fw_belongs (fw_external_device st0) f) t (packets @ [packet]))"
    using fw_handle_keeps [OF ok fw_run_step.hyps(2,3) held young fw_run_step.hyps(4)]
    by (simp add: last_use_snoc fw_belongs_def [of _ _ packet] fw_external_def same(1))
  moreover have "fw_table_ok n (fw_the_table st') \<and> fw_external_device st' = fw_external_device st
      \<and> fw_expiration (fw_the_table st') = fw_expiration (fw_the_table st)"
    using ok fw_run_step.hyps(2,3) by (rule fw_handle_correct) (use fw_run_step.hyps(4) in simp)
  ultimately show ?case using same by simp
qed simp

lemma fw_run_history:
  assumes "fw_run st0 packets st" "fw_table_ok n (fw_the_table st0)" "\<And>f t. \<not> fw_holds (fw_the_table st0) f t"
  shows "fw_table_ok n (fw_the_table st) \<and> fw_external_device st = fw_external_device st0
    \<and> fw_expiration (fw_the_table st) = fw_expiration (fw_the_table st0)
    \<and> (\<forall>f t. fw_holds (fw_the_table st) f t \<longrightarrow>
         (\<exists>q \<in> set packets. fw_opens (fw_external_device st0) f q)
       \<and> (\<exists>q \<in> set packets. fw_belongs (fw_external_device st0) f q \<and> pkt_time q = t))"
  using assms
proof (induction rule: fw_run.induct)
  case (fw_run_start st)
  then show ?case by simp
next
  case (fw_run_step st0 packets st packet st' packet' out)
  note IH = fw_run_step.IH [OF fw_run_step.prems]
  from IH have ok: "fw_table_ok n (fw_the_table st)" by blast
  from ok fw_run_step.hyps(2,3) show ?case
  proof (rule fw_handle_correct)
    fix st1 out1 assume a: "fw_nf_handle st packet = Some (st1, packet, out1)" "fw_table_ok n (fw_the_table st1)"
      "fw_external_device st1 = fw_external_device st"
      "fw_expiration (fw_the_table st1) = fw_expiration (fw_the_table st)"
      and new: "\<And>f t. fw_holds (fw_the_table st1) f t \<Longrightarrow> fw_holds (fw_the_table st) f t
      \<or> t = pkt_time packet \<and> is_tcpudp packet
        \<and> (if fw_external st packet
           then f = flow_inverse (packet_flow packet) \<and> fw_accepts (fw_the_table st) (pkt_time packet) f
           else f = packet_flow packet)"
    have st': "st' = st1" using a(1) fw_run_step.hyps(4) by simp
    have "(\<exists>q \<in> set (packets @ [packet]). fw_opens (fw_external_device st0) f q)
       \<and> (\<exists>q \<in> set (packets @ [packet]). fw_belongs (fw_external_device st0) f q \<and> pkt_time q = t)"
      if "fw_holds (fw_the_table st1) f t" for f t
      using new [OF that] IH
      by (auto simp: fw_external_def fw_opens_def fw_belongs_def fw_accepts_def split: if_splits)
    then show ?thesis using a IH by (simp add: st')
  qed
qed
text \<open>A packet that passes from the outside belongs to a connection that was opened from the inside.\<close>

lemma fw_unsolicited_dropped:
  assumes "fw_table_ok n (fw_the_table st0)" "\<And>f t. \<not> fw_holds (fw_the_table st0) f t"
    and "fw_run st0 packets st" "headers_fit packet" "pkt_time packet \<noteq> TIME_MAX"
    and "pkt_device packet = fw_external_device st0"
    and "fw_nf_handle st packet = Some (st', packet', out)" "out \<noteq> []"
  shows "(\<exists>q \<in> set packets. is_tcpudp q \<and> pkt_device q \<noteq> fw_external_device st0
      \<and> packet_flow q = flow_inverse (packet_flow packet))
    \<and> (\<exists>q \<in> set packets. fw_belongs (fw_external_device st0) (flow_inverse (packet_flow packet)) q
      \<and> pool_young (pkt_time packet) (fw_expiration (fw_the_table st0)) (pkt_time q))"
proof -
  note hist = fw_run_history [OF assms(3,1,2)]
  then have "fw_table_ok n (fw_the_table st)" by blast
  from this assms(4,5) have "fw_accepts (fw_the_table st) (pkt_time packet) (flow_inverse (packet_flow packet))"
    by (rule fw_handle_correct) (use assms(6-8) hist in \<open>auto simp: fw_external_def split: if_splits\<close>)
  then obtain t where t: "fw_holds (fw_the_table st) (flow_inverse (packet_flow packet)) t"
    "pool_young (pkt_time packet) (fw_expiration (fw_the_table st0)) t"
    using hist by (auto simp: fw_accepts_def)
  with hist show ?thesis unfolding fw_opens_def by metis
qed

text \<open>A reply to a packet whose flow the table holds passes.\<close>

lemma fw_reply_handled:
  assumes "fw_table_ok n (fw_the_table st)" "headers_fit q" "pkt_time q \<noteq> TIME_MAX" "is_tcpudp q"
    and "pkt_device q \<noteq> fw_external_device st"
    and "\<not> fw_full n (fw_the_table st) (pkt_time q) \<or> fw_holds (fw_the_table st) (packet_flow q) t"
    and "headers_fit p" "pkt_time p \<noteq> TIME_MAX" "is_tcpudp p" "pkt_device p = fw_external_device st"
    and "packet_flow p = flow_inverse (packet_flow q)"
    and "pool_young (pkt_time p) (fw_expiration (fw_the_table st)) (pkt_time q)"
  shows "\<exists>st1 q' out1 st2. fw_nf_handle st q = Some (st1, q', out1)
    \<and> fw_nf_handle st1 p = Some (st2, p, [Net_Transmit (1 - pkt_device p) NONE])"
  using assms(1-3)
proof (rule fw_handle_correct)
  fix st1 out1 assume a: "fw_nf_handle st q = Some (st1, q, out1)" "fw_table_ok n (fw_the_table st1)"
    "fw_external_device st1 = fw_external_device st" "fw_expiration (fw_the_table st1) = fw_expiration (fw_the_table st)"
    and held: "is_tcpudp q \<Longrightarrow> \<not> fw_external st q \<Longrightarrow>
      (\<forall>t. fw_holds (fw_the_table st1) (packet_flow q) t \<longleftrightarrow> t = pkt_time q)
      \<or> (\<forall>t. \<not> fw_holds (fw_the_table st) (packet_flow q) t) \<and> fw_full n (fw_the_table st) (pkt_time q)"
  have "\<not> fw_external st q" using assms(5) by (simp add: fw_external_def)
  from held [OF assms(4) this] have "fw_holds (fw_the_table st1) (packet_flow q) (pkt_time q)"
    by (rule disjE) (use assms(6) in simp_all)
  then have "fw_accepts (fw_the_table st1) (pkt_time p) (flow_inverse (packet_flow p))"
    using assms(11,12) a(4) by (auto simp: fw_accepts_def)
  then have "\<exists>st2. fw_nf_handle st1 p = Some (st2, p, fw_forward p)"
    using fw_handle_correct [OF a(2) assms(7,8)] assms(9) by (metis (full_types))
  with a(1) show ?thesis by blast
qed

section \<open>Properties\<close>

text \<open>A firewall whose external device is 1, with an empty table for two flows.\<close>

definition fw_example :: firewall where
  "fw_example = \<lparr>fw_external_device = 1, fw_the_table =
     \<lparr>fw_flows_addr = 64, fw_flows = [zero_flow, zero_flow],
      fw_flow_indexes = empty_cmap 2 16, fw_port_allocator = empty_pool 2 1000\<rparr>\<rparr>"

lemma fw_example_ok:
  "fw_table_ok 2 (fw_the_table fw_example)" "\<not> fw_holds (fw_the_table fw_example) f t"
  "fw_expiration (fw_the_table fw_example) = 1000" "fw_external_device fw_example = 1"
  unfolding fw_table_ok_def fw_holds_def table_holds_def fw_expiration_def
  by (simp_all add: fw_example_def empty_table_ok)

lemma fw_example_not_full: "\<not> fw_full 2 (fw_the_table fw_example) now"
proof
  assume "fw_full 2 (fw_the_table fw_example) now"
  then obtain f t where "table_maps (fw_flows (fw_the_table fw_example)) (fw_port_allocator (fw_the_table fw_example)) f 0 t"
    unfolding fw_full_def by (auto dest: spec [of _ 0])
  then show False using fw_example_ok(2) by (auto simp: fw_holds_def table_holds_def)
qed

text \<open>
  The firewall handles every packet whose headers lie in the buffer without an access out of
  bounds; the flow table stays well-formed, the packet is unchanged, and it is either dropped or
  sent once, unmodified, to the other one of the two devices.
\<close>

theorem fw_handle_total:
  assumes "fw_table_ok n (fw_the_table st)" "headers_fit packet" "pkt_time packet \<noteq> TIME_MAX"
  shows "\<exists>st' out. fw_nf_handle st packet = Some (st', packet, out) \<and> fw_table_ok n (fw_the_table st')
    \<and> fw_external_device st' = fw_external_device st
    \<and> out \<in> {[], [Net_Transmit (1 - pkt_device packet) NONE]}"
  using assms by (rule fw_handle_correct) auto

theorem fw_handle_total_witness:
  "\<exists>st' out. fw_nf_handle fw_example example_request = Some (st', example_request, out)
    \<and> fw_table_ok 2 (fw_the_table st') \<and> fw_external_device st' = fw_external_device fw_example
    \<and> out \<in> {[], [Net_Transmit (1 - pkt_device example_request) NONE]}"
  by (rule fw_handle_total [OF fw_example_ok(1) example_packets(1)]) (simp add: example_packets TIME_MAX_def)

text \<open>
  C24: A packet is forwarded exactly if it is TCP or UDP over IPv4 and comes from the inside, or
  comes from the outside and its inverse flow is in the table and was last used within the
  expiration time.
\<close>

theorem fw_policy:
  assumes "fw_table_ok n (fw_the_table st)" "headers_fit packet" "pkt_time packet \<noteq> TIME_MAX"
    and "fw_nf_handle st packet = Some (st', packet', out)"
  shows "out \<noteq> [] \<longleftrightarrow> is_tcpudp packet \<and> (pkt_device packet \<noteq> fw_external_device st
    \<or> (\<exists>t. fw_holds (fw_the_table st) (flow_inverse (packet_flow packet)) t
         \<and> pool_young (pkt_time packet) (fw_expiration (fw_the_table st)) t))"
  using assms(1-3)
  by (rule fw_handle_correct) (use assms(4) in \<open>auto simp: fw_external_def fw_accepts_def\<close>)

theorem fw_policy_witness:
  "(\<exists>t. fw_holds (fw_the_table fw_example) (flow_inverse (packet_flow example_reply)) t
      \<and> pool_young (pkt_time example_reply) (fw_expiration (fw_the_table fw_example)) t) = False"
proof -
  have "fw_nf_handle fw_example example_reply = Some (fw_example, example_reply, [])" by code_simp
  from fw_policy [OF fw_example_ok(1) example_packets(2) _ this] show ?thesis
    by (simp add: example_packets fw_example_ok TIME_MAX_def)
qed

text \<open>
  C1: No unsolicited packet passes. If, after any run from an empty table, a packet from the
  external device is sent on, then an internal packet of the inverse flow was handled before,
  and the connection (in either direction) was active within the expiration time.
\<close>

theorem fw_no_unsolicited:
  assumes "fw_table_ok n (fw_the_table st0)" "\<And>f t. \<not> fw_holds (fw_the_table st0) f t"
    and "fw_run st0 packets st" "headers_fit packet" "pkt_time packet \<noteq> TIME_MAX"
    and "pkt_device packet = fw_external_device st0"
    and "fw_nf_handle st packet = Some (st', packet', out)" "out \<noteq> []"
  shows "(\<exists>q \<in> set packets. is_tcpudp q \<and> pkt_device q \<noteq> fw_external_device st0
      \<and> packet_flow q = flow_inverse (packet_flow packet))
    \<and> (\<exists>q \<in> set packets. fw_belongs (fw_external_device st0) (flow_inverse (packet_flow packet)) q
      \<and> pool_young (pkt_time packet) (fw_expiration (fw_the_table st0)) (pkt_time q))"
  using assms by (rule fw_unsolicited_dropped)

text \<open>
  C25: Replies get through. Let an internal packet of a flow be handled when the table has room for
  it or already holds it, and then any other packets, of this connection or of others, in whatever
  number. A packet from outside with the inverse flow is then sent on to the inside, unchanged, as long as
  the connection was not idle for longer than the expiration time: each packet of
  the run, and the last one, comes within that time of the connection's last packet before it.
\<close>

theorem fw_reply_passes:
  assumes "fw_table_ok n (fw_the_table st)" "headers_fit q" "pkt_time q \<noteq> TIME_MAX" "is_tcpudp q"
    and "pkt_device q \<noteq> fw_external_device st"
    and "\<not> fw_full n (fw_the_table st) (pkt_time q) \<or> fw_holds (fw_the_table st) (packet_flow q) t"
    and "fw_nf_handle st q = Some (st1, q', out1)" "fw_run st1 packets st2"
    and "headers_fit p" "pkt_time p \<noteq> TIME_MAX" "is_tcpudp p" "pkt_device p = fw_external_device st"
    and "packet_flow p = flow_inverse (packet_flow q)"
    and "kept_alive (fw_belongs (fw_external_device st) (packet_flow q)) (fw_expiration (fw_the_table st)) (pkt_time q) (packets @ [p])"
  shows "\<exists>st3. fw_nf_handle st2 p = Some (st3, p, [Net_Transmit (1 - pkt_device p) NONE])"
  using assms(1-3)
proof (rule fw_handle_correct)
  fix st' out assume a: "fw_nf_handle st q = Some (st', q, out)" "fw_table_ok n (fw_the_table st')"
    "fw_external_device st' = fw_external_device st" "fw_expiration (fw_the_table st') = fw_expiration (fw_the_table st)"
    and held: "is_tcpudp q \<Longrightarrow> \<not> fw_external st q \<Longrightarrow>
      (\<forall>t. fw_holds (fw_the_table st') (packet_flow q) t \<longleftrightarrow> t = pkt_time q)
      \<or> (\<forall>t. \<not> fw_holds (fw_the_table st) (packet_flow q) t) \<and> fw_full n (fw_the_table st) (pkt_time q)"
  have st1: "st' = st1" using a(1) assms(7) by simp
  have "\<not> fw_external st q" using assms(5) by (simp add: fw_external_def)
  from held [OF assms(4) this] have "fw_holds (fw_the_table st1) (packet_flow q) (pkt_time q)"
    unfolding st1 by (rule disjE) (use assms(6) in simp_all)
  moreover have alive: "kept_alive (fw_belongs (fw_external_device st1) (packet_flow q)) (fw_expiration (fw_the_table st1)) (pkt_time q) packets"
    "pool_young (pkt_time p) (fw_expiration (fw_the_table st1)) (last_use (fw_belongs (fw_external_device st1) (packet_flow q)) (pkt_time q) packets)"
    using assms(14) a(3,4) by (simp_all add: kept_alive_snoc st1)
  ultimately have keeps: "fw_table_ok n (fw_the_table st2)" "fw_external_device st2 = fw_external_device st1"
    "fw_expiration (fw_the_table st2) = fw_expiration (fw_the_table st1)"
    "fw_holds (fw_the_table st2) (packet_flow q) (last_use (fw_belongs (fw_external_device st1) (packet_flow q)) (pkt_time q) packets)"
    using fw_run_keeps [OF assms(8) a(2) [unfolded st1]] by blast+
  then have "fw_accepts (fw_the_table st2) (pkt_time p) (flow_inverse (packet_flow p))"
    using assms(13) alive(2) by (auto simp: fw_accepts_def)
  then show ?thesis using fw_handle_correct [OF keeps(1) assms(9,10)] assms(11) by (metis (full_types))
qed

text \<open>
  A first reply at 700, a packet of another connection at 900, and a second reply at 1500, which is
  late for the request but not for the first reply.
\<close>

definition fw_example_traffic :: "net_packet list" where
  "fw_example_traffic = [example_reply\<lparr>pkt_time := 700\<rparr>, example_udp 0 900 [10, 0, 0, 9, 20, 0, 0, 2, 1, 0, 2, 0]]"

definition fw_late_reply :: net_packet where
  "fw_late_reply = example_reply\<lparr>pkt_time := 1500\<rparr>"

lemma fw_example_traffic_facts:
  "\<forall>q \<in> set fw_example_traffic. headers_fit q \<and> pkt_time q \<noteq> TIME_MAX"
  "headers_fit fw_late_reply" "is_tcpudp fw_late_reply" "pkt_time fw_late_reply = 1500" "pkt_device fw_late_reply = 1"
  "packet_flow fw_late_reply = flow_inverse (packet_flow example_request)"
  "kept_alive (fw_belongs 1 (packet_flow example_request)) 1000 5 (fw_example_traffic @ [fw_late_reply])"
  by code_simp+

theorem fw_reply_passes_witness:
  "\<exists>st1 q' out1 st2 st3. fw_nf_handle fw_example example_request = Some (st1, q', out1)
    \<and> fw_run st1 fw_example_traffic st2
    \<and> fw_nf_handle st2 fw_late_reply = Some (st3, fw_late_reply, [Net_Transmit 0 NONE])"
proof -
  have "fw_table_ok 2 (fw_the_table fw_example)" "headers_fit example_request" "pkt_time example_request \<noteq> TIME_MAX"
    by (simp_all add: fw_example_ok example_packets TIME_MAX_def)
  then obtain st1 q' out1 where one: "fw_nf_handle fw_example example_request = Some (st1, q', out1)"
    and ok: "fw_table_ok 2 (fw_the_table st1)" by (rule fw_handle_correct) blast
  obtain st2 where run: "fw_run st1 fw_example_traffic st2"
    using fw_run_total [OF ok fw_example_traffic_facts(1)] by blast
  have "\<exists>st3. fw_nf_handle st2 fw_late_reply = Some (st3, fw_late_reply, [Net_Transmit (1 - pkt_device fw_late_reply) NONE])"
    by (rule fw_reply_passes [OF fw_example_ok(1) example_packets(1) _ example_packets(3) _ _ one run])
      (simp_all add: example_packets fw_example_ok fw_example_not_full TIME_MAX_def fw_example_traffic_facts
        del: kept_alive.simps)
  with one run show ?thesis by (auto simp: fw_example_traffic_facts)
qed

theorem fw_no_unsolicited_witness:
  "\<exists>q \<in> set [example_request]. is_tcpudp q \<and> pkt_device q \<noteq> 1
      \<and> packet_flow q = flow_inverse (packet_flow example_reply)"
proof -
  obtain st1 q' out1 st2 where a: "fw_nf_handle fw_example example_request = Some (st1, q', out1)"
    "fw_nf_handle st1 example_reply = Some (st2, example_reply, [Net_Transmit (1 - pkt_device example_reply) NONE])"
  proof -
    have "(case fw_nf_handle fw_example example_request of None \<Rightarrow> False | Some (st, _, _) \<Rightarrow>
      (case fw_nf_handle st example_reply of None \<Rightarrow> False | Some (st', p, out) \<Rightarrow>
        p = example_reply \<and> out = [Net_Transmit (1 - pkt_device example_reply) NONE]))" by code_simp
    then show ?thesis by (auto intro: that split: option.splits)
  qed
  have "fw_run fw_example ([] @ [example_request]) st1"
    by (rule fw_run_step [OF fw_run_start example_packets(1) _ a(1)]) (simp add: example_packets TIME_MAX_def)
  from fw_no_unsolicited [OF fw_example_ok(1,2) this example_packets(2) _ _ a(2)] show ?thesis
    by (simp add: example_packets fw_example_ok TIME_MAX_def)
qed

text \<open>
  An initialisation that succeeds leaves an empty, well-formed table for as many flows as
  the configuration asks for, and one of the two devices as the external one.
\<close>

theorem fw_init_establishes:
  assumes "alloc_ok om" "fw_nf_init cfg om devices_count = Some (Some (st, om'))"
  shows "\<exists>n. fw_table_ok n (fw_the_table st) \<and> (\<forall>f t. \<not> fw_holds (fw_the_table st) f t)
    \<and> os_config_get_size cfg ''max flows'' = Some (Some n) \<and> fw_external_device st < 2 \<and> devices_count = 2
    \<and> os_config_get_time cfg ''expiration time'' = Some (Some (fw_expiration (fw_the_table st)))"
  using assms by (rule fw_init_correct) blast
text \<open>An initialisation for two flows, step by step.\<close>

definition fw_example_config :: config where
  "fw_example_config = [(''external device'', 1), (''expiration time'', 1000), (''max flows'', 2)]"

definition fw_example_mem :: os_mem where
  "fw_example_mem = \<lparr>mem_base = 4096, mem_used = 0\<rparr>"

lemma fw_example_config_reads:
  "os_config_get_device fw_example_config ''external device'' 2 = Some (Some 1)"
  "os_config_get_time fw_example_config ''expiration time'' = Some (Some 1000)"
  "os_config_get_size fw_example_config ''max flows'' = Some (Some 2)"
  by (simp_all add: os_config_get_device_def os_config_get_time_def os_config_get_size_def TIME_MIN_def
      TIME_MAX_def fw_example_config_def os_config_get_correct config_ok_def c_string_def)

lemma fw_example_allocs:
  "os_memory_alloc fw_example_mem 1 24 = Some (4096, \<lparr>mem_base = 4096, mem_used = 24\<rparr>)"
  "os_memory_alloc \<lparr>mem_base = 4096, mem_used = 24\<rparr> 2 16 = Some (4160, \<lparr>mem_base = 4096, mem_used = 96\<rparr>)"
  "os_memory_alloc \<lparr>mem_base = 4096, mem_used = 96\<rparr> 1 24 = Some (4224, \<lparr>mem_base = 4096, mem_used = 152\<rparr>)"
  "os_memory_alloc \<lparr>mem_base = 4096, mem_used = 152\<rparr> 2 32 = Some (4288, \<lparr>mem_base = 4096, mem_used = 256\<rparr>)"
  "os_memory_alloc \<lparr>mem_base = 4096, mem_used = 256\<rparr> 1 32 = Some (4352, \<lparr>mem_base = 4096, mem_used = 288\<rparr>)"
  "os_memory_alloc \<lparr>mem_base = 4096, mem_used = 288\<rparr> 2 8 = Some (4416, \<lparr>mem_base = 4096, mem_used = 336\<rparr>)"
  by (simp_all add: fw_example_mem_def os_memory_alloc_def CACHE_LINE_SIZE_def OS_MEMORY_SIZE_def SIZE_MAX_def Let_def)

lemma fw_example_loops:
  "get_real_capacity 2 = Some 2" "map_alloc_loop (replicate 2 zero_item) 2 0 = Some [zero_item, zero_item]"
  "index_pool_alloc_loop (replicate 2 0) 2 = Some [TIME_MAX, TIME_MAX]"
  by code_simp+

lemma fw_example_init:
  "\<exists>st om. fw_nf_init fw_example_config fw_example_mem 2 = Some (Some (st, om))"
  by (simp add: fw_nf_init_def fw_flow_table_alloc_def map_alloc_def index_pool_alloc_def
      fw_example_config_reads fw_example_allocs fw_example_loops)

theorem fw_init_establishes_witness:
  "\<exists>st :: firewall. fw_table_ok 2 (fw_the_table st) \<and> (\<forall>f t. \<not> fw_holds (fw_the_table st) f t) \<and> fw_external_device st < 2"
proof -
  obtain st om where init: "fw_nf_init fw_example_config fw_example_mem 2 = Some (Some (st, om))"
    using fw_example_init by blast
  have "alloc_ok fw_example_mem" by (simp add: alloc_ok_def fw_example_mem_def)
  from fw_init_establishes [OF this init] show ?thesis
    by (intro exI [of _ st]) (auto simp: fw_example_config_reads)
qed

end
