(* ===== verification/Nf_Nat.thy ===== *)
theory Nf_Nat
  imports Net_Flow Os_Config
begin

text \<open>
  The NAT: \<open>nf/nat/flow_table.h\<close> and \<open>nf/nat/nat.c\<close>. The index of a flow in the table, added to
  a start port, is the external port that stands for it.
\<close>

section \<open>The model\<close>

record nat_table =
  nat_flows_addr :: addr
  nat_flows :: "flow list"
  nat_flow_indexes :: cmap
  nat_port_allocator :: index_pool
  nat_max_flows :: size_t
  nat_start_port :: u16

text \<open>\<open>sizeof (struct flow_table)\<close> is 40.\<close>

definition nat_flow_table_alloc :: "os_mem \<Rightarrow> u16 \<Rightarrow> time_t \<Rightarrow> size_t \<Rightarrow> (nat_table \<times> os_mem) option" where
  "nat_flow_table_alloc om start_port expiration_time max_flows = do {
     (table, om) \<leftarrow> os_memory_alloc om 1 40;
     (flows, om) \<leftarrow> os_memory_alloc om max_flows 16;
     (flow_indexes, om) \<leftarrow> map_alloc om 16 max_flows;
     (port_allocator, om) \<leftarrow> index_pool_alloc om max_flows expiration_time;
     Some (\<lparr>nat_flows_addr = flows, nat_flows = replicate (unat max_flows) zero_flow,
            nat_flow_indexes = flow_indexes, nat_port_allocator = port_allocator,
            nat_max_flows = max_flows, nat_start_port = start_port\<rparr>, om) }"

definition nat_flow_table_get_internal :: "nat_table \<Rightarrow> time_t \<Rightarrow> flow \<Rightarrow> (nat_table \<times> u16 option) option" where
  "nat_flow_table_get_internal table time flow = do {
     let mem = key_mem flow_bytes (nat_flows_addr table) (nat_flows table);
     r \<leftarrow> map_get mem (nat_flow_indexes table) (flow_bytes flow);
     case r of
       Some index \<Rightarrow> do {
         pool \<leftarrow> index_pool_refresh (nat_port_allocator table) time index;
         Some (table\<lparr>nat_port_allocator := pool\<rparr>, Some (nat_start_port table + ucast index)) }
     | None \<Rightarrow> do {
         (pool, b) \<leftarrow> index_pool_borrow (nat_port_allocator table) time;
         case b of
           None \<Rightarrow> Some (table\<lparr>nat_port_allocator := pool\<rparr>, None)
         | Some (index, was_used) \<Rightarrow> do {
             old \<leftarrow> arr_get (nat_flows table) index;
             indexes \<leftarrow> (if was_used then map_remove mem (nat_flow_indexes table) (flow_bytes old)
                        else Some (nat_flow_indexes table));
             flows \<leftarrow> arr_set (nat_flows table) index flow;
             indexes \<leftarrow> map_set (key_mem flow_bytes (nat_flows_addr table) flows) indexes
               (nat_flows_addr table + 16 * unat index) index;
             Some (table\<lparr>nat_flows := flows, nat_flow_indexes := indexes, nat_port_allocator := pool\<rparr>,
               Some (nat_start_port table + ucast index)) } } }"

text \<open>\<open>(uint16_t) (port - table->start_port)\<close>, widened to an index.\<close>

definition nat_flow_table_get_external :: "nat_table \<Rightarrow> time_t \<Rightarrow> u16 \<Rightarrow> (nat_table \<times> flow option) option" where
  "nat_flow_table_get_external table time port = do {
     let index = (ucast (port - nat_start_port table) :: size_t);
     u \<leftarrow> index_pool_used (nat_port_allocator table) time index;
     if \<not> u then Some (table, None)
     else do {
       pool \<leftarrow> index_pool_refresh (nat_port_allocator table) time index;
       flow \<leftarrow> arr_get (nat_flows table) index;
       Some (table\<lparr>nat_port_allocator := pool\<rparr>, Some flow) } }"

record nat_state =
  nat_external_addr :: u32
  nat_wan_device :: device_t
  nat_the_table :: nat_table

definition nat_nf_init :: "config \<Rightarrow> os_mem \<Rightarrow> device_t \<Rightarrow> (nat_state \<times> os_mem) option option" where
  "nat_nf_init cfg om devices_count =
     (if devices_count \<noteq> 2 then Some None
      else do {
        a \<leftarrow> os_config_get_u32 cfg ''external addr'';
        case a of None \<Rightarrow> Some None | Some external_addr \<Rightarrow> do {
        w \<leftarrow> os_config_get_device cfg ''wan device'' devices_count;
        case w of None \<Rightarrow> Some None | Some wan_device \<Rightarrow> do {
        m \<leftarrow> os_config_get_size cfg ''max flows'';
        case m of None \<Rightarrow> Some None | Some max_flows \<Rightarrow> do {
        e \<leftarrow> os_config_get_time cfg ''expiration time'';
        case e of None \<Rightarrow> Some None | Some expiration_time \<Rightarrow> do {
        p \<leftarrow> os_config_get_u16 cfg ''start port'';
        case p of None \<Rightarrow> Some None | Some start_port \<Rightarrow> do {
        (table, om) \<leftarrow> nat_flow_table_alloc om start_port expiration_time max_flows;
        Some (Some (\<lparr>nat_external_addr = external_addr, nat_wan_device = wan_device,
                     nat_the_table = table\<rparr>, om)) } } } } } })"

text \<open>The packet is rewritten in place; a debug message is not modelled.\<close>

definition nat_nf_handle :: "nat_state \<Rightarrow> net_packet \<Rightarrow> (nat_state \<times> net_packet \<times> tx list) option" where
  "nat_nf_handle st packet = do {
     let d = pkt_data packet;
     (ok1, ether_header) \<leftarrow> net_get_ether_header packet;
     if \<not> ok1 then Some (st, packet, []) else do {
     (ok2, ipv4_header) \<leftarrow> net_get_ipv4_header d ether_header;
     if \<not> ok2 then Some (st, packet, []) else do {
     (ok3, tcpudp_header) \<leftarrow> net_get_tcpudp_header d ipv4_header;
     if \<not> ok3 then Some (st, packet, []) else do {
     saddr \<leftarrow> ip_src_addr d ipv4_header;
     daddr \<leftarrow> ip_dst_addr d ipv4_header;
     sport \<leftarrow> l4_src_port d tcpudp_header;
     dport \<leftarrow> l4_dst_port d tcpudp_header;
     proto \<leftarrow> ip_next_proto_id d ipv4_header;
     if pkt_device packet = nat_wan_device st then do {
       (table, r) \<leftarrow> nat_flow_table_get_external (nat_the_table st) (pkt_time packet) dport;
       case r of
         None \<Rightarrow> Some (st\<lparr>nat_the_table := table\<rparr>, packet, [])
       | Some internal_flow \<Rightarrow>
           if dst_ip internal_flow \<noteq> saddr \<or> dst_port internal_flow \<noteq> sport \<or> protocol internal_flow \<noteq> proto
           then Some (st\<lparr>nat_the_table := table\<rparr>, packet, [])
           else do {
             d \<leftarrow> net_packet_checksum_update_32 d ipv4_header daddr (src_ip internal_flow) True;
             d \<leftarrow> net_packet_checksum_update d ipv4_header dport (src_port internal_flow) False;
             d \<leftarrow> wr32 d (ipv4_header + 16) (src_ip internal_flow);
             d \<leftarrow> wr16 d (tcpudp_header + 2) (src_port internal_flow);
             Some (st\<lparr>nat_the_table := table\<rparr>, packet\<lparr>pkt_data := d\<rparr>,
               [Net_Transmit (1 - pkt_device packet) UPDATE_ETHER_ADDRS]) } }
     else do {
       let flow = \<lparr>src_ip = saddr, dst_ip = daddr, src_port = sport, dst_port = dport, protocol = proto\<rparr>;
       (table, r) \<leftarrow> nat_flow_table_get_internal (nat_the_table st) (pkt_time packet) flow;
       case r of
         None \<Rightarrow> Some (st\<lparr>nat_the_table := table\<rparr>, packet, [])
       | Some external_port \<Rightarrow> do {
           d \<leftarrow> net_packet_checksum_update_32 d ipv4_header saddr (nat_external_addr st) True;
           d \<leftarrow> net_packet_checksum_update d ipv4_header sport external_port False;
           d \<leftarrow> wr32 d (ipv4_header + 12) (nat_external_addr st);
           d \<leftarrow> wr16 d tcpudp_header external_port;
           Some (st\<lparr>nat_the_table := table\<rparr>, packet\<lparr>pkt_data := d\<rparr>,
             [Net_Transmit (1 - pkt_device packet) UPDATE_ETHER_ADDRS]) } } } } } }"

section \<open>The flow table\<close>

definition nat_table_ok :: "size_t \<Rightarrow> nat_table \<Rightarrow> bool" where
  "nat_table_ok n table \<longleftrightarrow> table_ok flow_bytes 16 n (nat_flows_addr table) (nat_flows table)
     (nat_flow_indexes table) (nat_port_allocator table)"

text \<open>The table holds a flow at an index, last used at time \<open>t\<close>.\<close>

definition nat_maps :: "nat_table \<Rightarrow> flow \<Rightarrow> size_t \<Rightarrow> time_t \<Rightarrow> bool" where
  "nat_maps table = table_maps (nat_flows table) (nat_port_allocator table)"

definition nat_expiration :: "nat_table \<Rightarrow> time_t" where
  "nat_expiration table = ip_expiration_time (nat_port_allocator table)"

definition nat_full :: "size_t \<Rightarrow> nat_table \<Rightarrow> time_t \<Rightarrow> bool" where
  "nat_full n table now \<longleftrightarrow> (\<forall>i < n. \<exists>f t. nat_maps table f i t \<and> pool_young now (nat_expiration table) t)"

definition nat_same_config :: "nat_table \<Rightarrow> nat_table \<Rightarrow> bool" where
  "nat_same_config table table' \<longleftrightarrow> nat_start_port table' = nat_start_port table
     \<and> nat_expiration table' = nat_expiration table"

lemma nat_maps_unique: "nat_table_ok n table \<Longrightarrow> nat_maps table f i t \<Longrightarrow> nat_maps table f j t' \<Longrightarrow> i = j"
  unfolding nat_table_ok_def nat_maps_def by (rule table_maps_unique)

lemma nat_maps_fun: "nat_maps table f i t \<Longrightarrow> nat_maps table f' i t' \<Longrightarrow> f' = f \<and> t' = t"
  unfolding nat_maps_def by (rule table_maps_fun)

lemma nat_maps_bound: "nat_table_ok n table \<Longrightarrow> nat_maps table f i t \<Longrightarrow> i < n"
  unfolding nat_table_ok_def nat_maps_def by (rule table_maps_bound)

text \<open>
  Asking for an internal flow's port: the flow gets (or keeps) an entry whose index gives the
  port, every other entry stays as it is, and an entry is only ever taken from a flow that has
  expired; the request fails only if all entries are in use by flows that have not.
\<close>

lemma nat_get_internal_correct:
  assumes ok: "nat_table_ok n table" and t: "time \<noteq> TIME_MAX"
  obtains (got) table' i where
      "nat_flow_table_get_internal table time flow = Some (table', Some (nat_start_port table + ucast i))"
      "nat_table_ok n table'" "nat_same_config table table'"
      "\<And>f j t. nat_maps table' f j t \<longleftrightarrow> (if j = i then f = flow \<and> t = time else nat_maps table f j t)"
      "\<And>f t. nat_maps table f i t \<Longrightarrow> f = flow \<or> \<not> pool_young time (nat_expiration table) t"
  | (full) "nat_flow_table_get_internal table time flow = Some (table, None)" "nat_full n table time"
      "\<And>i t. \<not> nat_maps table flow i t"
proof -
  note ok' = ok [unfolded nat_table_ok_def]
  show ?thesis
    using ok'
  proof (cases rule: flow_keys.ok_lookup [where key = flow])
    case (known i t0)
    from ok' known(1) t show ?thesis
    proof (rule flow_keys.ok_refresh)
      fix pool' assume p: "index_pool_refresh (nat_port_allocator table) time i = Some pool'"
        "table_ok flow_bytes 16 n (nat_flows_addr table) (nat_flows table) (nat_flow_indexes table) pool'"
        "ip_expiration_time pool' = ip_expiration_time (nat_port_allocator table)"
        "\<And>key' j t. table_maps (nat_flows table) pool' key' j t \<longleftrightarrow>
          (if j = i then key' = flow \<and> t = time else table_maps (nat_flows table) (nat_port_allocator table) key' j t)"
      show ?thesis
      proof (rule got [of "table\<lparr>nat_port_allocator := pool'\<rparr>" i])
        show "nat_flow_table_get_internal table time flow
          = Some (table\<lparr>nat_port_allocator := pool'\<rparr>, Some (nat_start_port table + ucast i))"
          using known(2) p(1) by (simp add: nat_flow_table_get_internal_def)
        show "f = flow \<or> \<not> pool_young time (nat_expiration table) t" if "nat_maps table f i t" for f t
          using table_maps_fun [OF known(1)] that by (auto simp: nat_maps_def)
      qed (use p in \<open>simp_all add: nat_table_ok_def nat_maps_def nat_same_config_def nat_expiration_def\<close>)
    qed
  next
    case unknown
    show ?thesis
      using ok' unknown(1) t
    proof (cases rule: flow_keys.ok_learn)
      case (learned pool' i was_used m1 m2)
      let ?t' = "table\<lparr>nat_flows := (nat_flows table)[unat i := flow], nat_flow_indexes := m2, nat_port_allocator := pool'\<rparr>"
      show ?thesis
      proof (rule got [of ?t' i])
        show "nat_flow_table_get_internal table time flow = Some (?t', Some (nat_start_port table + ucast i))"
          using unknown learned(1,2,5,6) by (simp add: nat_flow_table_get_internal_def)
        show "f = flow \<or> \<not> pool_young time (nat_expiration table) t" if "nat_maps table f i t" for f t
          using learned(4) that by (auto simp: nat_maps_def nat_expiration_def)
      qed (use learned(7-9) in \<open>simp_all add: nat_table_ok_def nat_maps_def nat_same_config_def nat_expiration_def\<close>)
    next
      case full': full
      show ?thesis
      proof (rule full)
        show "nat_flow_table_get_internal table time flow = Some (table, None)"
          using unknown full'(1) by (simp add: nat_flow_table_get_internal_def)
        show "nat_full n table time"
          using full'(2) by (simp add: nat_full_def nat_maps_def nat_expiration_def)
      qed (use unknown(1) in \<open>simp add: nat_maps_def\<close>)
    qed
  qed
qed

text \<open>
  Asking for an external port: the answer is the flow at the index the port stands for, if that
  entry is in use and has not expired, and the entry is refreshed.
\<close>

lemma nat_get_external_correct:
  fixes port :: u16
  assumes ok: "nat_table_ok n table" and t: "time \<noteq> TIME_MAX"
  defines "index \<equiv> ucast (port - nat_start_port table) :: size_t"
  obtains (known) table' flow t where
      "nat_flow_table_get_external table time port = Some (table', Some flow)"
      "nat_table_ok n table'" "nat_same_config table table'"
      "nat_maps table flow index t" "pool_young time (nat_expiration table) t"
      "\<And>f j t. nat_maps table' f j t \<longleftrightarrow> (if j = index then f = flow \<and> t = time else nat_maps table f j t)"
  | (unknown) "nat_flow_table_get_external table time port = Some (table, None)"
      "\<And>f t. nat_maps table f index t \<Longrightarrow> \<not> pool_young time (nat_expiration table) t"
proof -
  note ok' = ok [unfolded nat_table_ok_def]
  let ?p = "nat_port_allocator table"
  have used: "index_pool_used ?p time index = Some (case pool_items ?p index of None \<Rightarrow> False
    | Some t \<Rightarrow> pool_young time (ip_expiration_time ?p) t)"
    using ok' by (intro index_pool_used_correct) (simp add: table_ok_def)
  show ?thesis
  proof (cases "\<exists>t. pool_items ?p index = Some t \<and> pool_young time (ip_expiration_time ?p) t")
    case True
    then obtain t0 where t0: "pool_items ?p index = Some t0" "pool_young time (ip_expiration_time ?p) t0" by blast
    define flow where "flow = nat_flows table ! unat index"
    have m: "table_maps (nat_flows table) ?p flow index t0" using t0 by (simp add: table_maps_def flow_def)
    have get: "arr_get (nat_flows table) index = Some flow" using table_maps_nth [OF ok' m] by simp
    from ok' m t show ?thesis
    proof (rule flow_keys.ok_refresh)
      fix pool' assume p: "index_pool_refresh ?p time index = Some pool'"
        "table_ok flow_bytes 16 n (nat_flows_addr table) (nat_flows table) (nat_flow_indexes table) pool'"
        "ip_expiration_time pool' = ip_expiration_time ?p"
        "\<And>key' j t. table_maps (nat_flows table) pool' key' j t \<longleftrightarrow>
          (if j = index then key' = flow \<and> t = time else table_maps (nat_flows table) ?p key' j t)"
      show ?thesis
      proof (rule known [of "table\<lparr>nat_port_allocator := pool'\<rparr>" flow t0])
        show "nat_flow_table_get_external table time port = Some (table\<lparr>nat_port_allocator := pool'\<rparr>, Some flow)"
          using used t0 p(1) get by (simp add: nat_flow_table_get_external_def index_def)
      qed (use p m t0 in \<open>simp_all add: nat_table_ok_def nat_maps_def nat_same_config_def nat_expiration_def\<close>)
    qed
  next
    case False
    then have no: "index_pool_used ?p time index = Some False" using used by (auto split: option.splits)
    show ?thesis
    proof (rule unknown)
      show "nat_flow_table_get_external table time port = Some (table, None)"
        using no by (simp add: nat_flow_table_get_external_def index_def)
    qed (use False in \<open>auto simp: nat_maps_def table_maps_def nat_expiration_def\<close>)
  qed
qed
section \<open>Rewriting a packet\<close>

text \<open>The buffer also holds the TCP checksum.\<close>

definition nat_fits :: "net_packet \<Rightarrow> bool" where
  "nat_fits packet \<longleftrightarrow> 52 \<le> length (pkt_data packet)"

lemma nat_fits_headers: "nat_fits packet \<Longrightarrow> headers_fit packet"
  by (simp add: nat_fits_def headers_fit_def)

text \<open>
  What the update of the IPv4 checksum does to \<open>src_addr\<close>, since it addresses byte 12 of the
  header: the two halves of the address change from \<open>old\<close> to \<open>new\<close> are added to its low half.
\<close>

definition nat_clobbered :: "u32 \<Rightarrow> u32 \<Rightarrow> u32 \<Rightarrow> u32" where
  "nat_clobbered src old new =
     push_bit 16 (drop_bit 16 src)
     OR ucast (checksum_word (checksum_word (ucast src) (ucast old) (ucast new))
                 (ucast (drop_bit 16 old)) (ucast (drop_bit 16 new)) :: u16)"

lemma nat_checksums:
  assumes fit: "nat_fits packet"
  obtains d1 d2 where "net_packet_checksum_update_32 (pkt_data packet) 14 old new True = Some d1"
    "net_packet_checksum_update d1 14 oldp newp False = Some d2"
    "agree_off ({26..<28} \<union> l4_checksums) (pkt_data packet) d2"
    "(le_word (take 4 (drop 26 d2)) :: u32) = nat_clobbered (src_ip (packet_flow packet)) old new"
proof -
  let ?d = "pkt_data packet"
  have len: "52 \<le> length ?d" using fit by (simp add: nat_fits_def)
  obtain d1 where d1: "net_packet_checksum_update_32 ?d 14 old new True = Some d1"
    "agree_off ({26..<28} \<union> l4_checksums) ?d d1"
    "(le_word (take 2 (drop 26 d1)) :: u16) = checksum_word
      (checksum_word (le_word (take 2 (drop 26 ?d))) (ucast old) (ucast new))
      (ucast (drop_bit 16 old)) (ucast (drop_bit 16 new))"
    by (rule net_packet_checksum_update_32_effect [OF len])
  have len1: "52 \<le> length d1" using agree_off_length [OF d1(2)] len by simp
  obtain d2 where d2: "net_packet_checksum_update d1 14 oldp newp False = Some d2"
    "agree_off l4_checksums d1 d2"
    using net_packet_checksum_update_effect [OF len1, of oldp newp False] by auto
  have same: "take 4 (drop 26 d2) = take 4 (drop 26 d1)"
    using len1 by (intro agree_off_take_drop [OF d2(2)]) (auto simp: l4_checksums_def)
  have high: "take 2 (drop 28 d1) = take 2 (drop 28 ?d)"
    using len by (intro agree_off_take_drop [OF d1(2)]) (auto simp: l4_checksums_def)
  have src: "src_ip (packet_flow packet) = ucast (le_word (take 2 (drop 26 ?d)) :: u16)
      OR push_bit 16 (ucast (le_word (take 2 (drop 28 ?d)) :: u16))"
    using take_drop_halves [of 26 ?d] len by (simp add: packet_flow_def le_word_halves)
  have new: "(le_word (take 4 (drop 26 d1)) :: u32) = ucast (le_word (take 2 (drop 26 d1)) :: u16)
      OR push_bit 16 (ucast (le_word (take 2 (drop 28 d1)) :: u16))"
    using take_drop_halves [of 26 d1] len1 by (simp add: le_word_halves)
  have parts: "(ucast (ucast x OR push_bit 16 (ucast y) :: u32) :: u16) = x"
    "drop_bit 16 (ucast x OR push_bit 16 (ucast y) :: u32) = ucast y" for x y :: u16
    by (rule bit_word_eqI, auto simp: bit_simps dest: bit_imp_le_length)+
  have "(le_word (take 4 (drop 26 d2)) :: u32) = nat_clobbered (src_ip (packet_flow packet)) old new"
    unfolding same new nat_clobbered_def src parts d1(3) high by (simp add: or.commute)
  moreover have "agree_off ({26..<28} \<union> l4_checksums) ?d d2"
    by (rule agree_off_trans [OF d1(2) d2(2)]) simp
  ultimately show ?thesis using that d1(1) d2(1) by blast
qed

text \<open>Outgoing: the source becomes the NAT's; the destination and the protocol stay.\<close>

lemma nat_rewrite_src:
  assumes fit: "nat_fits packet"
  obtains d1 d2 d3 d4 where "net_packet_checksum_update_32 (pkt_data packet) 14 old new True = Some d1"
    "net_packet_checksum_update d1 14 oldp newp False = Some d2"
    "wr32 d2 26 a = Some d3" "wr16 d3 34 p = Some d4"
    "length d4 = length (pkt_data packet)"
    "packet_flow (packet\<lparr>pkt_data := d4\<rparr>) = (packet_flow packet)\<lparr>src_ip := a, src_port := p\<rparr>"
    "is_tcpudp (packet\<lparr>pkt_data := d4\<rparr>) = is_tcpudp packet"
proof -
  let ?d = "pkt_data packet"
  have len: "52 \<le> length ?d" using fit by (simp add: nat_fits_def)
  obtain d1 d2 where d: "net_packet_checksum_update_32 ?d 14 old new True = Some d1"
    "net_packet_checksum_update d1 14 oldp newp False = Some d2"
    "agree_off ({26..<28} \<union> l4_checksums) ?d d2"
    by (rule nat_checksums [OF fit])
  have b: "26 + 4 \<le> length d2" using agree_off_length [OF d(3)] len by simp
  obtain d3 where d3: "wr32 d2 26 a = Some d3" "agree_off {26..<26 + 4} d2 d3" "le_word (take 4 (drop 26 d3)) = a"
    by (rule wr32_effect [OF b])
  have c: "34 + 2 \<le> length d3" using agree_off_length [OF d3(2)] agree_off_length [OF d(3)] len by simp
  obtain d4 where d4: "wr16 d3 34 p = Some d4" "agree_off {34..<34 + 2} d3 d4" "le_word (take 2 (drop 34 d4)) = p"
    by (rule wr16_effect [OF c])
  let ?S = "{26..<30} \<union> {34..<36} \<union> l4_checksums"
  have "agree_off ({26..<30} \<union> l4_checksums) ?d d3" by (rule agree_off_trans [OF d(3) d3(2)]) auto
  from agree_off_trans [OF this d4(2)] have all: "agree_off ?S ?d d4" by (auto simp: Un_ac)
  have rest: "take 2 (drop 12 d4) = take 2 (drop 12 ?d)" "take 4 (drop 30 d4) = take 4 (drop 30 ?d)"
    "take 2 (drop 36 d4) = take 2 (drop 36 ?d)"
    using len by (rule_tac agree_off_take_drop [OF all], simp, force simp: l4_checksums_def)+
  have src: "take 4 (drop 26 d4) = take 4 (drop 26 d3)"
    using c by (intro agree_off_take_drop [OF d4(2)]) auto
  have proto: "d4 ! 23 = ?d ! 23" using len by (intro agree_off_nth [OF all]) (auto simp: l4_checksums_def)
  show ?thesis
  proof (rule that [OF d(1,2) d3(1) d4(1) agree_off_length [OF all]])
    show "packet_flow (packet\<lparr>pkt_data := d4\<rparr>) = (packet_flow packet)\<lparr>src_ip := a, src_port := p\<rparr>"
      by (simp add: packet_flow_def rest src proto d3(3) d4(3))
    show "is_tcpudp (packet\<lparr>pkt_data := d4\<rparr>) = is_tcpudp packet"
      by (simp add: is_tcpudp_def rest proto)
  qed
qed

text \<open>Incoming: the destination becomes the internal one, and the source address is clobbered.\<close>

lemma nat_rewrite_dst:
  assumes fit: "nat_fits packet"
  obtains d1 d2 d3 d4 where "net_packet_checksum_update_32 (pkt_data packet) 14 old new True = Some d1"
    "net_packet_checksum_update d1 14 oldp newp False = Some d2"
    "wr32 d2 30 a = Some d3" "wr16 d3 36 p = Some d4"
    "length d4 = length (pkt_data packet)"
    "packet_flow (packet\<lparr>pkt_data := d4\<rparr>) = (packet_flow packet)
       \<lparr>src_ip := nat_clobbered (src_ip (packet_flow packet)) old new, dst_ip := a, dst_port := p\<rparr>"
    "is_tcpudp (packet\<lparr>pkt_data := d4\<rparr>) = is_tcpudp packet"
    "take 2 (drop 24 d4) = take 2 (drop 24 (pkt_data packet))"
proof -
  let ?d = "pkt_data packet"
  have len: "52 \<le> length ?d" using fit by (simp add: nat_fits_def)
  obtain d1 d2 where d: "net_packet_checksum_update_32 ?d 14 old new True = Some d1"
    "net_packet_checksum_update d1 14 oldp newp False = Some d2"
    "agree_off ({26..<28} \<union> l4_checksums) ?d d2"
    "(le_word (take 4 (drop 26 d2)) :: u32) = nat_clobbered (src_ip (packet_flow packet)) old new"
    by (rule nat_checksums [OF fit])
  have b: "30 + 4 \<le> length d2" using agree_off_length [OF d(3)] len by simp
  obtain d3 where d3: "wr32 d2 30 a = Some d3" "agree_off {30..<30 + 4} d2 d3" "le_word (take 4 (drop 30 d3)) = a"
    by (rule wr32_effect [OF b])
  have c: "36 + 2 \<le> length d3" using agree_off_length [OF d3(2)] agree_off_length [OF d(3)] len by simp
  obtain d4 where d4: "wr16 d3 36 p = Some d4" "agree_off {36..<36 + 2} d3 d4" "le_word (take 2 (drop 36 d4)) = p"
    by (rule wr16_effect [OF c])
  let ?S = "{26..<28} \<union> {30..<34} \<union> {36..<38} \<union> l4_checksums"
  have e: "agree_off ({30..<34} \<union> {36..<38}) d2 d4" by (rule agree_off_trans [OF d3(2) d4(2)]) auto
  have all: "agree_off ?S ?d d4" by (rule agree_off_trans [OF d(3) e]) blast
  have src: "take 4 (drop 26 d4) = take 4 (drop 26 d2)"
    using b by (intro agree_off_take_drop [OF e]) auto
  have dst: "take 4 (drop 30 d4) = take 4 (drop 30 d3)"
    using c by (intro agree_off_take_drop [OF d4(2)]) auto
  have rest: "take 2 (drop 12 d4) = take 2 (drop 12 ?d)" "take 2 (drop 34 d4) = take 2 (drop 34 ?d)"
    "take 2 (drop 24 d4) = take 2 (drop 24 ?d)"
    using len by (rule_tac agree_off_take_drop [OF all], simp, force simp: l4_checksums_def)+
  have proto: "d4 ! 23 = ?d ! 23" using len by (intro agree_off_nth [OF all]) (auto simp: l4_checksums_def)
  show ?thesis
  proof (rule that [OF d(1,2) d3(1) d4(1) agree_off_length [OF all] _ _ rest(3)])
    show "packet_flow (packet\<lparr>pkt_data := d4\<rparr>) = (packet_flow packet)
       \<lparr>src_ip := nat_clobbered (src_ip (packet_flow packet)) old new, dst_ip := a, dst_port := p\<rparr>"
      using d(4) by (simp add: packet_flow_def rest proto src dst d3(3) d4(3))
    show "is_tcpudp (packet\<lparr>pkt_data := d4\<rparr>) = is_tcpudp packet"
      by (simp add: is_tcpudp_def rest proto)
  qed
qed
section \<open>The packet handler\<close>

abbreviation nat_forward :: "net_packet \<Rightarrow> tx list" where
  "nat_forward packet \<equiv> [Net_Transmit (1 - pkt_device packet) UPDATE_ETHER_ADDRS]"

lemma nat_handle_other:
  assumes "headers_fit packet" "\<not> is_tcpudp packet"
  shows "nat_nf_handle st packet = Some (st, packet, [])"
  using assms by (rule not_tcpudp_headers) (simp_all add: nat_nf_handle_def Let_def header_reads)

lemma nat_handle_internal:
  assumes ok: "nat_table_ok n (nat_the_table st)" and fit: "nat_fits packet" and t: "pkt_time packet \<noteq> TIME_MAX"
    and tcp: "is_tcpudp packet" and dev: "pkt_device packet \<noteq> nat_wan_device st"
  obtains (out) table' packet' i where
      "nat_nf_handle st packet = Some (st\<lparr>nat_the_table := table'\<rparr>, packet', nat_forward packet)"
      "nat_table_ok n table'" "nat_same_config (nat_the_table st) table'"
      "\<And>f j t. nat_maps table' f j t \<longleftrightarrow>
        (if j = i then f = packet_flow packet \<and> t = pkt_time packet else nat_maps (nat_the_table st) f j t)"
      "\<And>f t. nat_maps (nat_the_table st) f i t \<Longrightarrow> f = packet_flow packet
        \<or> \<not> pool_young (pkt_time packet) (nat_expiration (nat_the_table st)) t"
      "packet_flow packet' = (packet_flow packet)\<lparr>src_ip := nat_external_addr st,
        src_port := nat_start_port (nat_the_table st) + ucast i\<rparr>"
      "is_tcpudp packet'"
  | (dropped) "nat_nf_handle st packet = Some (st, packet, [])"
      "nat_full n (nat_the_table st) (pkt_time packet)"
      "\<And>i t. \<not> nat_maps (nat_the_table st) (packet_flow packet) i t"
proof -
  note reads = header_reads nat_fits_headers [OF fit]
  show ?thesis
    using ok t
  proof (cases rule: nat_get_internal_correct [where flow = "packet_flow packet"])
    case (got table' i)
    let ?port = "nat_start_port (nat_the_table st) + ucast i"
    obtain d1 d2 d3 d4 where d: "net_packet_checksum_update_32 (pkt_data packet) 14
        (src_ip (packet_flow packet)) (nat_external_addr st) True = Some d1"
      "net_packet_checksum_update d1 14 (src_port (packet_flow packet)) ?port False = Some d2"
      "wr32 d2 26 (nat_external_addr st) = Some d3" "wr16 d3 34 ?port = Some d4"
      "length d4 = length (pkt_data packet)"
      "packet_flow (packet\<lparr>pkt_data := d4\<rparr>)
        = (packet_flow packet)\<lparr>src_ip := nat_external_addr st, src_port := ?port\<rparr>"
      "is_tcpudp (packet\<lparr>pkt_data := d4\<rparr>) = is_tcpudp packet"
      by (rule nat_rewrite_src [OF fit])
    have "nat_nf_handle st packet = Some (st\<lparr>nat_the_table := table'\<rparr>, packet\<lparr>pkt_data := d4\<rparr>, nat_forward packet)"
      using got(1) dev tcp d(1-4) by (simp add: nat_nf_handle_def Let_def reads)
    from out [OF this got(2-5) d(6)] show ?thesis using d(7) tcp by simp
  next
    case full
    have "nat_nf_handle st packet = Some (st, packet, [])"
      using full(1) dev tcp by (simp add: nat_nf_handle_def Let_def reads)
    then show ?thesis using full(2,3) by (rule dropped)
  qed
qed

text \<open>The flow that an external port stands for, and whether a packet comes from its peer.\<close>

definition nat_index :: "nat_table \<Rightarrow> u16 \<Rightarrow> size_t" where
  "nat_index table port = ucast (port - nat_start_port table)"

definition nat_from_peer :: "flow \<Rightarrow> flow \<Rightarrow> bool" where
  "nat_from_peer internal f \<longleftrightarrow> dst_ip internal = src_ip f \<and> dst_port internal = src_port f
     \<and> protocol internal = protocol f"

lemma nat_handle_external:
  assumes ok: "nat_table_ok n (nat_the_table st)" and fit: "nat_fits packet" and t: "pkt_time packet \<noteq> TIME_MAX"
    and tcp: "is_tcpudp packet" and dev: "pkt_device packet = nat_wan_device st"
  obtains (known) table' packet' flow t out where
      "nat_nf_handle st packet = Some (st\<lparr>nat_the_table := table'\<rparr>, packet', out)"
      "nat_table_ok n table'" "nat_same_config (nat_the_table st) table'"
      "nat_maps (nat_the_table st) flow (nat_index (nat_the_table st) (dst_port (packet_flow packet))) t"
      "pool_young (pkt_time packet) (nat_expiration (nat_the_table st)) t"
      "if nat_from_peer flow (packet_flow packet)
       then out = nat_forward packet \<and> is_tcpudp packet'
         \<and> packet_flow packet' = (packet_flow packet)
           \<lparr>src_ip := nat_clobbered (src_ip (packet_flow packet)) (dst_ip (packet_flow packet)) (src_ip flow),
            dst_ip := src_ip flow, dst_port := src_port flow\<rparr>
         \<and> take 2 (drop 24 (pkt_data packet')) = take 2 (drop 24 (pkt_data packet))
       else out = [] \<and> packet' = packet"
      "\<And>f j t. nat_maps table' f j t \<longleftrightarrow>
        (if j = nat_index (nat_the_table st) (dst_port (packet_flow packet)) then f = flow \<and> t = pkt_time packet
         else nat_maps (nat_the_table st) f j t)"
  | (unknown) "nat_nf_handle st packet = Some (st, packet, [])"
      "\<And>f t. nat_maps (nat_the_table st) f (nat_index (nat_the_table st) (dst_port (packet_flow packet))) t
        \<Longrightarrow> \<not> pool_young (pkt_time packet) (nat_expiration (nat_the_table st)) t"
proof -
  note reads = header_reads nat_fits_headers [OF fit]
  show ?thesis
    using ok t
  proof (cases rule: nat_get_external_correct [where port = "dst_port (packet_flow packet)"])
    case known': (known table' flow t0)
    show ?thesis
    proof (cases "nat_from_peer flow (packet_flow packet)")
      case True
      obtain d1 d2 d3 d4 where d: "net_packet_checksum_update_32 (pkt_data packet) 14
          (dst_ip (packet_flow packet)) (src_ip flow) True = Some d1"
        "net_packet_checksum_update d1 14 (dst_port (packet_flow packet)) (src_port flow) False = Some d2"
        "wr32 d2 30 (src_ip flow) = Some d3" "wr16 d3 36 (src_port flow) = Some d4"
        "length d4 = length (pkt_data packet)"
        "packet_flow (packet\<lparr>pkt_data := d4\<rparr>) = (packet_flow packet)
           \<lparr>src_ip := nat_clobbered (src_ip (packet_flow packet)) (dst_ip (packet_flow packet)) (src_ip flow),
            dst_ip := src_ip flow, dst_port := src_port flow\<rparr>"
        "is_tcpudp (packet\<lparr>pkt_data := d4\<rparr>) = is_tcpudp packet"
        "take 2 (drop 24 d4) = take 2 (drop 24 (pkt_data packet))"
        by (rule nat_rewrite_dst [OF fit])
      have "nat_nf_handle st packet = Some (st\<lparr>nat_the_table := table'\<rparr>, packet\<lparr>pkt_data := d4\<rparr>, nat_forward packet)"
        using known'(1) dev tcp d(1-4) True by (simp add: nat_nf_handle_def Let_def reads nat_from_peer_def)
      then show ?thesis
        by (rule known [OF _ known'(2,3,4) [folded nat_index_def] known'(5)])
          (use True d(6-8) tcp known'(6) [folded nat_index_def] in simp_all)
    next
      case False
      have "nat_nf_handle st packet = Some (st\<lparr>nat_the_table := table'\<rparr>, packet, [])"
        using known'(1) dev tcp False by (auto simp: nat_nf_handle_def Let_def reads nat_from_peer_def)
      then show ?thesis
        by (rule known [OF _ known'(2,3,4) [folded nat_index_def] known'(5)]) (use False known'(6) [folded nat_index_def] in simp_all)
    qed
  next
    case unknown'': unknown
    have "nat_nf_handle st packet = Some (st, packet, [])"
      using unknown''(1) dev tcp by (simp add: nat_nf_handle_def Let_def reads)
    then show ?thesis using unknown''(2) [folded nat_index_def] by (rule unknown)
  qed
qed

text \<open>Ports and indices correspond as long as there are at most \<open>2\<^sup>1\<^sup>6\<close> flows.\<close>

lemma nat_index_port:
  assumes "unat i < 2 ^ 16"
  shows "nat_index table (nat_start_port table + ucast i) = i"
proof -
  have "(ucast (ucast i :: u16) :: size_t) = i"
  proof (rule word_unat_eq_iff [THEN iffD2])
    have "unat (ucast i :: u16) = unat i" using assms by (simp add: unsigned_ucast_eq take_bit_nat_eq_self)
    then show "unat (ucast (ucast i :: u16) :: size_t) = unat i" by simp
  qed
  then show ?thesis by (simp add: nat_index_def)
qed

text \<open>
  The packets that use the entry of a flow: those of the flow from the inside, and those from
  outside for its external port. The entry is refreshed before the sender is compared with the
  peer, so a packet that is dropped as spoofed counts as well.
\<close>

definition nat_uses :: "device_t \<Rightarrow> flow \<Rightarrow> u16 \<Rightarrow> net_packet \<Rightarrow> bool" where
  "nat_uses wan f port q \<longleftrightarrow> is_tcpudp q
     \<and> (if pkt_device q = wan then dst_port (packet_flow q) = port else packet_flow q = f)"

lemma nat_index_is_port:
  assumes "unat i < 2 ^ 16"
  shows "nat_index table port = i \<longleftrightarrow> port = nat_start_port table + ucast i"
proof
  assume "nat_index table port = i"
  moreover have "(ucast (ucast x :: size_t) :: u16) = x" for x :: u16
    by (rule bit_word_eqI) (auto simp: bit_simps dest: bit_imp_le_length)
  ultimately have "ucast i = port - nat_start_port table" by (auto simp: nat_index_def)
  then show "port = nat_start_port table + ucast i" by simp
qed (simp add: nat_index_port [OF assms])

text \<open>An entry that has not expired survives every packet, with its own time or the packet's.\<close>

lemma nat_handle_keeps:
  assumes ok: "nat_table_ok n (nat_the_table st)" and fit: "nat_fits packet" and t: "pkt_time packet \<noteq> TIME_MAX"
    and held: "nat_maps (nat_the_table st) f i t0" "pool_young (pkt_time packet) (nat_expiration (nat_the_table st)) t0"
    and i: "unat i < 2 ^ 16" and port: "port = nat_start_port (nat_the_table st) + ucast i"
    and run: "nat_nf_handle st packet = Some (st', packet', out)"
  shows "nat_maps (nat_the_table st') f i (if nat_uses (nat_wan_device st) f port packet then pkt_time packet else t0)
    \<and> nat_table_ok n (nat_the_table st') \<and> nat_same_config (nat_the_table st) (nat_the_table st')
    \<and> nat_wan_device st' = nat_wan_device st"
proof (cases "is_tcpudp packet")
  case tcp: True
  show ?thesis
  proof (cases "pkt_device packet = nat_wan_device st")
    case True
    show ?thesis
      using ok fit t tcp True
    proof (cases rule: nat_handle_external)
      case (known table' p flow t1 o1)
      have "nat_uses (nat_wan_device st) f port packet
          \<longleftrightarrow> nat_index (nat_the_table st) (dst_port (packet_flow packet)) = i"
        using tcp True by (simp add: nat_uses_def port nat_index_is_port [OF i])
      moreover have "flow = f" if "nat_index (nat_the_table st) (dst_port (packet_flow packet)) = i"
        using nat_maps_fun [OF held(1)] known(4) that by blast
      moreover have "st' = st\<lparr>nat_the_table := table'\<rparr>" using known(1) run by simp
      ultimately show ?thesis using known(2,3,7) held(1) by auto
    next
      case unknown
      then have "nat_index (nat_the_table st) (dst_port (packet_flow packet)) \<noteq> i" using held by blast
      then have "\<not> nat_uses (nat_wan_device st) f port packet"
        using True by (simp add: nat_uses_def port nat_index_is_port [OF i])
      then show ?thesis using unknown(1) run held(1) ok by (simp add: nat_same_config_def)
    qed
  next
    case False
    have uses: "nat_uses (nat_wan_device st) f port packet \<longleftrightarrow> packet_flow packet = f"
      using tcp False by (simp add: nat_uses_def)
    show ?thesis
      using ok fit t tcp False
    proof (cases rule: nat_handle_internal)
      case (out table' p j)
      have st': "st' = st\<lparr>nat_the_table := table'\<rparr>" using out(1) run by simp
      have "nat_maps table' f i (if packet_flow packet = f then pkt_time packet else t0)"
      proof (cases "j = i")
        case True
        then have "f = packet_flow packet" using out(5) [of f t0] held by blast
        then show ?thesis using out(4) True by simp
      next
        case False
        then have old: "nat_maps table' f i t0" using out(4) held(1) by simp
        have "nat_maps table' (packet_flow packet) j (pkt_time packet)" using out(4) by simp
        then have "packet_flow packet \<noteq> f" using nat_maps_unique [OF out(2) old] False by blast
        with old show ?thesis by simp
      qed
      then show ?thesis using out(2,3) by (simp add: st' uses)
    next
      case dropped
      then have "packet_flow packet \<noteq> f" using held(1) by blast
      then show ?thesis using dropped(1) run held(1) ok by (simp add: uses nat_same_config_def)
    qed
  qed
next
  case False
  then have "\<not> nat_uses (nat_wan_device st) f port packet" by (simp add: nat_uses_def)
  then show ?thesis using nat_handle_other [OF nat_fits_headers [OF fit] False] run held(1) ok
    by (simp add: nat_same_config_def)
qed

text \<open>The packets handled one after the other, and the state they lead to.\<close>

inductive nat_run :: "nat_state \<Rightarrow> net_packet list \<Rightarrow> nat_state \<Rightarrow> bool" where
  nat_run_start: "nat_run st [] st"
| nat_run_step: "nat_run st0 packets st \<Longrightarrow> nat_fits packet \<Longrightarrow> pkt_time packet \<noteq> TIME_MAX \<Longrightarrow>
    nat_nf_handle st packet = Some (st', packet', out) \<Longrightarrow> nat_run st0 (packets @ [packet]) st'"

lemma nat_run_keeps:
  assumes "nat_run st0 packets st" "nat_table_ok n (nat_the_table st0)" "nat_maps (nat_the_table st0) f i t"
    and i: "unat i < 2 ^ 16" and port: "port = nat_start_port (nat_the_table st0) + ucast i"
    and "kept_alive (nat_uses (nat_wan_device st0) f port) (nat_expiration (nat_the_table st0)) t packets"
  shows "nat_maps (nat_the_table st) f i (last_use (nat_uses (nat_wan_device st0) f port) t packets)
    \<and> nat_table_ok n (nat_the_table st) \<and> nat_same_config (nat_the_table st0) (nat_the_table st)
    \<and> nat_wan_device st = nat_wan_device st0"
  using assms(1-3,5,6)
proof (induction rule: nat_run.induct)
  case (nat_run_start st)
  then show ?case by (simp add: nat_same_config_def)
next
  case (nat_run_step st0 packets st packet st' packet' out)
  let ?uses = "nat_uses (nat_wan_device st0) f port"
  have alive: "kept_alive ?uses (nat_expiration (nat_the_table st0)) t packets"
    "pool_young (pkt_time packet) (nat_expiration (nat_the_table st0)) (last_use ?uses t packets)"
    using nat_run_step.prems(4) by (simp_all add: kept_alive_snoc)
  note IH = nat_run_step.IH [OF nat_run_step.prems(1-3) alive(1)]
  then have ok: "nat_table_ok n (nat_the_table st)" and held: "nat_maps (nat_the_table st) f i (last_use ?uses t packets)"
    and dev: "nat_wan_device st = nat_wan_device st0" by blast+
  have same: "nat_start_port (nat_the_table st) = nat_start_port (nat_the_table st0)"
    "nat_expiration (nat_the_table st) = nat_expiration (nat_the_table st0)" using IH by (simp_all add: nat_same_config_def)
  have "pool_young (pkt_time packet) (nat_expiration (nat_the_table st)) (last_use ?uses t packets)"
    "port = nat_start_port (nat_the_table st) + ucast i" using alive(2) nat_run_step.prems(3) by (simp_all add: same)
  from nat_handle_keeps [OF ok nat_run_step.hyps(2,3) held this(1) i this(2) nat_run_step.hyps(4)]
  show ?case by (simp add: last_use_snoc dev same nat_same_config_def)
qed

lemma nat_handle_result:
  assumes "nat_table_ok n (nat_the_table st)" "nat_fits packet" "pkt_time packet \<noteq> TIME_MAX"
  shows "\<exists>st' packet' out. nat_nf_handle st packet = Some (st', packet', out)
    \<and> nat_table_ok n (nat_the_table st') \<and> out \<in> {[], [Net_Transmit (1 - pkt_device packet) UPDATE_ETHER_ADDRS]}"
proof (cases "is_tcpudp packet")
  case tcp: True
  show ?thesis
  proof (cases "pkt_device packet = nat_wan_device st")
    case True
    show ?thesis
      using assms tcp True by (cases rule: nat_handle_external) (use assms(1) in \<open>auto split: if_splits\<close>)
  next
    case False
    show ?thesis
      using assms tcp False by (cases rule: nat_handle_internal) (use assms(1) in auto)
  qed
next
  case False
  with nat_handle_other [OF nat_fits_headers [OF assms(2)]] assms(1) show ?thesis by simp
qed

lemma nat_run_total:
  "nat_table_ok n (nat_the_table st0) \<Longrightarrow> \<forall>q \<in> set packets. nat_fits q \<and> pkt_time q \<noteq> TIME_MAX \<Longrightarrow>
   \<exists>st. nat_run st0 packets st \<and> nat_table_ok n (nat_the_table st)"
proof (induction packets rule: rev_induct)
  case Nil
  then show ?case using nat_run_start by blast
next
  case (snoc q packets)
  then obtain st where st: "nat_run st0 packets st" "nat_table_ok n (nat_the_table st)" by auto
  have q: "nat_fits q" "pkt_time q \<noteq> TIME_MAX" using snoc.prems(2) by simp_all
  then show ?case using nat_handle_result [OF st(2) q] nat_run_step [OF st(1) q] by blast
qed

section \<open>Properties\<close>

lemma nat_init_correct:
  assumes "alloc_ok om" "nat_nf_init cfg om devices_count = Some (Some (st, om'))"
  obtains n where "nat_table_ok n (nat_the_table st)" "devices_count = 2" "nat_wan_device st < 2"
    "os_config_get_size cfg ''max flows'' = Some (Some n)"
proof -
  from assms(2) obtain addr wan n e port table where c: "devices_count = 2"
    "os_config_get_device cfg ''wan device'' devices_count = Some (Some wan)"
    "os_config_get_size cfg ''max flows'' = Some (Some n)"
    "nat_flow_table_alloc om port e n = Some (table, om')"
    "st = \<lparr>nat_external_addr = addr, nat_wan_device = wan, nat_the_table = table\<rparr>"
    by (auto simp: nat_nf_init_def split: if_splits Option.bind_splits option.splits)
  from c(4) obtain a1 om1 a2 om2 m om3 p where al: "os_memory_alloc om 1 40 = Some (a1, om1)"
    "os_memory_alloc om1 n 16 = Some (a2, om2)" "map_alloc om2 16 n = Some (m, om3)" "index_pool_alloc om3 n e = Some (p, om')"
    "table = \<lparr>nat_flows_addr = a2, nat_flows = replicate (unat n) zero_flow, nat_flow_indexes = m,
      nat_port_allocator = p, nat_max_flows = n, nat_start_port = port\<rparr>"
    by (auto simp: nat_flow_table_alloc_def split: Option.bind_splits)
  have small: "unat n < 2 ^ 58" by (rule os_config_get_size_bound [OF c(3)])
  have "alloc_ok om1" using os_memory_alloc_correct [OF assms(1) _ al(1)] by simp
  from os_memory_alloc_correct [OF this _ al(2)] small have base: "a2 \<noteq> NULL" by simp
  have m16: "map_alloc om2 (of_nat 16) n = Some (m, om3)" using al(3) by simp
  have "unat n \<le> 2 ^ 63" using small by simp
  note fresh = flow_keys.ok_alloc [OF m16 al(4) this _ base, of "replicate (unat n) zero_flow", simplified]
  have "wan < 2" using os_config_get_device_bound [OF c(2)] c(1) by simp
  then show ?thesis using fresh c al(5) by (intro that [of n]) (simp_all add: nat_table_ok_def)
qed

lemma nat_handle_frame:
  assumes "nat_nf_handle st packet = Some (st', packet', out)"
  shows "length (pkt_data packet') = length (pkt_data packet) \<and> pkt_length packet' = pkt_length packet
    \<and> pkt_device packet' = pkt_device packet"
  using assms
  by (auto simp: nat_nf_handle_def Let_def dest!: length_wr length_checksum_update split: Option.bind_splits if_splits option.splits)

text \<open>A NAT with the external address 99, an empty table for two flows and ports from 1000.\<close>

definition nat_example :: nat_state where
  "nat_example = \<lparr>nat_external_addr = 99, nat_wan_device = 1, nat_the_table =
     \<lparr>nat_flows_addr = 64, nat_flows = [zero_flow, zero_flow], nat_flow_indexes = empty_cmap 2 16,
      nat_port_allocator = empty_pool 2 1000, nat_max_flows = 2, nat_start_port = 1000\<rparr>\<rparr>"

lemma nat_example_ok: "nat_table_ok 2 (nat_the_table nat_example)" "\<not> nat_maps (nat_the_table nat_example) f i t"
  "nat_wan_device nat_example = 1" "nat_expiration (nat_the_table nat_example) = 1000"
  "nat_start_port (nat_the_table nat_example) = 1000"
  unfolding nat_table_ok_def nat_maps_def nat_expiration_def
  by (simp_all add: nat_example_def empty_table_ok)

text \<open>The example packets, in a buffer that also holds the transport header.\<close>

definition nat_pad :: "net_packet \<Rightarrow> net_packet" where
  "nat_pad packet = packet\<lparr>pkt_data := pkt_data packet @ replicate 22 0\<rparr>"

definition nat_request :: net_packet where
  "nat_request = nat_pad example_request"

text \<open>The reply to the translated request: from \<open>20.0.0.2\<close> and its port, to 99 and port 1000.\<close>

definition nat_reply :: net_packet where
  "nat_reply = nat_pad (example_udp 1 6 [20, 0, 0, 2, 99, 0, 0, 0, 2, 0, 232, 3])"

lemma nat_example_packets:
  "nat_fits nat_request" "nat_fits nat_reply" "is_tcpudp nat_request" "is_tcpudp nat_reply"
  "pkt_time nat_request = 5" "pkt_time nat_reply = 6" "pkt_device nat_request = 0" "pkt_device nat_reply = 1"
  "dst_ip (packet_flow nat_request) = src_ip (packet_flow nat_reply)"
  by code_simp+

text \<open>
  The NAT handles every packet whose headers lie in the buffer without an access out of
  bounds and keeps its flow table well-formed; it drops the packet or sends it once, to the
  other one of the two devices.
\<close>

theorem nat_handle_total:
  assumes "nat_table_ok n (nat_the_table st)" "nat_fits packet" "pkt_time packet \<noteq> TIME_MAX"
  shows "\<exists>st' packet' out. nat_nf_handle st packet = Some (st', packet', out)
    \<and> nat_table_ok n (nat_the_table st') \<and> out \<in> {[], [Net_Transmit (1 - pkt_device packet) UPDATE_ETHER_ADDRS]}"
  using assms by (rule nat_handle_result)

theorem nat_handle_total_witness:
  "\<exists>st' packet' out. nat_nf_handle nat_example nat_request = Some (st', packet', out)
    \<and> nat_table_ok 2 (nat_the_table st') \<and> out \<in> {[], [Net_Transmit (1 - pkt_device nat_request) UPDATE_ETHER_ADDRS]}"
  by (rule nat_handle_total [OF nat_example_ok(1) nat_example_packets(1)]) (simp add: nat_example_packets TIME_MAX_def)

text \<open>
  C26: A packet from the inside goes out with the NAT's address and the port of its flow's table
  entry as its source, its destination and protocol unchanged; it is only dropped if the table
  does not hold its flow and is full of flows that have not expired.
\<close>

theorem nat_outbound:
  assumes "nat_table_ok n (nat_the_table st)" "nat_fits packet" "pkt_time packet \<noteq> TIME_MAX"
    "is_tcpudp packet" "pkt_device packet \<noteq> nat_wan_device st"
  shows "\<exists>st' packet' out. nat_nf_handle st packet = Some (st', packet', out)
    \<and> (if out = [] then nat_full n (nat_the_table st) (pkt_time packet) \<and> packet' = packet \<and> st' = st
         \<and> (\<forall>i t. \<not> nat_maps (nat_the_table st) (packet_flow packet) i t)
       else (\<exists>i. nat_maps (nat_the_table st') (packet_flow packet) i (pkt_time packet)
         \<and> packet_flow packet' = (packet_flow packet)\<lparr>src_ip := nat_external_addr st,
              src_port := nat_start_port (nat_the_table st) + ucast i\<rparr>))"
  using assms
proof (cases rule: nat_handle_internal)
  case (out table' packet' i)
  have "nat_maps table' (packet_flow packet) i (pkt_time packet)" using out(4) by simp
  with out(1,6) show ?thesis by auto
next
  case dropped
  then show ?thesis by auto
qed

theorem nat_outbound_witness:
  "\<exists>st' packet' i. nat_nf_handle nat_example nat_request = Some (st', packet', [Net_Transmit 1 UPDATE_ETHER_ADDRS])
    \<and> nat_maps (nat_the_table st') (packet_flow nat_request) i 5
    \<and> src_ip (packet_flow packet') = 99 \<and> src_port (packet_flow packet') = 1000 + ucast i"
proof -
  have "(case nat_nf_handle nat_example nat_request of None \<Rightarrow> False
    | Some (st, p, out) \<Rightarrow> out = [Net_Transmit 1 UPDATE_ETHER_ADDRS])" by code_simp
  moreover have "nat_external_addr nat_example = 99" by (simp add: nat_example_def)
  ultimately show ?thesis
    using nat_outbound [OF nat_example_ok(1) nat_example_packets(1) _ nat_example_packets(3)]
    by (force simp: nat_example_packets nat_example_ok TIME_MAX_def split: option.splits if_splits)
qed
text \<open>
  C27: A packet from the outside is forwarded exactly if its destination port stands for a flow of
  the table that has not expired, and the packet comes from that flow's peer (no spoofing).
\<close>

theorem nat_inbound_policy:
  assumes "nat_table_ok n (nat_the_table st)" "nat_fits packet" "pkt_time packet \<noteq> TIME_MAX"
    "is_tcpudp packet" "pkt_device packet = nat_wan_device st"
    and "nat_nf_handle st packet = Some (st', packet', out)"
  shows "out \<noteq> [] \<longleftrightarrow> (\<exists>f t. nat_maps (nat_the_table st) f
      (ucast (dst_port (packet_flow packet) - nat_start_port (nat_the_table st))) t
    \<and> pool_young (pkt_time packet) (nat_expiration (nat_the_table st)) t
    \<and> dst_ip f = src_ip (packet_flow packet) \<and> dst_port f = src_port (packet_flow packet)
    \<and> protocol f = protocol (packet_flow packet))"
  using assms(1-5)
proof (cases rule: nat_handle_external)
  case (known table' p flow t o1)
  have only: "nat_maps (nat_the_table st) f (nat_index (nat_the_table st) (dst_port (packet_flow packet))) t'
    \<Longrightarrow> f = flow" for f t'
    using nat_maps_fun [OF known(4)] by blast
  have "out \<noteq> [] \<longleftrightarrow> nat_from_peer flow (packet_flow packet)"
    using known(1,6) assms(6) by (auto split: if_splits)
  then show ?thesis
    using known(4,5) only unfolding nat_index_def nat_from_peer_def by blast
next
  case unknown
  then show ?thesis using assms(6) by (auto simp: nat_index_def)
qed

theorem nat_inbound_policy_witness:
  "(\<exists>f t. nat_maps (nat_the_table nat_example) f
      (ucast (dst_port (packet_flow nat_reply) - nat_start_port (nat_the_table nat_example))) t) = False
   \<and> nat_nf_handle nat_example nat_reply = Some (nat_example, nat_reply, [])"
proof -
  have "nat_nf_handle nat_example nat_reply = Some (nat_example, nat_reply, [])" by code_simp
  with nat_inbound_policy [OF nat_example_ok(1) nat_example_packets(2) _ nat_example_packets(4) _ this]
  show ?thesis by (simp add: nat_example_packets nat_example_ok TIME_MAX_def)
qed


lemma nat_request_out:
  "\<exists>st1 q'. nat_nf_handle nat_example nat_request = Some (st1, q', [Net_Transmit 1 UPDATE_ETHER_ADDRS])
    \<and> packet_flow nat_reply = flow_inverse (packet_flow q')"
proof -
  have "(case nat_nf_handle nat_example nat_request of None \<Rightarrow> False
    | Some (st, p, out) \<Rightarrow> out = [Net_Transmit 1 UPDATE_ETHER_ADDRS]
        \<and> packet_flow nat_reply = flow_inverse (packet_flow p))" by code_simp
  then show ?thesis by (auto split: option.splits)
qed

text \<open>
  A first reply at 700, a packet of another flow at 900, and a second reply at 1500, which is late
  for the request but not for the first reply.
\<close>

definition nat_example_traffic :: "net_packet list" where
  "nat_example_traffic = [nat_reply\<lparr>pkt_time := 700\<rparr>,
     nat_pad (example_udp 0 900 [10, 0, 0, 9, 20, 0, 0, 2, 1, 0, 2, 0])]"

definition nat_late_reply :: net_packet where
  "nat_late_reply = nat_reply\<lparr>pkt_time := 1500\<rparr>"

lemma nat_example_traffic_facts:
  "\<forall>q \<in> set nat_example_traffic. nat_fits q \<and> pkt_time q \<noteq> TIME_MAX"
  "nat_fits nat_late_reply" "is_tcpudp nat_late_reply" "pkt_time nat_late_reply = 1500" "pkt_device nat_late_reply = 1"
  "packet_flow nat_late_reply = packet_flow nat_reply" "src_port (flow_inverse (packet_flow nat_reply)) = 1000"
  "kept_alive (nat_uses 1 (packet_flow nat_request) 1000) 1000 5 (nat_example_traffic @ [nat_late_reply])"
  by code_simp+


text \<open>A packet from outside that is dropped as spoofed refreshes the entry all the same.\<close>

lemma nat_spoofed_refreshes:
  "\<exists>st1 q' st2. nat_nf_handle nat_example nat_request = Some (st1, q', [Net_Transmit 1 UPDATE_ETHER_ADDRS])
    \<and> nat_nf_handle st1 (nat_pad (example_udp 1 700 [66, 0, 0, 6, 99, 0, 0, 0, 2, 0, 232, 3]))
      = Some (st2, nat_pad (example_udp 1 700 [66, 0, 0, 6, 99, 0, 0, 0, 2, 0, 232, 3]), [])
    \<and> nat_maps (nat_the_table st2) (packet_flow nat_request) 0 700"
proof -
  have "(case nat_nf_handle nat_example nat_request of None \<Rightarrow> False
    | Some (st1, q', out1) \<Rightarrow> out1 = [Net_Transmit 1 UPDATE_ETHER_ADDRS]
        \<and> (case nat_nf_handle st1 (nat_pad (example_udp 1 700 [66, 0, 0, 6, 99, 0, 0, 0, 2, 0, 232, 3])) of None \<Rightarrow> False
          | Some (st2, p, out) \<Rightarrow> p = nat_pad (example_udp 1 700 [66, 0, 0, 6, 99, 0, 0, 0, 2, 0, 232, 3]) \<and> out = []
              \<and> nat_maps (nat_the_table st2) (packet_flow nat_request) 0 700))" by code_simp
  then show ?thesis by (auto split: option.splits prod.splits)
qed

text \<open>
  What an inbound packet looks like when it is sent inside. Its destination is the internal
  one, but its source address is not the peer's any more: the update meant for the checksum of
  the IPv4 header goes to byte 12 of that header, which is \<open>src_addr\<close>, and the checksum at byte
  10 keeps its old value.
\<close>

theorem nat_inbound_rewrite:
  assumes "nat_table_ok n (nat_the_table st)" "nat_fits packet" "pkt_time packet \<noteq> TIME_MAX"
    "is_tcpudp packet" "pkt_device packet = nat_wan_device st"
    and "nat_nf_handle st packet = Some (st', packet', out)" "out \<noteq> []"
  shows "\<exists>f i t. nat_maps (nat_the_table st) f i t \<and> packet_flow packet' = (packet_flow packet)
      \<lparr>src_ip := nat_clobbered (src_ip (packet_flow packet)) (dst_ip (packet_flow packet)) (src_ip f),
       dst_ip := src_ip f, dst_port := src_port f\<rparr>
    \<and> rd_bytes (pkt_data packet') (14 + 10) 2 = rd_bytes (pkt_data packet) (14 + 10) 2"
  using assms(1-5)
proof (cases rule: nat_handle_external)
  case (known table' p flow t o1)
  have eqs: "packet' = p" "out = o1" using known(1) assms(6) by simp_all
  have peer: "nat_from_peer flow (packet_flow packet)" using known(6) assms(7) eqs by (auto split: if_splits)
  then have pf: "packet_flow packet' = (packet_flow packet)
      \<lparr>src_ip := nat_clobbered (src_ip (packet_flow packet)) (dst_ip (packet_flow packet)) (src_ip flow),
       dst_ip := src_ip flow, dst_port := src_port flow\<rparr>"
    and c: "take 2 (drop 24 (pkt_data packet')) = take 2 (drop 24 (pkt_data packet))"
    using known(6) eqs by simp_all
  have len: "26 \<le> length (pkt_data packet)" using assms(2) by (simp add: nat_fits_def)
  then have "length (take 2 (drop 24 (pkt_data packet'))) = 2" unfolding c by simp
  then have "26 \<le> length (pkt_data packet')" by simp
  with c len have "rd_bytes (pkt_data packet') 24 2 = rd_bytes (pkt_data packet) 24 2"
    by (simp add: rd_bytes_in)
  with known(4) pf show ?thesis by auto
next
  case unknown
  then show ?thesis using assms(6,7) by simp
qed

theorem nat_inbound_rewrite_witness:
  "\<exists>st1 q' st2 p'. nat_nf_handle nat_example nat_request = Some (st1, q', [Net_Transmit 1 UPDATE_ETHER_ADDRS])
    \<and> nat_nf_handle st1 nat_reply = Some (st2, p', [Net_Transmit 0 UPDATE_ETHER_ADDRS])
    \<and> src_ip (packet_flow p') \<noteq> src_ip (packet_flow nat_reply)"
proof -
  have run: "(case nat_nf_handle nat_example nat_request of None \<Rightarrow> False
    | Some (st1, q', out1) \<Rightarrow> out1 = [Net_Transmit 1 UPDATE_ETHER_ADDRS] \<and>
      (case nat_nf_handle st1 nat_reply of None \<Rightarrow> False
       | Some (st2, p', out2) \<Rightarrow> out2 = [Net_Transmit 0 UPDATE_ETHER_ADDRS] \<and> nat_wan_device st1 = 1
           \<and> dst_ip (packet_flow p') = 0x0100000A))" by code_simp
  then obtain st1 q' st2 p' where a: "nat_nf_handle nat_example nat_request = Some (st1, q', [Net_Transmit 1 UPDATE_ETHER_ADDRS])"
    "nat_nf_handle st1 nat_reply = Some (st2, p', [Net_Transmit 0 UPDATE_ETHER_ADDRS])" "nat_wan_device st1 = 1"
    "dst_ip (packet_flow p') = 0x0100000A"
    by (auto split: option.splits)
  have "nat_table_ok 2 (nat_the_table st1)"
    using nat_handle_result [OF nat_example_ok(1) nat_example_packets(1)] a(1)
    by (auto simp: nat_example_packets TIME_MAX_def)
  from nat_inbound_rewrite [OF this nat_example_packets(2) _ nat_example_packets(4) _ a(2)] a(3)
  obtain f :: flow where "packet_flow p' = (packet_flow nat_reply)
      \<lparr>src_ip := nat_clobbered (src_ip (packet_flow nat_reply)) (dst_ip (packet_flow nat_reply)) (src_ip f),
       dst_ip := src_ip f, dst_port := src_port f\<rparr>"
    by (auto simp: nat_example_packets TIME_MAX_def)
  moreover from this have "src_ip f = 0x0100000A" using a(4) by simp
  moreover have "nat_clobbered (src_ip (packet_flow nat_reply)) (dst_ip (packet_flow nat_reply)) 0x0100000A
    \<noteq> src_ip (packet_flow nat_reply)" by code_simp
  ultimately show ?thesis using a(1,2) by auto
qed

end
