(* ===== verification/Nf_Policer.thy ===== *)
theory Nf_Policer
  imports Net_Flow Os_Config
begin

text \<open>
  The policer: \<open>nf/policer/policer.c\<close>. Packets that leave towards the WAN pass; packets from the
  WAN pass as far as the token bucket of their destination address allows.
\<close>

section \<open>The model\<close>

record policer_bucket =
  pb_size :: u64
  pb_time :: time_t

record policer =
  pol_wan_device :: device_t
  pol_rate :: u64
  pol_burst :: u64
  pol_buckets :: "policer_bucket list"
  pol_addresses_addr :: addr
  pol_addresses :: "u32 list"
  pol_map :: cmap
  pol_pool :: index_pool

definition pol_nf_init :: "config \<Rightarrow> os_mem \<Rightarrow> device_t \<Rightarrow> (policer \<times> os_mem) option option" where
  "pol_nf_init cfg om devices_count =
     (if devices_count \<noteq> 2 then Some None
      else do {
        dev \<leftarrow> os_config_get_device cfg ''wan device'' devices_count;
        case dev of None \<Rightarrow> Some None | Some wan_device \<Rightarrow> do {
        r \<leftarrow> os_config_get_u64 cfg ''rate'';
        case r of None \<Rightarrow> Some None | Some rate \<Rightarrow> do {
        b \<leftarrow> os_config_get_u64 cfg ''burst'';
        case b of None \<Rightarrow> Some None | Some burst \<Rightarrow> do {
        m \<leftarrow> os_config_get_size cfg ''max flows'';
        case m of None \<Rightarrow> Some None | Some max_flows \<Rightarrow>
          if rate = 0 \<or> burst = 0 then Some None
          else do {
            (buckets, om) \<leftarrow> os_memory_alloc om max_flows 16;
            (addresses, om) \<leftarrow> os_memory_alloc om max_flows 4;
            (m, om) \<leftarrow> map_alloc om 4 max_flows;
            (pool, om) \<leftarrow> index_pool_alloc om max_flows (1000000000 * burst div rate);
            Some (Some (\<lparr>pol_wan_device = wan_device, pol_rate = rate, pol_burst = burst,
              pol_buckets = replicate (unat max_flows) \<lparr>pb_size = 0, pb_time = 0\<rparr>,
              pol_addresses_addr = addresses, pol_addresses = replicate (unat max_flows) 0,
              pol_map = m, pol_pool = pool\<rparr>, om)) } } } } })"

text \<open>The tokens after the time since the last packet; \<open>burst / rate\<close> needs a rate other than 0.\<close>

definition pol_refill :: "u64 \<Rightarrow> u64 \<Rightarrow> u64 \<Rightarrow> time_t \<Rightarrow> u64 option" where
  "pol_refill rate burst sz time_diff =
     (if rate = 0 then None
      else if time_diff < burst div rate
      then (let sz = sz + time_diff * rate in Some (if sz > burst then burst else sz))
      else Some burst)"

text \<open>The two branches for a packet from the WAN; the result says whether the packet passes.\<close>

definition pol_known :: "policer \<Rightarrow> net_packet \<Rightarrow> size_t \<Rightarrow> (policer \<times> bool) option" where
  "pol_known st packet index = do {
     pool \<leftarrow> index_pool_refresh (pol_pool st) (pkt_time packet) index;
     b \<leftarrow> arr_get (pol_buckets st) index;
     let time_diff = pkt_time packet - pb_time b;
     sz \<leftarrow> pol_refill (pol_rate st) (pol_burst st) (pb_size b) time_diff;
     let pass = sz > pkt_length packet;
     buckets \<leftarrow> arr_set (pol_buckets st) index
       \<lparr>pb_size = (if pass then sz - pkt_length packet else sz), pb_time = pkt_time packet\<rparr>;
     Some (st\<lparr>pol_pool := pool, pol_buckets := buckets\<rparr>, pass) }"

definition pol_unknown :: "policer \<Rightarrow> net_packet \<Rightarrow> u32 \<Rightarrow> (policer \<times> bool) option" where
  "pol_unknown st packet dst =
     (if pkt_length packet > pol_burst st then Some (st, False)
      else do {
        (pool, b) \<leftarrow> index_pool_borrow (pol_pool st) (pkt_time packet);
        case b of
          None \<Rightarrow> Some (st\<lparr>pol_pool := pool\<rparr>, False)
        | Some (index, was_used) \<Rightarrow> do {
            old \<leftarrow> arr_get (pol_addresses st) index;
            m \<leftarrow> (if was_used
              then map_remove (key_mem (le_bytes 4) (pol_addresses_addr st) (pol_addresses st)) (pol_map st)
                (le_bytes 4 old)
              else Some (pol_map st));
            addresses \<leftarrow> arr_set (pol_addresses st) index dst;
            m \<leftarrow> map_set (key_mem (le_bytes 4) (pol_addresses_addr st) addresses) m
              (pol_addresses_addr st + 4 * unat index) index;
            buckets \<leftarrow> arr_set (pol_buckets st) index
              \<lparr>pb_size = pol_burst st - pkt_length packet, pb_time = pkt_time packet\<rparr>;
            Some (st\<lparr>pol_pool := pool, pol_addresses := addresses, pol_map := m, pol_buckets := buckets\<rparr>, True) } })"

definition pol_nf_handle :: "policer \<Rightarrow> net_packet \<Rightarrow> (policer \<times> net_packet \<times> tx list) option" where
  "pol_nf_handle st packet = do {
     let d = pkt_data packet;
     (ok1, ether_header) \<leftarrow> net_get_ether_header packet;
     if \<not> ok1 then Some (st, packet, []) else do {
     (ok2, ipv4_header) \<leftarrow> net_get_ipv4_header d ether_header;
     if \<not> ok2 then Some (st, packet, [])
     else if pkt_device packet = pol_wan_device st then do {
       dst \<leftarrow> ip_dst_addr d ipv4_header;
       r \<leftarrow> map_get (key_mem (le_bytes 4) (pol_addresses_addr st) (pol_addresses st)) (pol_map st) (le_bytes 4 dst);
       (st, pass) \<leftarrow> (case r of Some index \<Rightarrow> pol_known st packet index | None \<Rightarrow> pol_unknown st packet dst);
       Some (st, packet, if pass then [Net_Transmit (1 - pkt_device packet) NONE] else []) }
     else Some (st, packet, [Net_Transmit (1 - pkt_device packet) NONE]) } }"

section \<open>The buckets\<close>

definition pol_expiration :: "policer \<Rightarrow> time_t" where
  "pol_expiration st = ip_expiration_time (pol_pool st)"

text \<open>The address has a bucket with \<open>s\<close> tokens, last refilled at \<open>t\<close>.\<close>

definition pol_has :: "policer \<Rightarrow> u32 \<Rightarrow> u64 \<Rightarrow> time_t \<Rightarrow> bool" where
  "pol_has st a s t \<longleftrightarrow>
     (\<exists>i. table_maps (pol_addresses st) (pol_pool st) a i t \<and> pb_size (pol_buckets st ! unat i) = s)"

text \<open>
  The invariant: a well-formed table, and for every entry in use a bucket with at most
  \<open>burst\<close> tokens, whose time is that of the last use.
\<close>

definition pol_ok :: "size_t \<Rightarrow> policer \<Rightarrow> bool" where
  "pol_ok n st \<longleftrightarrow>
     table_ok (le_bytes 4) 4 n (pol_addresses_addr st) (pol_addresses st) (pol_map st) (pol_pool st)
   \<and> length (pol_buckets st) = unat n \<and> pol_rate st \<noteq> 0
   \<and> (\<forall>a i t. table_maps (pol_addresses st) (pol_pool st) a i t \<longrightarrow>
        pb_size (pol_buckets st ! unat i) \<le> pol_burst st \<and> pb_time (pol_buckets st ! unat i) = t)"

definition pol_same_config :: "policer \<Rightarrow> policer \<Rightarrow> bool" where
  "pol_same_config st st' \<longleftrightarrow> pol_rate st' = pol_rate st \<and> pol_burst st' = pol_burst st
     \<and> pol_wan_device st' = pol_wan_device st \<and> pol_expiration st' = pol_expiration st"

definition pol_full :: "size_t \<Rightarrow> policer \<Rightarrow> time_t \<Rightarrow> bool" where
  "pol_full n st now \<longleftrightarrow> (\<forall>i < n. \<exists>a t. table_maps (pol_addresses st) (pol_pool st) a i t
     \<and> pool_young now (pol_expiration st) t)"

lemma pol_has_bound: "pol_ok n st \<Longrightarrow> pol_has st a s t \<Longrightarrow> s \<le> pol_burst st"
  unfolding pol_ok_def pol_has_def by blast

lemma pol_has_unique:
  assumes "pol_ok n st" "pol_has st a s t" "pol_has st a s' t'"
  shows "s' = s \<and> t' = t"
proof -
  have ok: "table_ok (le_bytes 4) 4 n (pol_addresses_addr st) (pol_addresses st) (pol_map st) (pol_pool st)"
    using assms(1) by (simp add: pol_ok_def)
  obtain i j where ij: "table_maps (pol_addresses st) (pol_pool st) a i t" "pb_size (pol_buckets st ! unat i) = s"
    "table_maps (pol_addresses st) (pol_pool st) a j t'" "pb_size (pol_buckets st ! unat j) = s'"
    using assms(2,3) unfolding pol_has_def by blast
  have "i = j" by (rule table_maps_unique [OF ok ij(1,3)])
  with ij show ?thesis using table_maps_fun [OF ij(1)] by blast
qed

text \<open>
  Refilling never exceeds the burst. It fills the bucket in \<open>burst div rate\<close> units of time, which is
  rounded down: in effect it adds at most \<open>burst / (burst div rate)\<close> tokens per unit of time.
\<close>

lemma pol_refill_total: "rate \<noteq> 0 \<Longrightarrow> \<exists>s'. pol_refill rate burst s d = Some s' \<and> s' \<le> burst"
  by (auto simp: pol_refill_def Let_def not_less)

lemma unat_add_le: "unat (x + y) \<le> unat x + unat y" for x y :: "'a::len word"
  by (simp add: unat_word_ariths)

lemma unat_mult_le: "unat (x * y) \<le> unat x * unat y" for x y :: "'a::len word"
  by (simp add: unat_word_ariths)

lemma pol_refill_rate:
  assumes "pol_refill rate burst s d = Some s'" "s \<le> burst"
  shows "unat (burst div rate) * unat s' \<le> unat (burst div rate) * unat s + unat burst * unat d"
proof -
  let ?k = "unat (burst div rate)"
  have kr: "?k * unat rate \<le> unat burst" by (simp add: unat_div)
  show ?thesis
  proof (cases "d < burst div rate")
    case True
    then have "unat s' \<le> unat (s + d * rate)"
      using assms(1) by (auto simp: pol_refill_def Let_def word_le_nat_alt word_less_nat_alt split: if_splits)
    also have "\<dots> \<le> unat s + unat (d * rate)" by (rule unat_add_le)
    also have "\<dots> \<le> unat s + unat d * unat rate" using unat_mult_le [of d rate] by simp
    finally have "?k * unat s' \<le> ?k * (unat s + unat d * unat rate)" by (rule mult_le_mono2)
    also have "\<dots> = ?k * unat s + (?k * unat rate) * unat d" by (simp add: algebra_simps)
    also have "\<dots> \<le> ?k * unat s + unat burst * unat d" using mult_le_mono1 [OF kr] by simp
    finally show ?thesis .
  next
    case False
    have "s' = burst" using False assms(1) by (auto simp: pol_refill_def split: if_splits)
    have "?k \<le> unat d" using False by (simp add: not_less word_le_nat_alt)
    then have "unat burst * ?k \<le> unat burst * unat d" by (rule mult_le_mono2)
    then show ?thesis unfolding \<open>s' = burst\<close> by (simp only: mult.commute [of ?k "unat burst"] trans_le_add2)
  qed
qed

text \<open>The size that the refill gives, written out.\<close>

lemma pol_refill_tokens:
  "pol_refill rate burst s d = Some s' \<Longrightarrow> s' = (if d < burst div rate then min burst (s + d * rate) else burst)"
  by (auto simp: pol_refill_def Let_def min_def split: if_splits)

text \<open>
  The rounding makes a bucket fill up early when the rate does not divide the burst, and at once
  when the rate is above the burst.
\<close>

lemma pol_refill_early: "pol_refill 3 5 0 1 = Some 5" "pol_refill 6 5 0 0 = Some 5"
  by (simp_all add: pol_refill_def)

text \<open>The expiration that the shipped configuration gives: the product is computed in 64 bits.\<close>

lemma pol_expiration_shipped:
  "1000000000 * 1000000000000000 div (1000000000000000 :: u64) = 2003"
  by simp

text \<open>A packet for an address with a bucket.\<close>

lemma pol_known_correct:
  assumes ok: "pol_ok n st" and i: "table_maps (pol_addresses st) (pol_pool st) a i t0"
    and t: "pkt_time packet \<noteq> TIME_MAX" and s0: "pb_size (pol_buckets st ! unat i) = s0"
  obtains st' s where "pol_refill (pol_rate st) (pol_burst st) s0 (pkt_time packet - t0) = Some s"
    "pol_known st packet i = Some (st', pkt_length packet < s)" "pol_ok n st'" "pol_same_config st st'"
    "\<And>b s' t'. pol_has st' b s' t' \<longleftrightarrow> (if b = a
      then s' = (if pkt_length packet < s then s - pkt_length packet else s) \<and> t' = pkt_time packet
      else pol_has st b s' t')"
proof -
  have tok: "table_ok (le_bytes 4) 4 n (pol_addresses_addr st) (pol_addresses st) (pol_map st) (pol_pool st)"
    and len: "length (pol_buckets st) = unat n" and rate: "pol_rate st \<noteq> 0"
    and buckets: "\<And>a i t. table_maps (pol_addresses st) (pol_pool st) a i t \<Longrightarrow>
      pb_size (pol_buckets st ! unat i) \<le> pol_burst st \<and> pb_time (pol_buckets st ! unat i) = t"
    using ok by (auto simp: pol_ok_def)
  have lt: "unat i < length (pol_buckets st)"
    using table_maps_bound [OF tok i] by (simp add: len word_less_nat_alt)
  obtain s where s: "pol_refill (pol_rate st) (pol_burst st) s0 (pkt_time packet - t0) = Some s" "s \<le> pol_burst st"
    using pol_refill_total [OF rate] by blast
  define nb where "nb = \<lparr>pb_size = (if pkt_length packet < s then s - pkt_length packet else s), pb_time = pkt_time packet\<rparr>"
  from tok i t show ?thesis
  proof (rule u32_keys.ok_refresh)
    fix pool' assume p: "index_pool_refresh (pol_pool st) (pkt_time packet) i = Some pool'"
      "table_ok (le_bytes 4) 4 n (pol_addresses_addr st) (pol_addresses st) (pol_map st) pool'"
      "ip_expiration_time pool' = ip_expiration_time (pol_pool st)"
      "\<And>key' j t. table_maps (pol_addresses st) pool' key' j t \<longleftrightarrow>
        (if j = i then key' = a \<and> t = pkt_time packet else table_maps (pol_addresses st) (pol_pool st) key' j t)"
    let ?st' = "st\<lparr>pol_pool := pool', pol_buckets := (pol_buckets st)[unat i := nb]\<rparr>"
    have run: "pol_known st packet i = Some (?st', pkt_length packet < s)"
      using p(1) lt s(1) buckets [OF i] s0 by (simp add: pol_known_def nb_def)
    have nth: "(pol_buckets st)[unat i := nb] ! unat j = (if j = i then nb else pol_buckets st ! unat j)" for j
      using lt by (simp add: nth_list_update word_unat_eq_iff)
    have le: "pb_size nb \<le> pol_burst st" by (auto simp: nb_def s(2) intro: order_trans [OF word_sub_le s(2)])
    have nbt: "pb_time nb = pkt_time packet" by (simp add: nb_def)
    have ok': "pol_ok n ?st'" using p(2) len rate le buckets nbt by (simp add: pol_ok_def p(4) nth)
    have has: "pol_has ?st' b s' t' \<longleftrightarrow> (if b = a then s' = pb_size nb \<and> t' = pkt_time packet else pol_has st b s' t')"
      for b s' t'
    proof (cases "b = a")
      case True
      have "table_maps (pol_addresses st) pool' a j t' \<longleftrightarrow> j = i \<and> t' = pkt_time packet" for j
        using p(4) [of a j t'] table_maps_unique [OF tok i, of j t'] by (cases "j = i") auto
      then show ?thesis using True by (auto simp: pol_has_def nth)
    next
      case False
      have "table_maps (pol_addresses st) pool' b j t' \<longleftrightarrow> j \<noteq> i \<and> table_maps (pol_addresses st) (pol_pool st) b j t'" for j
        using p(4) [of b j t'] False table_maps_fun [OF i, of b t'] by (cases "j = i") auto
      moreover have "j \<noteq> i" if "table_maps (pol_addresses st) (pol_pool st) b j t'" for j
        using that False table_maps_fun [OF i, of b t'] by auto
      ultimately show ?thesis using False by (auto simp: pol_has_def nth)
    qed
    show ?thesis
      by (rule that [OF s(1) run ok']) (simp_all add: pol_same_config_def pol_expiration_def p(3) has, simp add: nb_def)
  qed
qed

text \<open>A packet for an address without a bucket.\<close>

lemma pol_unknown_correct:
  assumes ok: "pol_ok n st" and fresh: "\<And>i t. \<not> table_maps (pol_addresses st) (pol_pool st) a i t"
    and t: "pkt_time packet \<noteq> TIME_MAX"
  obtains (small) st' where "pkt_length packet \<le> pol_burst st" "\<not> pol_full n st (pkt_time packet)" "pol_unknown st packet a = Some (st', True)"
      "pol_ok n st'" "pol_same_config st st'"
      "\<And>s' t'. pol_has st' a s' t' \<longleftrightarrow> s' = pol_burst st - pkt_length packet \<and> t' = pkt_time packet"
      "\<And>b s' t'. b \<noteq> a \<Longrightarrow> pol_has st' b s' t' \<Longrightarrow> pol_has st b s' t'"
      "\<And>b s' t'. b \<noteq> a \<Longrightarrow> pol_has st b s' t' \<Longrightarrow> pol_has st' b s' t'
        \<or> (\<not> pool_young (pkt_time packet) (pol_expiration st) t' \<and> (\<forall>s t. \<not> pol_has st' b s t))"
  | (dropped) "pol_unknown st packet a = Some (st, False)"
      "pol_burst st < pkt_length packet \<or> pol_full n st (pkt_time packet)"
proof -
  have tok: "table_ok (le_bytes 4) 4 n (pol_addresses_addr st) (pol_addresses st) (pol_map st) (pol_pool st)"
    and len: "length (pol_buckets st) = unat n" and rate: "pol_rate st \<noteq> 0"
    and buckets: "\<And>a i t. table_maps (pol_addresses st) (pol_pool st) a i t \<Longrightarrow>
      pb_size (pol_buckets st ! unat i) \<le> pol_burst st \<and> pb_time (pol_buckets st ! unat i) = t"
    using ok by (auto simp: pol_ok_def)
  have alen: "length (pol_addresses st) = unat n" by (rule table_ok_length [OF tok])
  show ?thesis
  proof (cases "pol_burst st < pkt_length packet")
    case True
    show ?thesis by (rule dropped) (simp_all add: pol_unknown_def True)
  next
    case False
    show ?thesis
      using tok fresh t
    proof (cases rule: u32_keys.ok_learn)
      case (learned pool' i was_used m1 m2)
      define nb where "nb = \<lparr>pb_size = pol_burst st - pkt_length packet, pb_time = pkt_time packet\<rparr>"
      let ?st' = "st\<lparr>pol_pool := pool', pol_addresses := (pol_addresses st)[unat i := a], pol_map := m2,
        pol_buckets := (pol_buckets st)[unat i := nb]\<rparr>"
      have lt: "unat i < length (pol_buckets st)" using learned(2) by (simp add: len alen)
      have run: "pol_unknown st packet a = Some (?st', True)"
        using learned(1,2,5,6) lt False by (simp add: pol_unknown_def nb_def)
      have nth: "(pol_buckets st)[unat i := nb] ! unat j = (if j = i then nb else pol_buckets st ! unat j)" for j
        using lt by (simp add: nth_list_update word_unat_eq_iff)
      have le: "pb_size nb \<le> pol_burst st" using False by (simp add: nb_def word_sub_le not_less)
      have nbt: "pb_time nb = pkt_time packet" by (simp add: nb_def)
      have ok': "pol_ok n ?st'"
        using learned(7) len rate le buckets nbt by (simp add: pol_ok_def learned(9) nth)
      have has_a: "pol_has ?st' a s' t' \<longleftrightarrow> s' = pb_size nb \<and> t' = pkt_time packet" for s' t'
        using fresh by (auto simp: pol_has_def learned(9) nth)
      have has_b: "pol_has ?st' b s' t' \<longleftrightarrow>
        (\<exists>j. j \<noteq> i \<and> table_maps (pol_addresses st) (pol_pool st) b j t' \<and> pb_size (pol_buckets st ! unat j) = s')"
        if "b \<noteq> a" for b s' t'
        using that by (auto simp: pol_has_def learned(9) nth)
      show ?thesis
      proof (rule small [OF _ _ run ok'])
        have "i < n" using learned(2) by (simp add: alen word_less_nat_alt)
        then show "\<not> pol_full n st (pkt_time packet)"
          using learned(4) unfolding pol_full_def pol_expiration_def by blast
        show "pkt_length packet \<le> pol_burst st" using False by simp
        show "pol_same_config st ?st'" by (simp add: pol_same_config_def pol_expiration_def learned(8))
        show "pol_has ?st' a s' t' \<longleftrightarrow> s' = pol_burst st - pkt_length packet \<and> t' = pkt_time packet" for s' t'
          using has_a by (simp add: nb_def)
        show "pol_has st b s' t'" if "b \<noteq> a" "pol_has ?st' b s' t'" for b s' t'
          using that(2) unfolding has_b [OF that(1)] unfolding pol_has_def by blast
        show "pol_has ?st' b s' t' \<or> (\<not> pool_young (pkt_time packet) (pol_expiration st) t'
            \<and> (\<forall>s t. \<not> pol_has ?st' b s t))" if ba: "b \<noteq> a" and h: "pol_has st b s' t'" for b s' t'
        proof -
          obtain j where j: "table_maps (pol_addresses st) (pol_pool st) b j t'" "pb_size (pol_buckets st ! unat j) = s'"
            using h unfolding pol_has_def by blast
          show ?thesis
          proof (cases "j = i")
            case True
            have "j' = i" if "table_maps (pol_addresses st) (pol_pool st) b j' t" for j' t
              using table_maps_unique [OF tok j(1) that] True by simp
            then have "\<not> pol_has ?st' b s t" for s t unfolding has_b [OF ba] by blast
            moreover have "\<not> pool_young (pkt_time packet) (pol_expiration st) t'"
              using learned(4) j(1) True unfolding pol_expiration_def by blast
            ultimately show ?thesis by blast
          next
            case False
            then have "pol_has ?st' b s' t'" unfolding has_b [OF ba] using j by blast
            then show ?thesis ..
          qed
        qed
      qed
    next
      case full
      have "pol_unknown st packet a = Some (st, False)" using full(1) False by (simp add: pol_unknown_def)
      moreover have "pol_full n st (pkt_time packet)" using full(2) by (simp add: pol_full_def pol_expiration_def)
      ultimately show ?thesis by (intro dropped) simp_all
    qed
  qed
qed
section \<open>The packet handler\<close>

text \<open>The packets that the policer counts: those from the WAN, by destination address.\<close>

definition pol_policed :: "policer \<Rightarrow> net_packet \<Rightarrow> bool" where
  "pol_policed st packet \<longleftrightarrow> is_ipv4 packet \<and> pkt_device packet = pol_wan_device st"

definition pol_dst :: "net_packet \<Rightarrow> u32" where
  "pol_dst packet = dst_ip (packet_flow packet)"

abbreviation pol_forward :: "net_packet \<Rightarrow> tx list" where
  "pol_forward packet \<equiv> [Net_Transmit (1 - pkt_device packet) NONE]"

lemma pol_handle_other:
  "headers_fit packet \<Longrightarrow> \<not> pol_policed st packet \<Longrightarrow>
   pol_nf_handle st packet = Some (st, packet, if is_ipv4 packet then pol_forward packet else [])"
  by (auto simp: pol_nf_handle_def Let_def header_reads pol_policed_def)

lemma pol_handle_wan:
  "headers_fit packet \<Longrightarrow> pol_policed st packet \<Longrightarrow>
   map_get (key_mem (le_bytes 4) (pol_addresses_addr st) (pol_addresses st)) (pol_map st) (le_bytes 4 (pol_dst packet)) = Some r \<Longrightarrow>
   (case r of Some index \<Rightarrow> pol_known st packet index | None \<Rightarrow> pol_unknown st packet (pol_dst packet)) = Some (st', pass) \<Longrightarrow>
   pol_nf_handle st packet = Some (st', packet, if pass then pol_forward packet else [])"
  by (cases r) (simp_all add: pol_nf_handle_def Let_def header_reads pol_policed_def pol_dst_def)

lemma pol_handle_policed:
  assumes ok: "pol_ok n st" and fit: "headers_fit packet" and t: "pkt_time packet \<noteq> TIME_MAX"
    and wan: "pol_policed st packet"
  obtains (known) st' s0 t0 s where "pol_has st (pol_dst packet) s0 t0"
      "pol_refill (pol_rate st) (pol_burst st) s0 (pkt_time packet - t0) = Some s"
      "pol_nf_handle st packet = Some (st', packet, if pkt_length packet < s then pol_forward packet else [])"
      "pol_ok n st'" "pol_same_config st st'"
      "\<And>b s' t'. pol_has st' b s' t' \<longleftrightarrow> (if b = pol_dst packet
        then s' = (if pkt_length packet < s then s - pkt_length packet else s) \<and> t' = pkt_time packet
        else pol_has st b s' t')"
  | (new) st' where "\<And>s t. \<not> pol_has st (pol_dst packet) s t" "pkt_length packet \<le> pol_burst st"
      "\<not> pol_full n st (pkt_time packet)"
      "pol_nf_handle st packet = Some (st', packet, pol_forward packet)"
      "pol_ok n st'" "pol_same_config st st'"
      "\<And>s' t'. pol_has st' (pol_dst packet) s' t' \<longleftrightarrow> s' = pol_burst st - pkt_length packet \<and> t' = pkt_time packet"
      "\<And>b s' t'. b \<noteq> pol_dst packet \<Longrightarrow> pol_has st' b s' t' \<Longrightarrow> pol_has st b s' t'"
      "\<And>b s' t'. b \<noteq> pol_dst packet \<Longrightarrow> pol_has st b s' t' \<Longrightarrow> pol_has st' b s' t'
        \<or> (\<not> pool_young (pkt_time packet) (pol_expiration st) t' \<and> (\<forall>s t. \<not> pol_has st' b s t))"
  | (dropped) "\<And>s t. \<not> pol_has st (pol_dst packet) s t" "pol_nf_handle st packet = Some (st, packet, [])"
      "pol_burst st < pkt_length packet \<or> pol_full n st (pkt_time packet)"
proof -
  have tok: "table_ok (le_bytes 4) 4 n (pol_addresses_addr st) (pol_addresses st) (pol_map st) (pol_pool st)"
    using ok by (simp add: pol_ok_def)
  note k = known and nw = new and dr = dropped
  show ?thesis
    using tok
  proof (cases rule: u32_keys.ok_lookup [where key = "pol_dst packet"])
    case (known i t0)
    have has: "pol_has st (pol_dst packet) (pb_size (pol_buckets st ! unat i)) t0"
      using known(1) unfolding pol_has_def by blast
    from ok known(1) t refl show ?thesis
    proof (rule pol_known_correct)
      fix st' s assume a: "pol_refill (pol_rate st) (pol_burst st) (pb_size (pol_buckets st ! unat i)) (pkt_time packet - t0) = Some s"
        "pol_known st packet i = Some (st', pkt_length packet < s)" "pol_ok n st'" "pol_same_config st st'"
        "\<And>b s' t'. pol_has st' b s' t' \<longleftrightarrow> (if b = pol_dst packet
          then s' = (if pkt_length packet < s then s - pkt_length packet else s) \<and> t' = pkt_time packet
          else pol_has st b s' t')"
      have "pol_nf_handle st packet = Some (st', packet, if pkt_length packet < s then pol_forward packet else [])"
        by (rule pol_handle_wan [OF fit wan known(2)]) (simp add: a(2))
      from k [OF has a(1) this a(3-5)] show ?thesis .
    qed
  next
    case unknown
    have none: "\<not> pol_has st (pol_dst packet) s t" for s t using unknown(1) by (simp add: pol_has_def)
    from ok unknown(1) t show ?thesis
    proof (cases rule: pol_unknown_correct)
      case (small st')
      have "pol_nf_handle st packet = Some (st', packet, if True then pol_forward packet else [])"
        by (rule pol_handle_wan [OF fit wan unknown(2)]) (simp add: small(3))
      then have run: "pol_nf_handle st packet = Some (st', packet, pol_forward packet)" by simp
      show ?thesis by (rule nw [OF none small(1,2) run small(4-8)])
    next
      case dropped
      have "pol_nf_handle st packet = Some (st, packet, if False then pol_forward packet else [])"
        by (rule pol_handle_wan [OF fit wan unknown(2)]) (simp add: dropped(1))
      then have run: "pol_nf_handle st packet = Some (st, packet, [])" by simp
      show ?thesis by (rule dr [OF none run dropped(2)])
    qed
  qed
qed

text \<open>What a packet's step does to the bucket of an address that it is not for.\<close>

lemma pol_handle_frame:
  assumes ok: "pol_ok n st" and fit: "headers_fit packet" and t: "pkt_time packet \<noteq> TIME_MAX"
    and run: "pol_nf_handle st packet = Some (st', packet', out)"
    and other: "\<not> (pol_policed st packet \<and> pol_dst packet = a)"
  shows "pol_has st' a s' t' \<Longrightarrow> pol_has st a s' t'"
    and "pol_has st a s' t' \<Longrightarrow> pol_has st' a s' t'
      \<or> (\<not> pool_young (pkt_time packet) (pol_expiration st) t' \<and> (\<forall>s t. \<not> pol_has st' a s t))"
proof -
  have both: "(pol_has st' a s' t' \<longrightarrow> pol_has st a s' t')
    \<and> (pol_has st a s' t' \<longrightarrow> pol_has st' a s' t'
      \<or> (\<not> pool_young (pkt_time packet) (pol_expiration st) t' \<and> (\<forall>s t. \<not> pol_has st' a s t)))"
  proof (cases "pol_policed st packet")
    case False
    then show ?thesis using pol_handle_other [OF fit False] run by simp
  next
    case True
    with other have ne: "a \<noteq> pol_dst packet" by blast
    from ok fit t True show ?thesis
    proof (cases rule: pol_handle_policed)
      case known
      then show ?thesis using run ne by simp
    next
      case (new st1)
      have "st' = st1" using new(4) run by simp
      then show ?thesis using new(8,9) [OF ne] by blast
    next
      case dropped
      then show ?thesis using run by simp
    qed
  qed
  then show "pol_has st' a s' t' \<Longrightarrow> pol_has st a s' t'" "pol_has st a s' t' \<Longrightarrow> pol_has st' a s' t'
      \<or> (\<not> pool_young (pkt_time packet) (pol_expiration st) t' \<and> (\<forall>s t. \<not> pol_has st' a s t))" by blast+
qed

lemma pol_handle_ok:
  assumes ok: "pol_ok n st" and fit: "headers_fit packet" and t: "pkt_time packet \<noteq> TIME_MAX"
  obtains st' out where "pol_nf_handle st packet = Some (st', packet, out)" "pol_ok n st'" "pol_same_config st st'"
    "out \<in> {[], pol_forward packet}"
proof (cases "pol_policed st packet")
  case False
  show ?thesis by (rule that [OF pol_handle_other [OF fit False] ok]) (simp_all add: pol_same_config_def)
next
  case True
  note finish = that
  from ok fit t True show ?thesis
  proof (cases rule: pol_handle_policed)
    case (known st' s0 t0 s)
    then show ?thesis by (intro finish [OF known(3-5)]) simp
  next
    case (new st')
    then show ?thesis by (intro finish [OF new(4-6)]) simp
  next
    case dropped
    show ?thesis by (rule finish [OF dropped(2) ok]) (simp_all add: pol_same_config_def)
  qed
qed
section \<open>Runs\<close>

text \<open>
  The packets handled one after the other, in the order of their times, and the bytes that were
  sent on to the address \<open>a\<close> in total.
\<close>

inductive pol_run :: "u32 \<Rightarrow> policer \<Rightarrow> net_packet list \<Rightarrow> nat \<Rightarrow> policer \<Rightarrow> bool" for a where
  pol_run_start: "pol_run a st [] 0 st"
| pol_run_step: "pol_run a st0 packets sent st \<Longrightarrow> headers_fit packet \<Longrightarrow> pkt_time packet \<noteq> TIME_MAX \<Longrightarrow>
    (\<forall>q \<in> set packets. pkt_time q \<le> pkt_time packet) \<Longrightarrow>
    pol_nf_handle st packet = Some (st', packet', out) \<Longrightarrow>
    pol_run a st0 (packets @ [packet])
      (sent + (if pol_policed st packet \<and> pol_dst packet = a \<and> out \<noteq> [] then unat (pkt_length packet) else 0)) st'"

inductive_cases pol_run_snocE: "pol_run a st0 (packets @ [packet]) sent st"

text \<open>
  The budget of the address: what it was sent is covered by the burst and the time that has
  passed. While it has no bucket, the time alone covers it.
\<close>

definition pol_covered :: "policer \<Rightarrow> u32 \<Rightarrow> nat \<Rightarrow> nat \<Rightarrow> nat \<Rightarrow> bool" where
  "pol_covered st a t0 now sent \<longleftrightarrow> (let k = unat (pol_burst st div pol_rate st) in
     (\<forall>s t. pol_has st a s t \<longrightarrow> t0 \<le> unat t \<and> unat t \<le> now
        \<and> k * (sent + unat s) \<le> unat (pol_burst st) * (k + (unat t - t0)))
   \<and> ((\<forall>s t. \<not> pol_has st a s t) \<longrightarrow> k * sent \<le> unat (pol_burst st) * (now - t0)))"

lemma pol_covered_held:
  "pol_covered st a t0 now sent \<Longrightarrow> pol_has st a s t \<Longrightarrow> t0 \<le> unat t \<and> unat t \<le> now
    \<and> unat (pol_burst st div pol_rate st) * (sent + unat s)
      \<le> unat (pol_burst st) * (unat (pol_burst st div pol_rate st) + (unat t - t0))"
  unfolding pol_covered_def Let_def by blast

lemma pol_coveredI:
  "(\<And>s t. pol_has st a s t \<Longrightarrow> t0 \<le> unat t \<and> unat t \<le> now
    \<and> unat (pol_burst st div pol_rate st) * (sent + unat s)
      \<le> unat (pol_burst st) * (unat (pol_burst st div pol_rate st) + (unat t - t0))) \<Longrightarrow>
   (\<forall>s t. \<not> pol_has st a s t \<Longrightarrow>
    unat (pol_burst st div pol_rate st) * sent \<le> unat (pol_burst st) * (now - t0)) \<Longrightarrow>
   pol_covered st a t0 now sent"
  unfolding pol_covered_def Let_def by blast

lemma pol_covered_absent:
  "pol_covered st a t0 now sent \<Longrightarrow> \<forall>s t. \<not> pol_has st a s t \<Longrightarrow>
    unat (pol_burst st div pol_rate st) * sent \<le> unat (pol_burst st) * (now - t0)"
  unfolding pol_covered_def Let_def by blast

text \<open>A bucket that has expired would have been full again.\<close>

definition pol_lasting :: "policer \<Rightarrow> bool" where
  "pol_lasting st \<longleftrightarrow> pol_burst st div pol_rate st \<le> pol_expiration st"

text \<open>So it is as the configuration intends it, if the expiration does not overflow.\<close>

lemma pol_lasting_config:
  assumes "pol_expiration st = 1000000000 * pol_burst st div pol_rate st"
    "1000000000 * unat (pol_burst st) < 2 ^ 64"
  shows "pol_lasting st"
proof -
  have "unat (1000000000 * pol_burst st) = 1000000000 * unat (pol_burst st)"
    using assms(2) by (simp add: unat_word_ariths)
  then show ?thesis by (simp add: pol_lasting_def assms(1) word_le_nat_alt unat_div div_le_mono)
qed

lemma expired_diff:
  "\<not> pool_young now e t \<Longrightarrow> unat e < unat now - unat t" for now e t :: time_t
  by (auto simp: not_young unat_sub word_less_nat_alt word_le_nat_alt [symmetric])

lemma pol_covered_forget:
  assumes cov: "pol_covered st a t0 now0 sent" and gen: "pol_lasting st"
    and h: "pol_has st a s t" and old: "\<not> pool_young now (pol_expiration st) t"
  shows "unat (pol_burst st div pol_rate st) * sent \<le> unat (pol_burst st) * (unat now - t0)"
proof -
  let ?k = "unat (pol_burst st div pol_rate st)"
  have c: "t0 \<le> unat t" "?k * (sent + unat s) \<le> unat (pol_burst st) * (?k + (unat t - t0))"
    using pol_covered_held [OF cov h] by blast+
  have "?k \<le> unat now - unat t"
    using gen expired_diff [OF old] by (simp add: pol_lasting_def word_le_nat_alt)
  then have "?k + (unat t - t0) \<le> unat now - t0" using c(1) expired_diff [OF old] by simp
  then have "unat (pol_burst st) * (?k + (unat t - t0)) \<le> unat (pol_burst st) * (unat now - t0)" by (rule mult_le_mono2)
  with c(2) show ?thesis by (simp add: distrib_left)
qed

text \<open>One packet keeps the budget.\<close>

lemma pol_covered_step:
  assumes ok: "pol_ok n st" and fit: "headers_fit packet" and t: "pkt_time packet \<noteq> TIME_MAX"
    and gen: "pol_lasting st" and cov: "pol_covered st a t0 now0 sent"
    and later: "now0 \<le> unat (pkt_time packet)" "t0 \<le> unat (pkt_time packet)"
    and run: "pol_nf_handle st packet = Some (st', packet', out)"
  shows "pol_covered st' a t0 (unat (pkt_time packet))
    (sent + (if pol_policed st packet \<and> pol_dst packet = a \<and> out \<noteq> [] then unat (pkt_length packet) else 0))"
proof -
  let ?now = "unat (pkt_time packet)" and ?r = "unat (pol_rate st)" and ?b = "unat (pol_burst st)"
    and ?k = "unat (pol_burst st div pol_rate st)"
  have same: "pol_rate st' = pol_rate st" "pol_burst st' = pol_burst st"
    using ok fit t by (rule pol_handle_ok; use run in \<open>simp add: pol_same_config_def\<close>)+
  have absent: "?k * sent \<le> ?b * (?now - t0)" if "\<forall>s t. \<not> pol_has st a s t"
  proof -
    have "?k * sent \<le> ?b * (now0 - t0)" by (rule pol_covered_absent [OF cov that])
    also have "\<dots> \<le> ?b * (?now - t0)" using later(1) by (intro mult_le_mono2) simp
    finally show ?thesis .
  qed
  show ?thesis
  proof (cases "pol_policed st packet \<and> pol_dst packet = a")
    case False
    note frame = pol_handle_frame [OF ok fit t run False]
    have held: "t0 \<le> unat t' \<and> unat t' \<le> ?now \<and> ?k * (sent + unat s') \<le> ?b * (?k + (unat t' - t0))" if "pol_has st' a s' t'" for s' t'
      using pol_covered_held [OF cov frame(1) [OF that]] later(1) by linarith
    have gone: "?k * sent \<le> ?b * (?now - t0)" if none: "\<forall>s t. \<not> pol_has st' a s t"
    proof (cases "\<exists>s t. pol_has st a s t")
      case True
      then obtain s t' where h: "pol_has st a s t'" by blast
      with frame(2) [OF h] none have "\<not> pool_young (pkt_time packet) (pol_expiration st) t'" by blast
      then show ?thesis by (rule pol_covered_forget [OF cov gen h])
    next
      case False
      then show ?thesis by (intro absent) blast
    qed
    have "pol_covered st' a t0 ?now sent"
      by (rule pol_coveredI) (unfold same, erule held, erule gone)
    with False show ?thesis by auto
  next
    case True
    then have wan: "pol_policed st packet" and a: "pol_dst packet = a" by simp_all
    from ok fit t wan show ?thesis
    proof (cases rule: pol_handle_policed)
      case (known st1 s0 t1 s)
      have st1: "st' = st1" "out = (if pkt_length packet < s then pol_forward packet else [])"
        using known(3) run by simp_all
      have c: "t0 \<le> unat t1" "unat t1 \<le> now0" "?k * (sent + unat s0) \<le> ?b * (?k + (unat t1 - t0))"
        using pol_covered_held [OF cov known(1) [unfolded a]] by blast+
      have d: "unat (pkt_time packet - t1) = ?now - unat t1"
        using c(2) later(1) by (simp add: unat_sub word_le_nat_alt)
      have "s0 \<le> pol_burst st" by (rule pol_has_bound [OF ok known(1)])
      with known(2) have "?k * unat s \<le> ?k * unat s0 + ?b * unat (pkt_time packet - t1)" by (rule pol_refill_rate)
      then have "?k * (sent + unat s) \<le> ?b * (?k + (unat t1 - t0)) + ?b * (?now - unat t1)"
        using c(3) d by (simp add: distrib_left)
      also have "\<dots> = ?b * (?k + (?now - t0))"
        using c(1,2) later(1) by (simp add: distrib_left [symmetric])
      finally have "?k * (sent + unat s) \<le> ?b * (?k + (?now - t0))" .
      note spent = this
      have has: "pol_has st1 a s' t' \<longleftrightarrow>
        s' = (if pkt_length packet < s then s - pkt_length packet else s) \<and> t' = pkt_time packet" for s' t'
        using known(6) [of a] a by simp
      show ?thesis
      proof (cases "pkt_length packet < s")
        case True
        then have "unat (s - pkt_length packet) = unat s - unat (pkt_length packet)"
          "unat (pkt_length packet) < unat s"
          by (simp_all add: unat_sub word_less_nat_alt word_le_nat_alt)
        with spent True show ?thesis
          by (simp add: pol_covered_def Let_def st1(1) same [unfolded st1(1)] has later(2)) (simp add: st1(2) wan a)
      next
        case False
        with spent show ?thesis
          by (simp add: pol_covered_def Let_def st1(1) same [unfolded st1(1)] has later(2)) (simp add: st1(2) wan a)
      qed
    next
      case (new st1)
      have st1: "st' = st1" "out = pol_forward packet" using new(4) run by simp_all
      have "?k * sent \<le> ?b * (?now - t0)" using new(1) a by (intro absent) blast
      then have "?k * (sent + ?b) \<le> ?b * (?k + (?now - t0))"
        unfolding distrib_left mult.commute [of ?k ?b] by linarith
      moreover have "unat (pkt_length packet) + unat (pol_burst st - pkt_length packet) = ?b"
        using new(2) by (simp add: unat_sub word_le_nat_alt)
      ultimately show ?thesis using later(2) wan a new(7)
        by (intro pol_coveredI) (simp_all add: st1 same [unfolded st1(1)] add.assoc)
    next
      case dropped
      have "?k * sent \<le> ?b * (?now - t0)" using dropped(1) a by (intro absent) blast
      then show ?thesis using run dropped(1,2) a by (simp add: pol_covered_def Let_def)
    qed
  qed
qed

lemma pol_run_covered:
  assumes "pol_run a st0 packets sent st" "pol_ok n st0" "pol_lasting st0" "\<And>s t. \<not> pol_has st0 a s t"
    "packets \<noteq> []"
  shows "pol_ok n st \<and> pol_same_config st0 st
    \<and> pol_covered st a (unat (pkt_time (hd packets))) (unat (pkt_time (last packets))) sent
    \<and> (\<forall>q \<in> set packets. pkt_time q \<le> pkt_time (last packets))"
  using assms
proof (induction rule: pol_run.induct)
  case (pol_run_step st0 packets sent st packet st' packet' out)
  note hyps = pol_run_step.hyps
  have same_gen: "pol_lasting st" if "pol_same_config st0 st"
    using that pol_run_step.prems(2) by (simp add: pol_lasting_def pol_same_config_def)
  have start: "pol_ok n st \<and> pol_same_config st0 st \<and> pol_covered st a (unat (pkt_time (hd (packets @ [packet]))))
      (if packets = [] then unat (pkt_time packet) else unat (pkt_time (last packets))) sent"
  proof (cases "packets = []")
    case True
    with hyps(1) have "st = st0" "sent = 0" by (auto elim: pol_run.cases)
    then show ?thesis using pol_run_step.prems True by (simp add: pol_same_config_def pol_covered_def Let_def)
  next
    case False
    then show ?thesis using pol_run_step.IH [OF pol_run_step.prems(1-3) False] by simp
  qed
  have le: "(if packets = [] then unat (pkt_time packet) else unat (pkt_time (last packets))) \<le> unat (pkt_time packet)"
    "unat (pkt_time (hd (packets @ [packet]))) \<le> unat (pkt_time packet)"
    using hyps(4) last_in_set [of packets] hd_in_set [of packets]
    by (cases "packets = []", simp_all add: word_le_nat_alt hd_append)
  have ok: "pol_ok n st" and same: "pol_same_config st0 st" using start by simp_all
  have step: "pol_covered st' a (unat (pkt_time (hd (packets @ [packet])))) (unat (pkt_time packet))
    (sent + (if pol_policed st packet \<and> pol_dst packet = a \<and> out \<noteq> [] then unat (pkt_length packet) else 0))"
    using pol_covered_step [OF ok hyps(2,3) same_gen [OF same] _ le hyps(5)] start by blast
  have "pol_ok n st' \<and> pol_same_config st st'"
    using ok hyps(2,3) by (rule pol_handle_ok) (use hyps(5) in simp)
  then show ?case using step same hyps(4) by (auto simp: pol_same_config_def)
qed simp
section \<open>Initialisation\<close>

lemma pol_init_correct:
  assumes "alloc_ok om" "pol_nf_init cfg om devices_count = Some (Some (st, om'))"
  obtains n where "pol_ok n st" "\<And>a s t. \<not> pol_has st a s t" "pol_burst st \<noteq> 0"
    "pol_expiration st = 1000000000 * pol_burst st div pol_rate st"
    "os_config_get_size cfg ''max flows'' = Some (Some n)" "devices_count = 2"
proof -
  from assms(2) obtain wan rate burst n a1 om1 a2 om2 m om3 p where c: "devices_count = 2"
    "os_config_get_size cfg ''max flows'' = Some (Some n)" "rate \<noteq> 0" "burst \<noteq> 0"
    "os_memory_alloc om n 16 = Some (a1, om1)" "os_memory_alloc om1 n 4 = Some (a2, om2)"
    "map_alloc om2 4 n = Some (m, om3)" "index_pool_alloc om3 n (1000000000 * burst div rate) = Some (p, om')"
    "st = \<lparr>pol_wan_device = wan, pol_rate = rate, pol_burst = burst,
      pol_buckets = replicate (unat n) \<lparr>pb_size = 0, pb_time = 0\<rparr>, pol_addresses_addr = a2,
      pol_addresses = replicate (unat n) 0, pol_map = m, pol_pool = p\<rparr>"
    by (auto simp: pol_nf_init_def split: if_splits Option.bind_splits option.splits)
  have small: "unat n < 2 ^ 58" by (rule os_config_get_size_bound [OF c(2)])
  have "alloc_ok om1" using os_memory_alloc_correct [OF assms(1) _ c(5)] small by simp
  from os_memory_alloc_correct [OF this _ c(6)] small have base: "a2 \<noteq> NULL" by simp
  have m4: "map_alloc om2 (of_nat 4) n = Some (m, om3)" using c(7) by simp
  have "unat n \<le> 2 ^ 63" using small by simp
  note fresh = u32_keys.ok_alloc [OF m4 c(8) this _ base, of "replicate (unat n) 0", simplified]
  show ?thesis
    by (rule that [of n]) (use fresh c in \<open>simp_all add: pol_ok_def pol_has_def pol_expiration_def\<close>)
qed

section \<open>Properties\<close>

text \<open>A policer of the WAN device 1 for two addresses: bursts of 100 bytes, 10 per unit of time.\<close>

definition pol_example :: policer where
  "pol_example = \<lparr>pol_wan_device = 1, pol_rate = 10, pol_burst = 100,
     pol_buckets = [\<lparr>pb_size = 0, pb_time = 0\<rparr>, \<lparr>pb_size = 0, pb_time = 0\<rparr>],
     pol_addresses_addr = 64, pol_addresses = [0, 0], pol_map = empty_cmap 2 4,
     pol_pool = empty_pool 2 10000000000\<rparr>"

lemma pol_example_ok: "pol_ok 2 pol_example" "\<not> pol_has pol_example a s t"
  by (simp_all add: pol_ok_def pol_has_def pol_example_def empty_table_ok)

text \<open>Two packets of 60 bytes from the WAN to one address.\<close>

definition pol_first :: net_packet where
  "pol_first = example_udp 1 20 [20, 0, 0, 2, 10, 0, 0, 1, 2, 0, 1, 0]"

definition pol_second :: net_packet where
  "pol_second = pol_first\<lparr>pkt_time := 21\<rparr>"

lemma pol_packets:
  "headers_fit pol_first" "headers_fit pol_second" "pol_policed pol_example pol_first"
  "pkt_time pol_first = 20" "pkt_time pol_second = 21" "pkt_length pol_first = 60" "pkt_length pol_second = 60"
  "pkt_device pol_first = 1" "pkt_device pol_second = 1"
  "pol_dst pol_second = pol_dst pol_first" "is_ipv4 pol_second"
  by code_simp+

lemma pol_example_run:
  "\<exists>st1 st2. pol_nf_handle pol_example pol_first = Some (st1, pol_first, pol_forward pol_first)
    \<and> pol_nf_handle st1 pol_second = Some (st2, pol_second, [])
    \<and> pol_has st1 (pol_dst pol_first) 40 20 \<and> pol_wan_device st1 = 1 \<and> pol_rate st1 = 10 \<and> pol_burst st1 = 100"
proof -
  have "(case pol_nf_handle pol_example pol_first of None \<Rightarrow> False
    | Some (st1, p1, out1) \<Rightarrow> p1 = pol_first \<and> out1 = pol_forward pol_first
        \<and> table_maps (pol_addresses st1) (pol_pool st1) (pol_dst pol_first) 0 20
        \<and> pb_size (pol_buckets st1 ! 0) = 40 \<and> pol_wan_device st1 = 1 \<and> pol_rate st1 = 10 \<and> pol_burst st1 = 100
        \<and> (case pol_nf_handle st1 pol_second of None \<Rightarrow> False
          | Some (st2, p2, out2) \<Rightarrow> p2 = pol_second \<and> out2 = []))" by code_simp
  then obtain st1 st2 where "pol_nf_handle pol_example pol_first = Some (st1, pol_first, pol_forward pol_first)"
    "pol_nf_handle st1 pol_second = Some (st2, pol_second, [])"
    and m: "table_maps (pol_addresses st1) (pol_pool st1) (pol_dst pol_first) 0 20" "pb_size (pol_buckets st1 ! 0) = 40"
    "pol_wan_device st1 = 1" "pol_rate st1 = 10" "pol_burst st1 = 100"
    by (clarsimp split: option.split_asm prod.split_asm)
  moreover have "pol_has st1 (pol_dst pol_first) 40 20"
    unfolding pol_has_def using m by (intro exI [of _ 0]) simp
  ultimately show ?thesis by blast
qed

text \<open>
  The policer handles every packet whose headers lie in the buffer without an access out of
  bounds; its table stays well-formed, no bucket ever holds more than the burst, and the packet
  is dropped or sent once, unmodified, to the other one of the two devices.
\<close>

theorem pol_handle_total:
  assumes "pol_ok n st" "headers_fit packet" "pkt_time packet \<noteq> TIME_MAX"
  shows "\<exists>st' out. pol_nf_handle st packet = Some (st', packet, out) \<and> pol_ok n st'
    \<and> (\<forall>a s t. pol_has st' a s t \<longrightarrow> s \<le> pol_burst st)
    \<and> out \<in> {[], [Net_Transmit (1 - pkt_device packet) NONE]}"
  using assms
proof (rule pol_handle_ok)
  fix st' out assume a: "pol_nf_handle st packet = Some (st', packet, out)" "pol_ok n st'" "pol_same_config st st'"
    "out \<in> {[], pol_forward packet}"
  have "s \<le> pol_burst st" if "pol_has st' a s t" for a s t
    using pol_has_bound [OF a(2) that] a(3) by (simp add: pol_same_config_def)
  with a(1,2,4) show ?thesis by blast
qed

theorem pol_handle_total_witness:
  "\<exists>st' out. pol_nf_handle pol_example pol_first = Some (st', pol_first, out) \<and> pol_ok 2 st'"
  using pol_handle_total [OF pol_example_ok(1) pol_packets(1)] by (auto simp: pol_packets TIME_MAX_def)

text \<open>
  C28: What the policer lets in. For a packet from the WAN to an address with a bucket, last
  used at \<open>t0\<close>, the tokens are first brought up to date: below \<open>burst div rate\<close> units of time
  the rate times the time is added, up to the burst, and from then on the bucket is full. The
  packet passes exactly if it is shorter than the tokens, which it then uses up. To an address
  without a bucket it passes exactly if it is not longer than the burst and the table is not full
  of addresses that have not expired; it then leaves a bucket with the burst less its length.
\<close>

theorem pol_policy:
  assumes "pol_ok n st" "headers_fit packet" "pkt_time packet \<noteq> TIME_MAX"
    and "is_ipv4 packet" "pkt_device packet = pol_wan_device st"
    and "pol_nf_handle st packet = Some (st', packet', out)"
  shows "if \<exists>s t. pol_has st (pol_dst packet) s t
    then \<exists>s0 t0 s. pol_has st (pol_dst packet) s0 t0
      \<and> s = (if pkt_time packet - t0 < pol_burst st div pol_rate st
        then min (pol_burst st) (s0 + (pkt_time packet - t0) * pol_rate st) else pol_burst st)
      \<and> (out \<noteq> [] \<longleftrightarrow> pkt_length packet < s)
      \<and> pol_has st' (pol_dst packet) (if out \<noteq> [] then s - pkt_length packet else s) (pkt_time packet)
    else (out \<noteq> [] \<longleftrightarrow> pkt_length packet \<le> pol_burst st \<and> \<not> pol_full n st (pkt_time packet))
      \<and> (if out \<noteq> [] then pol_has st' (pol_dst packet) (pol_burst st - pkt_length packet) (pkt_time packet)
         else st' = st)"
proof -
  have wan: "pol_policed st packet" using assms(4,5) by (simp add: pol_policed_def)
  from assms(1-3) wan show ?thesis
  proof (cases rule: pol_handle_policed)
    case (known st1 s0 t0 s)
    have eq: "st' = st1" "out = (if pkt_length packet < s then pol_forward packet else [])"
      using known(3) assms(6) by simp_all
    have o: "out \<noteq> [] \<longleftrightarrow> pkt_length packet < s" "pol_has st' (pol_dst packet)
      (if out \<noteq> [] then s - pkt_length packet else s) (pkt_time packet)"
      by (simp_all add: eq(1) known(6)) (simp_all add: eq(2))
    have ex: "\<exists>s t. pol_has st (pol_dst packet) s t" using known(1) by blast
    show ?thesis unfolding if_P [OF ex]
      by (intro exI [of _ s0] exI [of _ t0] exI [of _ s] conjI) (fact known(1) pol_refill_tokens [OF known(2)] o)+
  next
    case (new st1)
    then show ?thesis using assms(6) by simp
  next
    case dropped
    then show ?thesis using assms(6) by (auto simp: not_le)
  qed
qed

theorem pol_policy_witness:
  "\<exists>st1 st2. pol_nf_handle pol_example pol_first = Some (st1, pol_first, pol_forward pol_first)
    \<and> pol_nf_handle st1 pol_second = Some (st2, pol_second, [])
    \<and> pol_has st2 (pol_dst pol_second) 50 21"
proof -
  obtain st1 st2 where a: "pol_nf_handle pol_example pol_first = Some (st1, pol_first, pol_forward pol_first)"
    "pol_nf_handle st1 pol_second = Some (st2, pol_second, [])" "pol_has st1 (pol_dst pol_first) 40 20"
    "pol_wan_device st1 = 1" "pol_rate st1 = 10" "pol_burst st1 = 100"
    using pol_example_run by blast
  have ok: "pol_ok 2 st1"
    using pol_example_ok(1) pol_packets(1) by (rule pol_handle_ok) (use a(1) in \<open>simp_all add: pol_packets TIME_MAX_def\<close>)
  have h: "pol_has st1 (pol_dst pol_second) 40 20" using a(3) by (simp add: pol_packets)
  have "pkt_time pol_second \<noteq> TIME_MAX" "pkt_device pol_second = pol_wan_device st1"
    by (simp_all add: pol_packets TIME_MAX_def a(4))
  from pol_policy [OF ok pol_packets(2) this(1) pol_packets(11) this(2) a(2)] h
  obtain s0 t0 s where s: "pol_has st1 (pol_dst pol_second) s0 t0"
    "s = (if pkt_time pol_second - t0 < pol_burst st1 div pol_rate st1
      then min (pol_burst st1) (s0 + (pkt_time pol_second - t0) * pol_rate st1) else pol_burst st1)"
    "pol_has st2 (pol_dst pol_second) s (pkt_time pol_second)" by (auto split: if_splits)
  have "s0 = 40" "t0 = 20" using pol_has_unique [OF ok h s(1)] by simp_all
  then have "s = 50" using s(2) by (simp add: a(5,6) pol_packets)
  with s(3) a(1,2) show ?thesis by (auto simp: pol_packets)
qed

lemma pol_run_limit:
  assumes "pol_ok n st0" "\<And>s t. \<not> pol_has st0 a s t" "pol_burst st0 \<noteq> 0"
    and "pol_burst st0 div pol_rate st0 \<le> pol_expiration st0"
    and "pol_run a st0 packets sent st" "packets \<noteq> []"
  defines "elapsed \<equiv> unat (pkt_time (last packets)) - unat (pkt_time (hd packets))"
  shows "unat (pol_burst st0 div pol_rate st0) * sent
      \<le> unat (pol_burst st0) * (unat (pol_burst st0 div pol_rate st0) + elapsed)
    \<and> (unat (pol_rate st0) dvd unat (pol_burst st0) \<longrightarrow>
      sent \<le> unat (pol_burst st0) + unat (pol_rate st0) * elapsed)"
proof -
  let ?k = "unat (pol_burst st0 div pol_rate st0)" and ?b = "unat (pol_burst st0)" and ?r = "unat (pol_rate st0)"
  have gen: "pol_lasting st0" using assms(4) by (simp add: pol_lasting_def)
  have r: "pol_same_config st0 st"
    "pol_covered st a (unat (pkt_time (hd packets))) (unat (pkt_time (last packets))) sent"
    using pol_run_covered [OF assms(5,1) gen assms(2,6)] by simp_all
  have limit: "?k * sent \<le> ?b * (?k + elapsed)"
  proof (cases "\<exists>s t. pol_has st a s t")
    case True
    then obtain s t where "pol_has st a s t" by blast
    note held = pol_covered_held [OF r(2) this]
    have same: "pol_rate st = pol_rate st0" "pol_burst st = pol_burst st0" using r(1) by (simp_all add: pol_same_config_def)
    have t: "unat t \<le> unat (pkt_time (last packets))" using held by blast
    have c: "?k * (sent + unat s) \<le> ?b * (?k + (unat t - unat (pkt_time (hd packets))))"
      using held unfolding same by blast
    have "?k * sent \<le> ?k * (sent + unat s)" by simp
    also note c
    also have "?b * (?k + (unat t - unat (pkt_time (hd packets)))) \<le> ?b * (?k + elapsed)"
      using t by (intro mult_le_mono2) (simp add: elapsed_def)
    finally show ?thesis .
  next
    case False
    then have "?k * sent \<le> ?b * elapsed"
      using pol_covered_absent [OF r(2)] r(1) by (simp add: pol_same_config_def elapsed_def)
    then show ?thesis by (simp add: distrib_left)
  qed
  moreover have "sent \<le> ?b + ?r * elapsed" if "?r dvd ?b"
  proof -
    have k: "?b = ?r * ?k" using that by (simp add: unat_div)
    have "0 < ?b" using assms(3) by (simp add: unat_gt_0)
    with k have pos: "0 < ?k" by (metis mult_0_right neq0_conv)
    have "?k * sent \<le> ?k * (?b + ?r * elapsed)"
      using limit unfolding k by (simp add: algebra_simps)
    with pos show ?thesis by simp
  qed
  ultimately show ?thesis by blast
qed



end
