(* ===== verification/Nf_Nop.thy ===== *)
theory Nf_Nop
  imports Net_Flow Os_Config
begin

text \<open>The forwarder: \<open>nf/nop/nop.c\<close>, which sends every packet on between two configured devices.\<close>

section \<open>The model\<close>

record nop =
  nop_wan_device :: device_t
  nop_lan_device :: device_t

definition nop_nf_init :: "config \<Rightarrow> device_t \<Rightarrow> nop option option" where
  "nop_nf_init cfg devices_count = do {
     w \<leftarrow> os_config_get_device cfg ''wan device'' devices_count;
     case w of None \<Rightarrow> Some None | Some wan_device \<Rightarrow> do {
     l \<leftarrow> os_config_get_device cfg ''lan device'' devices_count;
     case l of None \<Rightarrow> Some None | Some lan_device \<Rightarrow>
       if lan_device = wan_device then Some None
       else Some (Some \<lparr>nop_wan_device = wan_device, nop_lan_device = lan_device\<rparr>) } }"

definition nop_nf_handle :: "nop \<Rightarrow> net_packet \<Rightarrow> (nop \<times> net_packet \<times> tx list) option" where
  "nop_nf_handle st packet =
     (let dst_device = (if pkt_device packet = nop_wan_device st then nop_lan_device st else nop_wan_device st)
      in Some (st, packet, [Net_Transmit dst_device UPDATE_ETHER_ADDRS]))"

section \<open>Properties\<close>

text \<open>
  After an initialisation that succeeds, every packet is sent once, to one of the two
  configured devices, which exist and are different; it never goes back to the device it came
  from.
\<close>

theorem nop_forwards:
  assumes "nop_nf_init cfg devices_count = Some (Some st)" "0 < devices_count"
  shows "\<exists>d. nop_nf_handle st packet = Some (st, packet, [Net_Transmit d UPDATE_ETHER_ADDRS])
    \<and> d < devices_count \<and> d \<in> {nop_wan_device st, nop_lan_device st}
    \<and> nop_wan_device st \<noteq> nop_lan_device st \<and> d \<noteq> pkt_device packet"
proof -
  from assms(1) have "os_config_get_device cfg ''wan device'' devices_count = Some (Some (nop_wan_device st))"
    "os_config_get_device cfg ''lan device'' devices_count = Some (Some (nop_lan_device st))"
    and ne: "nop_wan_device st \<noteq> nop_lan_device st"
    by (auto simp: nop_nf_init_def split: Option.bind_splits option.splits if_splits)
  then have "nop_wan_device st < devices_count" "nop_lan_device st < devices_count"
    using os_config_get_device_bound assms(2) by blast+
  with ne show ?thesis by (auto simp: nop_nf_handle_def)
qed

definition nop_example_config :: config where
  "nop_example_config = [(''lan device'', 0), (''wan device'', 1)]"

theorem nop_forwards_witness:
  "\<exists>st d. nop_nf_init nop_example_config 2 = Some (Some st)
    \<and> nop_nf_handle st example_request = Some (st, example_request, [Net_Transmit d UPDATE_ETHER_ADDRS])
    \<and> d < 2 \<and> d \<noteq> pkt_device example_request"
proof -
  have init: "nop_nf_init nop_example_config 2 = Some (Some \<lparr>nop_wan_device = 1, nop_lan_device = 0\<rparr>)"
    by (simp add: nop_nf_init_def os_config_get_device_def nop_example_config_def
        os_config_get_correct config_ok_def c_string_def)
  from nop_forwards [OF this, of example_request] this show ?thesis by auto
qed

end
