(* ===== verification/Spanning_Tree.thy ===== *)
theory Spanning_Tree
  imports Net_Flow
begin

text \<open>
  The bridge's spanning tree protocol: \<open>nf/bridge/spanning_tree.h\<close>. Every bridge keeps the best
  root it knows, with the cost and the port towards it, and announces it.
\<close>

section \<open>The model\<close>

definition LINK_COST :: u32 where
  "LINK_COST = 10"

text \<open>\<open>struct stp_state\<close> and the two variables next to it.\<close>

record stp =
  stp_last_update_time :: time_t
  stp_self :: u64
  stp_root :: u64
  stp_root_cost :: u32
  stp_root_port :: device_t
  stp_disabled_ports :: "bool list"
  stp_update_time :: time_t

text \<open>\<open>sizeof (struct stp_state)\<close> is 32.\<close>

definition stp_init :: "os_mem \<Rightarrow> device_t \<Rightarrow> u64 \<Rightarrow> time_t \<Rightarrow> (stp \<times> os_mem) option" where
  "stp_init om devices_count self_bid update_time = do {
     (disabled_ports, om) \<leftarrow> os_memory_alloc om (ucast devices_count) 1;
     (state, om) \<leftarrow> os_memory_alloc om 1 32;
     Some (\<lparr>stp_last_update_time = 0, stp_self = self_bid, stp_root = self_bid, stp_root_cost = 0,
       stp_root_port = 0, stp_disabled_ports = replicate (unat devices_count) False,
       stp_update_time = update_time\<rparr>, om) }"

text \<open>\<open>struct bpdu_packet\<close> is packed: the root at offset 0, its cost at 8, the sender at 12.\<close>

definition bpdu_write :: "byte list \<Rightarrow> nat \<Rightarrow> u64 \<Rightarrow> u32 \<Rightarrow> u64 \<Rightarrow> byte list option" where
  "bpdu_write d data root root_cost sender = do {
     d \<leftarrow> wr64 d data root;
     d \<leftarrow> wr32 d (data + 8) root_cost;
     wr64 d (data + 12) sender }"

text \<open>The address 01:80:C2:00:00:00.\<close>

definition BRIDGE_GROUP_ADDRESS :: ether_addr where
  "BRIDGE_GROUP_ADDRESS = [0x01, 0x80, 0xC2, 0x00, 0x00, 0x00]"

text \<open>The comparison of a BPDU with what the bridge knows, and whether that was updated.\<close>

definition stp_update :: "stp \<Rightarrow> u64 \<Rightarrow> u32 \<Rightarrow> device_t \<Rightarrow> stp \<times> bool" where
  "stp_update state root root_cost device =
     (if root < stp_root state
      then (state\<lparr>stp_root := root, stp_root_cost := root_cost + LINK_COST, stp_root_port := device\<rparr>, True)
      else if root = stp_root state \<and> root_cost + LINK_COST < stp_root_cost state
      then (state\<lparr>stp_root_cost := root_cost + LINK_COST, stp_root_port := device\<rparr>, True)
      else if root = stp_root state \<and> root_cost + LINK_COST = stp_root_cost state \<and> device < stp_root_port state
      then (state\<lparr>stp_root_port := device\<rparr>, True)
      else (state, False))"

definition stp_handle :: "stp \<Rightarrow> nat \<Rightarrow> net_packet \<Rightarrow> (stp \<times> net_packet \<times> tx list \<times> bool) option" where
  "stp_handle state header packet =
     (if pkt_time packet > stp_last_update_time state + stp_update_time state
      then do {
        d \<leftarrow> bpdu_write (pkt_data packet) (header + 14) (stp_root state) (stp_root_cost state) (stp_self state);
        Some (state\<lparr>stp_last_update_time := pkt_time packet\<rparr>,
          packet\<lparr>pkt_data := d, pkt_length := 34\<rparr>, [Net_Flood UPDATE_ETHER_ADDRS], True) }
      else do {
        dst \<leftarrow> ether_dst (pkt_data packet) header;
        if dst \<noteq> BRIDGE_GROUP_ADDRESS then Some (state, packet, [], False)
        else do {
          root \<leftarrow> rd64 (pkt_data packet) (header + 14);
          if root > stp_root state then do {
            ports \<leftarrow> arr_set (stp_disabled_ports state) (ucast (pkt_device packet)) True;
            Some (state\<lparr>stp_disabled_ports := ports\<rparr>, packet, [], True) }
          else do {
            root_cost \<leftarrow> rd32 (pkt_data packet) (header + 14 + 8);
            let (state, updated) = stp_update state root root_cost (pkt_device packet);
            if updated then do {
              d \<leftarrow> bpdu_write (pkt_data packet) (header + 14) (stp_root state) (stp_root_cost state) (stp_self state);
              ports \<leftarrow> arr_set (stp_disabled_ports state) (ucast (stp_root_port state)) False;
              Some (state\<lparr>stp_disabled_ports := ports\<rparr>, packet\<lparr>pkt_data := d\<rparr>, [Net_Flood UPDATE_ETHER_ADDRS], True) }
            else Some (state, packet, [], True) } } })"

lemma stp_handle_frame:
  assumes "stp_handle state header packet = Some (state', packet', out, handled)"
  shows "length (pkt_data packet') = length (pkt_data packet) \<and> pkt_length packet' \<in> {pkt_length packet, 34}
    \<and> pkt_device packet' = pkt_device packet"
  using assms
  by (auto simp: stp_handle_def bpdu_write_def Let_def dest!: length_wr split: Option.bind_splits if_splits prod.splits)

section \<open>Priority vectors\<close>

text \<open>
  What the protocol minimises: the root, then the cost towards it, then the port. The order is
  the lexicographic one.
\<close>

datatype stp_vector = Stp_Vector (sv_root: u64) (sv_cost: u32) (sv_port: device_t)

instantiation stp_vector :: linorder
begin

definition less_eq_stp_vector :: "stp_vector \<Rightarrow> stp_vector \<Rightarrow> bool" where
  "less_eq_stp_vector v w \<longleftrightarrow> sv_root v < sv_root w \<or> sv_root v = sv_root w \<and>
     (sv_cost v < sv_cost w \<or> sv_cost v = sv_cost w \<and> sv_port v \<le> sv_port w)"

definition less_stp_vector :: "stp_vector \<Rightarrow> stp_vector \<Rightarrow> bool" where
  "less_stp_vector v w \<longleftrightarrow> sv_root v < sv_root w \<or> sv_root v = sv_root w \<and>
     (sv_cost v < sv_cost w \<or> sv_cost v = sv_cost w \<and> sv_port v < sv_port w)"

instance
  by standard (auto simp: less_eq_stp_vector_def less_stp_vector_def stp_vector.expand)

end

definition stp_vector_of :: "stp \<Rightarrow> stp_vector" where
  "stp_vector_of state = Stp_Vector (stp_root state) (stp_root_cost state) (stp_root_port state)"

text \<open>Of a BPDU that arrives on a port.\<close>

definition bpdu_root :: "net_packet \<Rightarrow> u64" where
  "bpdu_root packet = le_word (take 8 (drop 14 (pkt_data packet)))"

definition bpdu_cost :: "net_packet \<Rightarrow> u32" where
  "bpdu_cost packet = le_word (take 4 (drop 22 (pkt_data packet)))"

definition bpdu_vector :: "net_packet \<Rightarrow> stp_vector" where
  "bpdu_vector packet = Stp_Vector (bpdu_root packet) (bpdu_cost packet + LINK_COST) (pkt_device packet)"

definition stp_ok :: "device_t \<Rightarrow> stp \<Rightarrow> bool" where
  "stp_ok dc state \<longleftrightarrow> length (stp_disabled_ports state) = unat dc \<and> stp_root_port state < dc"

definition stp_tick :: "stp \<Rightarrow> net_packet \<Rightarrow> bool" where
  "stp_tick state packet \<longleftrightarrow> pkt_time packet > stp_last_update_time state + stp_update_time state"

definition is_bpdu :: "net_packet \<Rightarrow> bool" where
  "is_bpdu packet \<longleftrightarrow> take 6 (pkt_data packet) = BRIDGE_GROUP_ADDRESS"

lemma stp_update_min:
  "stp_update state root cost device = (state', updated) \<Longrightarrow> root \<le> stp_root state \<Longrightarrow>
   stp_vector_of state' = min (stp_vector_of state) (Stp_Vector root (cost + LINK_COST) device)
   \<and> (updated \<longleftrightarrow> stp_vector_of state' < stp_vector_of state)
   \<and> stp_disabled_ports state' = stp_disabled_ports state \<and> stp_self state' = stp_self state
   \<and> stp_last_update_time state' = stp_last_update_time state \<and> stp_update_time state' = stp_update_time state
   \<and> (updated \<longrightarrow> stp_root_port state' = device) \<and> (\<not> updated \<longrightarrow> state' = state)"
  unfolding stp_update_def stp_vector_of_def
  by (cases "root < stp_root state";
      cases "cost + LINK_COST < stp_root_cost state";
      cases "cost + LINK_COST = stp_root_cost state";
      cases "device < stp_root_port state")
    (auto simp: min_def less_eq_stp_vector_def less_stp_vector_def)

text \<open>A BPDU that is written fits, and reads back.\<close>

lemma bpdu_write_effect:
  assumes "headers_fit packet"
  obtains d where "bpdu_write (pkt_data packet) 14 root cost sender = Some d"
    "length d = length (pkt_data packet)" "take 14 d = take 14 (pkt_data packet)"
    "le_word (take 8 (drop 14 d)) = root" "le_word (take 4 (drop 22 d)) = cost"
    "le_word (take 8 (drop 26 d)) = sender"
proof -
  have len: "38 \<le> length (pkt_data packet)" using assms by (simp add: headers_fit_def)
  have b1: "14 + 8 \<le> length (pkt_data packet)" using len by simp
  obtain d1 where d1: "wr64 (pkt_data packet) 14 root = Some d1" "agree_off {14..<14 + 8} (pkt_data packet) d1"
    "(le_word (take 8 (drop 14 d1)) :: u64) = root" by (rule wr64_effect [OF b1])
  have len1: "38 \<le> length d1" using agree_off_length [OF d1(2)] len by simp
  have b2: "22 + 4 \<le> length d1" using len1 by simp
  obtain d2 where d2: "wr32 d1 22 cost = Some d2" "agree_off {22..<22 + 4} d1 d2"
    "(le_word (take 4 (drop 22 d2)) :: u32) = cost" by (rule wr32_effect [OF b2])
  have len2: "38 \<le> length d2" using agree_off_length [OF d2(2)] len1 by simp
  have b3: "26 + 8 \<le> length d2" using len2 by simp
  obtain d3 where d3: "wr64 d2 26 sender = Some d3" "agree_off {26..<26 + 8} d2 d3"
    "(le_word (take 8 (drop 26 d3)) :: u64) = sender" by (rule wr64_effect [OF b3])
  have "bpdu_write (pkt_data packet) 14 root cost sender = Some d3"
    using d1(1) d2(1) d3(1) by (simp add: bpdu_write_def)
  moreover have "length d3 = length (pkt_data packet)"
    using agree_off_length [OF d1(2)] agree_off_length [OF d2(2)] agree_off_length [OF d3(2)] by simp
  moreover have "take 14 (drop 0 d3) = take 14 (drop 0 (pkt_data packet))"
    using agree_off_take_drop [OF d1(2), of 0 14] agree_off_take_drop [OF d2(2), of 0 14]
      agree_off_take_drop [OF d3(2), of 0 14] len len1 len2 by simp
  moreover have "take 8 (drop 14 d3) = take 8 (drop 14 d1)"
    using agree_off_take_drop [OF d2(2), of 14 8] agree_off_take_drop [OF d3(2), of 14 8] len1 len2 by simp
  moreover have "take 4 (drop 22 d3) = take 4 (drop 22 d2)"
    using agree_off_take_drop [OF d3(2), of 22 4] len2 by simp
  ultimately show ?thesis using that d1(3) d2(3) d3(3) by simp
qed

lemma stp_reads:
  assumes "headers_fit packet"
  shows "ether_dst (pkt_data packet) 0 = Some (take 6 (pkt_data packet))"
    "rd64 (pkt_data packet) 14 = Some (bpdu_root packet)" "rd32 (pkt_data packet) 22 = Some (bpdu_cost packet)"
  using assms by (simp_all add: headers_fit_def ether_dst_def rd64_def rd32_def rd_bytes_def bpdu_root_def bpdu_cost_def)

text \<open>What the protocol's handler does to a packet, in its three cases.\<close>

lemma stp_handle_other:
  "headers_fit packet \<Longrightarrow> \<not> stp_tick state packet \<Longrightarrow> \<not> is_bpdu packet \<Longrightarrow>
   stp_handle state 0 packet = Some (state, packet, [], False)"
  by (simp add: stp_handle_def stp_tick_def is_bpdu_def stp_reads)

lemma stp_handle_tick:
  assumes "headers_fit packet" "stp_tick state packet"
  obtains d where "stp_handle state 0 packet = Some (state\<lparr>stp_last_update_time := pkt_time packet\<rparr>,
      packet\<lparr>pkt_data := d, pkt_length := 34\<rparr>, [Net_Flood UPDATE_ETHER_ADDRS], True)"
    "length d = length (pkt_data packet)" "take 14 d = take 14 (pkt_data packet)"
    "le_word (take 8 (drop 14 d)) = stp_root state" "le_word (take 4 (drop 22 d)) = stp_root_cost state"
    "le_word (take 8 (drop 26 d)) = stp_self state"
  using assms(1) by (rule bpdu_write_effect [of packet "stp_root state" "stp_root_cost state" "stp_self state"])
    (rule that; use assms(2) in \<open>simp add: stp_handle_def stp_tick_def\<close>)

lemma stp_handle_bpdu:
  assumes ok: "stp_ok dc state" and fit: "headers_fit packet" and dev: "pkt_device packet < dc"
    and bpdu: "is_bpdu packet" and now: "\<not> stp_tick state packet"
  obtains (worse) "stp_root state < bpdu_root packet"
      "stp_handle state 0 packet = Some (state\<lparr>stp_disabled_ports :=
        (stp_disabled_ports state)[unat (pkt_device packet) := True]\<rparr>, packet, [], True)"
      "stp_vector_of state < bpdu_vector packet"
  | (same) "bpdu_root packet = stp_root state" "stp_vector_of state \<le> bpdu_vector packet"
      "stp_handle state 0 packet = Some (state, packet, [], True)"
  | (better) d state' where "bpdu_vector packet < stp_vector_of state"
      "stp_handle state 0 packet = Some (state', packet\<lparr>pkt_data := d\<rparr>, [Net_Flood UPDATE_ETHER_ADDRS], True)"
      "stp_vector_of state' = bpdu_vector packet" "stp_self state' = stp_self state"
      "stp_disabled_ports state' = (stp_disabled_ports state)[unat (pkt_device packet) := False]"
      "length d = length (pkt_data packet)" "take 14 d = take 14 (pkt_data packet)"
      "le_word (take 8 (drop 14 d)) = bpdu_root packet" "le_word (take 4 (drop 22 d)) = bpdu_cost packet + LINK_COST"
      "le_word (take 8 (drop 26 d)) = stp_self state"
proof -
  have lt: "unat (pkt_device packet) < length (stp_disabled_ports state)"
    using ok dev by (simp add: stp_ok_def word_less_nat_alt)
  have now': "\<not> pkt_time packet > stp_last_update_time state + stp_update_time state"
    using now by (simp add: stp_tick_def)
  have dst: "take 6 (pkt_data packet) = BRIDGE_GROUP_ADDRESS" using bpdu by (simp add: is_bpdu_def)
  obtain state1 updated where u: "stp_update state (bpdu_root packet) (bpdu_cost packet) (pkt_device packet) = (state1, updated)"
    by fastforce
  show ?thesis
  proof (cases "stp_root state < bpdu_root packet")
    case True
    show ?thesis
      by (rule worse [OF True]) (use True now' dst lt in
        \<open>simp_all add: stp_handle_def stp_reads [OF fit] stp_vector_of_def bpdu_vector_def less_stp_vector_def\<close>)
  next
    case False
    then have le: "bpdu_root packet \<le> stp_root state" by simp
    note m = stp_update_min [OF u le, folded bpdu_vector_def]
    show ?thesis
    proof (cases updated)
      case False
      have v: "stp_vector_of state \<le> bpdu_vector packet"
      proof (rule ccontr)
        assume "\<not> stp_vector_of state \<le> bpdu_vector packet"
        then have "min (stp_vector_of state) (bpdu_vector packet) < stp_vector_of state" by (simp add: min_def)
        moreover have "\<not> stp_vector_of state1 < stp_vector_of state"
          "stp_vector_of state1 = min (stp_vector_of state) (bpdu_vector packet)" using m False by blast+
        ultimately show False by (simp only: not_True_eq_False)
      qed
      then have "bpdu_root packet = stp_root state"
        using le by (auto simp: less_eq_stp_vector_def stp_vector_of_def bpdu_vector_def)
      moreover have "stp_handle state 0 packet = Some (state, packet, [], True)"
        using False m u now' dst \<open>\<not> stp_root state < bpdu_root packet\<close> by (simp add: stp_handle_def stp_reads [OF fit])
      ultimately show ?thesis using same v by blast
    next
      case True
      then have v: "stp_vector_of state1 = bpdu_vector packet" "bpdu_vector packet < stp_vector_of state"
        "stp_root_port state1 = pkt_device packet" "stp_self state1 = stp_self state"
        "stp_disabled_ports state1 = stp_disabled_ports state"
        using m by (auto simp: min_def split: if_splits)
      from fit obtain d where d: "bpdu_write (pkt_data packet) 14 (stp_root state1) (stp_root_cost state1) (stp_self state1) = Some d"
        "length d = length (pkt_data packet)" "take 14 d = take 14 (pkt_data packet)"
        "le_word (take 8 (drop 14 d)) = stp_root state1" "le_word (take 4 (drop 22 d)) = stp_root_cost state1"
        "le_word (take 8 (drop 26 d)) = stp_self state1" by (rule bpdu_write_effect)
      have f: "stp_root state1 = bpdu_root packet" "stp_root_cost state1 = bpdu_cost packet + LINK_COST"
        using v(1) by (simp_all add: stp_vector_of_def bpdu_vector_def)
      let ?state = "state1\<lparr>stp_disabled_ports := (stp_disabled_ports state)[unat (pkt_device packet) := False]\<rparr>"
      have "stp_handle state 0 packet = Some (?state, packet\<lparr>pkt_data := d\<rparr>, [Net_Flood UPDATE_ETHER_ADDRS], True)"
        using True u now' dst d(1) v(3,5) lt \<open>\<not> stp_root state < bpdu_root packet\<close>
        by (simp add: stp_handle_def stp_reads [OF fit])
      moreover have "stp_vector_of ?state = bpdu_vector packet" using v(1) by (simp add: stp_vector_of_def)
      ultimately show ?thesis using better [of ?state d] v(2,4) d(2-6) f by simp
    qed
  qed
qed
section \<open>Properties\<close>

text \<open>A bridge 7 with two ports that knows of no better root, and a BPDU of bridge 5.\<close>

definition stp_example :: stp where
  "stp_example = \<lparr>stp_last_update_time = 0, stp_self = 7, stp_root = 7, stp_root_cost = 0, stp_root_port = 0,
     stp_disabled_ports = [False, True, False], stp_update_time = 1000\<rparr>"

definition stp_example_bpdu :: net_packet where
  "stp_example_bpdu = \<lparr>pkt_data = BRIDGE_GROUP_ADDRESS @ replicate 8 0 @ le_bytes 8 (5 :: u64) @ le_bytes 4 (20 :: u32)
     @ le_bytes 8 (6 :: u64) @ replicate 26 0, pkt_length = 60, pkt_time = 3, pkt_device = 1\<rparr>"

lemma stp_example_facts:
  "stp_ok 3 stp_example" "headers_fit stp_example_bpdu" "pkt_device stp_example_bpdu = 1" "is_bpdu stp_example_bpdu"
  "\<not> stp_tick stp_example stp_example_bpdu" "stp_vector_of stp_example = Stp_Vector 7 0 0"
  "bpdu_vector stp_example_bpdu = Stp_Vector 5 30 1"
  by code_simp+

lemma stp_selects:
  assumes "stp_ok dc state" "headers_fit packet" "pkt_device packet < dc" "is_bpdu packet" "\<not> stp_tick state packet"
  shows "\<exists>state' packet' out. stp_handle state 0 packet = Some (state', packet', out, True) \<and> stp_ok dc state'
    \<and> stp_vector_of state' = min (stp_vector_of state) (bpdu_vector packet)
    \<and> (if stp_vector_of state' < stp_vector_of state
       then out = [Net_Flood UPDATE_ETHER_ADDRS] \<and> bpdu_root packet' = stp_root state'
         \<and> bpdu_cost packet' = stp_root_cost state' \<and> le_word (take 8 (drop 26 (pkt_data packet'))) = stp_self state
         \<and> stp_disabled_ports state' = (stp_disabled_ports state)[unat (pkt_device packet) := False]
       else out = [] \<and> packet' = packet
         \<and> stp_disabled_ports state' = (if bpdu_root packet = stp_root state then stp_disabled_ports state
             else (stp_disabled_ports state)[unat (pkt_device packet) := True]))"
  using assms
proof (cases rule: stp_handle_bpdu)
  case worse
  let ?state = "state\<lparr>stp_disabled_ports := (stp_disabled_ports state)[unat (pkt_device packet) := True]\<rparr>"
  have "stp_vector_of ?state = stp_vector_of state" "bpdu_root packet \<noteq> stp_root state" "stp_ok dc ?state"
    using worse(1) assms(1) by (simp_all add: stp_vector_of_def stp_ok_def)
  then show ?thesis using worse(2,3)
    by (intro exI [of _ ?state] exI [of _ packet] exI [of _ "[]"]) (simp add: min_def less_imp_le [OF worse(3)])
next
  case same
  then show ?thesis using assms(1)
    by (intro exI [of _ state] exI [of _ packet] exI [of _ "[]"]) (simp add: min_def)
next
  case (better d state')
  have f: "stp_root state' = bpdu_root packet" "stp_root_cost state' = bpdu_cost packet + LINK_COST"
    "stp_root_port state' = pkt_device packet"
    using better(3) by (simp_all add: stp_vector_of_def bpdu_vector_def)
  have "stp_ok dc state'" using assms(1,3) better(5) f(3) by (simp add: stp_ok_def)
  moreover have "bpdu_root (packet\<lparr>pkt_data := d\<rparr>) = stp_root state'"
    "bpdu_cost (packet\<lparr>pkt_data := d\<rparr>) = stp_root_cost state'"
    using better(8,9) f(1,2) by (simp_all add: bpdu_root_def bpdu_cost_def)
  moreover have "min (stp_vector_of state) (bpdu_vector packet) = bpdu_vector packet"
    using better(1) by (intro min_absorb2 less_imp_le)
  ultimately show ?thesis using better(1-5,10)
    by (intro exI [of _ state'] exI [of _ "packet\<lparr>pkt_data := d\<rparr>"] exI [of _ "[Net_Flood UPDATE_ETHER_ADDRS]"])
      simp
qed



end
