(* ===== verification/Nf_Bridge.thy ===== *)
theory Nf_Bridge
  imports Spanning_Tree Os_Config
begin

text \<open>
  The bridge: \<open>nf/bridge/bridge.c\<close>, a learning switch on top of the spanning tree protocol. It
  remembers the device that each source address was last seen on.
\<close>

section \<open>The model\<close>

record bridge =
  br_stp :: stp
  br_addresses_addr :: addr
  br_addresses :: "mac list"
  br_devices :: "device_t list"
  br_map :: cmap
  br_allocator :: index_pool

definition br_nf_init :: "config \<Rightarrow> os_mem \<Rightarrow> device_t \<Rightarrow> (bridge \<times> os_mem) option option" where
  "br_nf_init cfg om devices_count =
     (if devices_count < 2 then Some None
      else do {
        b \<leftarrow> os_config_get_u64 cfg ''bid'';
        case b of None \<Rightarrow> Some None | Some self_bid \<Rightarrow> do {
        e \<leftarrow> os_config_get_time cfg ''expiration time'';
        case e of None \<Rightarrow> Some None | Some expiration_time \<Rightarrow> do {
        c \<leftarrow> os_config_get_size cfg ''capacity'';
        case c of None \<Rightarrow> Some None | Some capacity \<Rightarrow> do {
        u \<leftarrow> os_config_get_time cfg ''stp update time'';
        case u of None \<Rightarrow> Some None | Some update_time \<Rightarrow> do {
          (stp, om) \<leftarrow> stp_init om devices_count self_bid update_time;
          (addresses, om) \<leftarrow> os_memory_alloc om capacity 6;
          (devices, om) \<leftarrow> os_memory_alloc om capacity 2;
          (m, om) \<leftarrow> map_alloc om 6 capacity;
          (allocator, om) \<leftarrow> index_pool_alloc om capacity expiration_time;
          Some (Some (\<lparr>br_stp = stp, br_addresses_addr = addresses, br_addresses = replicate (unat capacity) 0,
            br_devices = replicate (unat capacity) 0, br_map = m, br_allocator = allocator\<rparr>, om)) } } } } })"

text \<open>The learning step of \<open>nf_handle\<close>, for a source address that is not a group address.\<close>

definition br_learn :: "bridge \<Rightarrow> mac \<Rightarrow> time_t \<Rightarrow> device_t \<Rightarrow> bridge option" where
  "br_learn st src time device = do {
     let mem = key_mem (le_bytes 6) (br_addresses_addr st) (br_addresses st);
     r \<leftarrow> map_get mem (br_map st) (le_bytes 6 src);
     case r of
       Some index \<Rightarrow> do {
         pool \<leftarrow> index_pool_refresh (br_allocator st) time index;
         devices \<leftarrow> arr_set (br_devices st) index device;
         Some (st\<lparr>br_allocator := pool, br_devices := devices\<rparr>) }
     | None \<Rightarrow> do {
         (pool, b) \<leftarrow> index_pool_borrow (br_allocator st) time;
         case b of
           None \<Rightarrow> Some (st\<lparr>br_allocator := pool\<rparr>)
         | Some (index, was_used) \<Rightarrow> do {
             old \<leftarrow> arr_get (br_addresses st) index;
             m \<leftarrow> (if was_used then map_remove mem (br_map st) (le_bytes 6 old) else Some (br_map st));
             addresses \<leftarrow> arr_set (br_addresses st) index src;
             m \<leftarrow> map_set (key_mem (le_bytes 6) (br_addresses_addr st) addresses) m
               (br_addresses_addr st + 6 * unat index) index;
             devices \<leftarrow> arr_set (br_devices st) index device;
             Some (st\<lparr>br_addresses := addresses, br_devices := devices, br_map := m, br_allocator := pool\<rparr>) } } }"

text \<open>The forwarding step.\<close>

definition br_forward :: "bridge \<Rightarrow> mac \<Rightarrow> device_t \<Rightarrow> tx list option" where
  "br_forward st dst device = do {
     r \<leftarrow> map_get (key_mem (le_bytes 6) (br_addresses_addr st) (br_addresses st)) (br_map st) (le_bytes 6 dst);
     case r of
       Some index \<Rightarrow> do {
         d \<leftarrow> arr_get (br_devices st) index;
         Some (if d \<noteq> device then [Net_Transmit d NONE] else []) }
     | None \<Rightarrow> Some [Net_Flood_Except (stp_disabled_ports (br_stp st)) NONE] }"

definition br_nf_handle :: "bridge \<Rightarrow> net_packet \<Rightarrow> (bridge \<times> net_packet \<times> tx list) option" where
  "br_nf_handle st packet = do {
     (ok1, ether_header) \<leftarrow> net_get_ether_header packet;
     if \<not> ok1 then Some (st, packet, []) else do {
     (stp, packet, out, handled) \<leftarrow> stp_handle (br_stp st) ether_header packet;
     let st = st\<lparr>br_stp := stp\<rparr>;
     if handled then Some (st, packet, out)
     else do {
       src \<leftarrow> ether_src (pkt_data packet) ether_header;
       st \<leftarrow> (if hd src AND 1 = 0 then br_learn st (le_word src) (pkt_time packet) (pkt_device packet) else Some st);
       dst \<leftarrow> ether_dst (pkt_data packet) ether_header;
       out' \<leftarrow> br_forward st (le_word dst) (pkt_device packet);
       Some (st, packet, out @ out') } } }"

section \<open>The filtering database\<close>

definition br_expiration :: "bridge \<Rightarrow> time_t" where
  "br_expiration st = ip_expiration_time (br_allocator st)"

text \<open>The address was last seen at time \<open>t\<close>, on device \<open>d\<close>.\<close>

definition br_has :: "bridge \<Rightarrow> mac \<Rightarrow> device_t \<Rightarrow> time_t \<Rightarrow> bool" where
  "br_has st a d t \<longleftrightarrow>
     (\<exists>i. table_maps (br_addresses st) (br_allocator st) a i t \<and> br_devices st ! unat i = d)"

definition br_ok :: "size_t \<Rightarrow> device_t \<Rightarrow> bridge \<Rightarrow> bool" where
  "br_ok n dc st \<longleftrightarrow>
     table_ok (le_bytes 6) 6 n (br_addresses_addr st) (br_addresses st) (br_map st) (br_allocator st)
   \<and> length (br_devices st) = unat n \<and> stp_ok dc (br_stp st)
   \<and> (\<forall>a i t. table_maps (br_addresses st) (br_allocator st) a i t \<longrightarrow> br_devices st ! unat i < dc)"

definition br_full :: "size_t \<Rightarrow> bridge \<Rightarrow> time_t \<Rightarrow> bool" where
  "br_full n st now \<longleftrightarrow> (\<forall>i < n. \<exists>a t. table_maps (br_addresses st) (br_allocator st) a i t
     \<and> pool_young now (br_expiration st) t)"

lemma br_has_bound: "br_ok n dc st \<Longrightarrow> br_has st a d t \<Longrightarrow> d < dc"
  unfolding br_ok_def br_has_def by blast

lemma br_has_unique:
  assumes "br_ok n dc st" "br_has st a d t" "br_has st a d' t'"
  shows "d' = d \<and> t' = t"
proof -
  have ok: "table_ok (le_bytes 6) 6 n (br_addresses_addr st) (br_addresses st) (br_map st) (br_allocator st)"
    using assms(1) by (simp add: br_ok_def)
  obtain i j where ij: "table_maps (br_addresses st) (br_allocator st) a i t" "br_devices st ! unat i = d"
    "table_maps (br_addresses st) (br_allocator st) a j t'" "br_devices st ! unat j = d'"
    using assms(2,3) unfolding br_has_def by blast
  have "i = j" by (rule table_maps_unique [OF ok ij(1,3)])
  with ij show ?thesis using table_maps_fun [OF ij(1)] by blast
qed

text \<open>
  Learning keeps the database well-formed. The address is then known on the device, unless the
  database is full of other addresses; addresses that have not expired stay.
\<close>

lemma br_learn_correct:
  assumes ok: "br_ok n dc st" and t: "time \<noteq> TIME_MAX" and dev: "device < dc"
  obtains st' where "br_learn st src time device = Some st'" "br_ok n dc st'" "br_stp st' = br_stp st"
    "br_expiration st' = br_expiration st"
    "(\<forall>d t. br_has st' src d t \<longleftrightarrow> d = device \<and> t = time)
      \<or> st' = st \<and> (\<forall>d t. \<not> br_has st src d t) \<and> br_full n st time"
    "\<And>a d t. a \<noteq> src \<Longrightarrow> br_has st' a d t \<Longrightarrow> br_has st a d t"
    "\<And>a d t. a \<noteq> src \<Longrightarrow> br_has st a d t \<Longrightarrow> pool_young time (br_expiration st) t \<Longrightarrow> br_has st' a d t"
proof -
  have tok: "table_ok (le_bytes 6) 6 n (br_addresses_addr st) (br_addresses st) (br_map st) (br_allocator st)"
    and len: "length (br_devices st) = unat n" and stp: "stp_ok dc (br_stp st)"
    and devs: "\<And>a i t. table_maps (br_addresses st) (br_allocator st) a i t \<Longrightarrow> br_devices st ! unat i < dc"
    using ok by (auto simp: br_ok_def)
  have alen: "length (br_addresses st) = unat n" by (rule table_ok_length [OF tok])
  show ?thesis
    using tok
  proof (cases rule: mac_keys.ok_lookup [where key = src])
    case (known i t0)
    have lt: "unat i < length (br_devices st)"
      using table_maps_bound [OF tok known(1)] by (simp add: len word_less_nat_alt)
    from tok known(1) t show ?thesis
    proof (rule mac_keys.ok_refresh)
      fix pool' assume p: "index_pool_refresh (br_allocator st) time i = Some pool'"
        "table_ok (le_bytes 6) 6 n (br_addresses_addr st) (br_addresses st) (br_map st) pool'"
        "ip_expiration_time pool' = ip_expiration_time (br_allocator st)"
        "\<And>key' j t. table_maps (br_addresses st) pool' key' j t \<longleftrightarrow>
          (if j = i then key' = src \<and> t = time else table_maps (br_addresses st) (br_allocator st) key' j t)"
      let ?st' = "st\<lparr>br_allocator := pool', br_devices := (br_devices st)[unat i := device]\<rparr>"
      have nth: "(br_devices st)[unat i := device] ! unat j = (if j = i then device else br_devices st ! unat j)" for j
        using lt by (simp add: nth_list_update word_unat_eq_iff)
      have run: "br_learn st src time device = Some ?st'" using known(2) p(1) lt by (simp add: br_learn_def)
      have ok': "br_ok n dc ?st'" using p(2) len stp dev devs by (auto simp: br_ok_def p(4) nth)
      have only: "table_maps (br_addresses st) pool' src j t' \<longleftrightarrow> j = i \<and> t' = time" for j t'
        using p(4) [of src j t'] table_maps_unique [OF tok known(1), of j t'] by (cases "j = i") auto
      have keep: "table_maps (br_addresses st) pool' a j t' \<longleftrightarrow> j \<noteq> i \<and> table_maps (br_addresses st) (br_allocator st) a j t'"
        if "a \<noteq> src" for a j t'
        using p(4) [of a j t'] that table_maps_fun [OF known(1), of a t'] by (cases "j = i") auto
      have others: "br_has ?st' a d t' \<longleftrightarrow> br_has st a d t'" if ne: "a \<noteq> src" for a d t'
      proof -
        have "j \<noteq> i" if "table_maps (br_addresses st) (br_allocator st) a j t'" for j
          using that ne table_maps_fun [OF known(1), of a t'] by auto
        then show ?thesis by (auto simp: br_has_def keep [OF ne] nth)
      qed
      have self: "br_has ?st' src d t' \<longleftrightarrow> d = device \<and> t' = time" for d t'
        by (auto simp: br_has_def only nth)
      show ?thesis
        by (rule that [OF run ok'])
          (simp_all add: br_expiration_def p(3) others self)
    qed
  next
    case unknown
    show ?thesis
      using tok unknown(1) t
    proof (cases rule: mac_keys.ok_learn)
      case (learned pool' i was_used m1 m2)
      let ?st' = "st\<lparr>br_addresses := (br_addresses st)[unat i := src], br_devices := (br_devices st)[unat i := device],
        br_map := m2, br_allocator := pool'\<rparr>"
      have lt: "unat i < length (br_devices st)" using learned(2) by (simp add: len alen)
      have run: "br_learn st src time device = Some ?st'"
        using unknown(2) learned(1,2,5,6) lt by (simp add: br_learn_def)
      have nth: "(br_devices st)[unat i := device] ! unat j = (if j = i then device else br_devices st ! unat j)" for j
        using lt by (simp add: nth_list_update word_unat_eq_iff)
      have ok': "br_ok n dc ?st'" using learned(7) len stp dev devs by (auto simp: br_ok_def learned(9) nth)
      have has_src: "br_has ?st' src d t' \<longleftrightarrow> d = device \<and> t' = time" for d t'
        using unknown(1) by (auto simp: br_has_def learned(9) nth)
      have has_other: "br_has ?st' a d t' \<longleftrightarrow>
        (\<exists>j. j \<noteq> i \<and> table_maps (br_addresses st) (br_allocator st) a j t' \<and> br_devices st ! unat j = d)"
        if "a \<noteq> src" for a d t'
        using that by (auto simp: br_has_def learned(9) nth)
      show ?thesis
      proof (rule that [OF run ok'])
        show "br_has st a d t'" if "a \<noteq> src" "br_has ?st' a d t'" for a d t'
          using that(2) unfolding has_other [OF that(1)] unfolding br_has_def by blast
        show "br_has ?st' a d t'" if a: "a \<noteq> src" "br_has st a d t'" "pool_young time (br_expiration st) t'" for a d t'
        proof -
          obtain j where j: "table_maps (br_addresses st) (br_allocator st) a j t'" "br_devices st ! unat j = d"
            using a(2) unfolding br_has_def by blast
          then have "j \<noteq> i" using learned(4) [of a t'] a(3) by (auto simp: br_expiration_def)
          with j show ?thesis unfolding has_other [OF a(1)] by blast
        qed
      qed (simp_all add: br_expiration_def learned(8) has_src)
    next
      case full
      have run: "br_learn st src time device = Some st" using unknown(2) full(1) by (simp add: br_learn_def)
      have "br_full n st time" using full(2) by (simp add: br_full_def br_expiration_def)
      moreover have "\<not> br_has st src d t'" for d t' using unknown(1) by (simp add: br_has_def)
      ultimately show ?thesis by (intro that [OF run ok]) simp_all
    qed
  qed
qed

text \<open>A known destination gets the packet on its device, unless the packet came from there.\<close>

lemma br_forward_correct:
  assumes ok: "br_ok n dc st"
  obtains (known) d t where "br_has st dst d t"
      "br_forward st dst device = Some (if d \<noteq> device then [Net_Transmit d NONE] else [])"
  | (unknown) "\<And>d t. \<not> br_has st dst d t"
      "br_forward st dst device = Some [Net_Flood_Except (stp_disabled_ports (br_stp st)) NONE]"
proof -
  have tok: "table_ok (le_bytes 6) 6 n (br_addresses_addr st) (br_addresses st) (br_map st) (br_allocator st)"
    and len: "length (br_devices st) = unat n" using ok by (auto simp: br_ok_def)
  note k = known and u = unknown
  show ?thesis
    using tok
  proof (cases rule: mac_keys.ok_lookup [where key = dst])
    case (known i t)
    have lt: "unat i < length (br_devices st)"
      using table_maps_bound [OF tok known(1)] by (simp add: len word_less_nat_alt)
    have "br_has st dst (br_devices st ! unat i) t" using known(1) unfolding br_has_def by blast
    then show ?thesis by (rule k) (simp add: br_forward_def known(2) lt)
  next
    case unknown
    then show ?thesis by (intro u) (simp_all add: br_has_def br_forward_def)
  qed
qed
section \<open>The packet handler\<close>

definition br_src :: "net_packet \<Rightarrow> mac" where
  "br_src packet = le_word (take 6 (drop 6 (pkt_data packet)))"

definition br_dst :: "net_packet \<Rightarrow> mac" where
  "br_dst packet = le_word (take 6 (pkt_data packet))"

definition br_unicast :: "net_packet \<Rightarrow> bool" where
  "br_unicast packet \<longleftrightarrow> pkt_data packet ! 6 AND 1 = 0"

text \<open>The packets that the spanning tree protocol leaves to the bridge.\<close>

definition br_data :: "bridge \<Rightarrow> net_packet \<Rightarrow> bool" where
  "br_data st packet \<longleftrightarrow> \<not> stp_tick (br_stp st) packet \<and> \<not> is_bpdu packet"

lemma br_stp_same [simp]: "st\<lparr>br_stp := br_stp st\<rparr> = st"
  by simp

lemma br_handle_stp:
  "stp_handle (br_stp st) 0 packet = Some (stp, packet', out, True) \<Longrightarrow>
   br_nf_handle st packet = Some (st\<lparr>br_stp := stp\<rparr>, packet', out)"
  by (simp add: br_nf_handle_def header_reads)

lemma br_handle_data:
  assumes fit: "headers_fit packet" and data: "br_data st packet"
    and learn: "(if br_unicast packet then br_learn st (br_src packet) (pkt_time packet) (pkt_device packet)
      else Some st) = Some st'"
    and fwd: "br_forward st' (br_dst packet) (pkt_device packet) = Some out"
  shows "br_nf_handle st packet = Some (st', packet, out)"
proof -
  have s: "stp_handle (br_stp st) 0 packet = Some (br_stp st, packet, [], False)"
    using stp_handle_other [OF fit] data by (simp add: br_data_def)
  have reads: "ether_src (pkt_data packet) 0 = Some (take 6 (drop 6 (pkt_data packet)))"
    "ether_dst (pkt_data packet) 0 = Some (take 6 (pkt_data packet))"
    "hd (take 6 (drop 6 (pkt_data packet))) = pkt_data packet ! 6"
    using fit by (simp_all add: headers_fit_def ether_src_def ether_dst_def rd_bytes_def hd_take hd_drop_conv_nth)
  have l: "(if pkt_data packet ! 6 AND 1 = 0
      then br_learn st (le_word (take 6 (drop 6 (pkt_data packet)))) (pkt_time packet) (pkt_device packet)
      else Some st) = Some st'" using learn unfolding br_unicast_def br_src_def .
  show ?thesis
    using fwd by (simp add: br_nf_handle_def header_reads s reads l br_dst_def)
qed

lemma br_handle_data_correct:
  assumes ok: "br_ok n dc st" and fit: "headers_fit packet" and t: "pkt_time packet \<noteq> TIME_MAX"
    and dev: "pkt_device packet < dc" and data: "br_data st packet"
  obtains st' out where "br_nf_handle st packet = Some (st', packet, out)" "br_ok n dc st'" "br_stp st' = br_stp st"
    "br_expiration st' = br_expiration st"
    "br_unicast packet \<Longrightarrow> (\<forall>d t. br_has st' (br_src packet) d t \<longleftrightarrow> d = pkt_device packet \<and> t = pkt_time packet)
      \<or> st' = st \<and> (\<forall>d t. \<not> br_has st (br_src packet) d t) \<and> br_full n st (pkt_time packet)"
    "\<not> br_unicast packet \<Longrightarrow> st' = st"
    "\<And>a d t. a \<noteq> br_src packet \<Longrightarrow> br_has st' a d t \<Longrightarrow> br_has st a d t"
    "\<And>a d t. a \<noteq> br_src packet \<Longrightarrow> br_has st a d t \<Longrightarrow> pool_young (pkt_time packet) (br_expiration st) t \<Longrightarrow>
      br_has st' a d t"
    "\<And>d t. br_has st' (br_dst packet) d t \<Longrightarrow> out = (if d \<noteq> pkt_device packet then [Net_Transmit d NONE] else [])"
    "(\<And>d t. \<not> br_has st' (br_dst packet) d t) \<Longrightarrow> out = [Net_Flood_Except (stp_disabled_ports (br_stp st)) NONE]"
proof -
  obtain st' where l: "(if br_unicast packet then br_learn st (br_src packet) (pkt_time packet) (pkt_device packet)
      else Some st) = Some st'" "br_ok n dc st'" "br_stp st' = br_stp st" "br_expiration st' = br_expiration st"
    "br_unicast packet \<Longrightarrow> (\<forall>d t. br_has st' (br_src packet) d t \<longleftrightarrow> d = pkt_device packet \<and> t = pkt_time packet)
      \<or> st' = st \<and> (\<forall>d t. \<not> br_has st (br_src packet) d t) \<and> br_full n st (pkt_time packet)"
    "\<not> br_unicast packet \<Longrightarrow> st' = st"
    "\<And>a d t. a \<noteq> br_src packet \<Longrightarrow> br_has st' a d t \<Longrightarrow> br_has st a d t"
    "\<And>a d t. a \<noteq> br_src packet \<Longrightarrow> br_has st a d t \<Longrightarrow> pool_young (pkt_time packet) (br_expiration st) t \<Longrightarrow>
      br_has st' a d t"
  proof (cases "br_unicast packet")
    case True
    note finish = that
    from ok t dev show ?thesis
    proof (rule br_learn_correct [where src = "br_src packet"])
      fix st1 assume a: "br_learn st (br_src packet) (pkt_time packet) (pkt_device packet) = Some st1" "br_ok n dc st1"
        "br_stp st1 = br_stp st" "br_expiration st1 = br_expiration st"
        "(\<forall>d t. br_has st1 (br_src packet) d t \<longleftrightarrow> d = pkt_device packet \<and> t = pkt_time packet)
          \<or> st1 = st \<and> (\<forall>d t. \<not> br_has st (br_src packet) d t) \<and> br_full n st (pkt_time packet)"
        "\<And>a d t. a \<noteq> br_src packet \<Longrightarrow> br_has st1 a d t \<Longrightarrow> br_has st a d t"
        "\<And>a d t. a \<noteq> br_src packet \<Longrightarrow> br_has st a d t \<Longrightarrow> pool_young (pkt_time packet) (br_expiration st) t \<Longrightarrow>
          br_has st1 a d t"
      show ?thesis by (rule finish [OF _ a(2-4) _ _ a(6,7)]) (use True a(1,5) in simp_all)
    qed
  next
    case False
    then show ?thesis using ok by (intro that [of st]) simp_all
  qed
  from l(2) show ?thesis
  proof (cases rule: br_forward_correct [where dst = "br_dst packet" and device = "pkt_device packet"])
    case (known d t)
    show ?thesis
    proof (rule that [OF br_handle_data [OF fit data l(1) known(2)] l(2-8)])
      show "(if d \<noteq> pkt_device packet then [Net_Transmit d NONE] else [])
          = (if d' \<noteq> pkt_device packet then [Net_Transmit d' NONE] else [])"
        if "br_has st' (br_dst packet) d' t'" for d' t'
        using br_has_unique [OF l(2) known(1) that] by simp
      show "(if d \<noteq> pkt_device packet then [Net_Transmit d NONE] else [])
          = [Net_Flood_Except (stp_disabled_ports (br_stp st)) NONE]"
        if "\<And>d t. \<not> br_has st' (br_dst packet) d t" using known(1) that by blast
    qed
  next
    case unknown
    show ?thesis
      by (rule that [OF br_handle_data [OF fit data l(1) unknown(2)] l(2-8)]) (use unknown(1) l(3) in simp_all)
  qed
qed

lemma stp_handle_ok:
  assumes ok: "stp_ok dc state" and fit: "headers_fit packet" and dev: "pkt_device packet < dc"
    and which: "stp_tick state packet \<or> is_bpdu packet"
  obtains state' packet' out where "stp_handle state 0 packet = Some (state', packet', out, True)" "stp_ok dc state'"
    "stp_vector_of state' \<le> stp_vector_of state" "out \<in> {[], [Net_Flood UPDATE_ETHER_ADDRS]}"
proof (cases "stp_tick state packet")
  case True
  have "stp_ok dc (state\<lparr>stp_last_update_time := time\<rparr>)"
    "stp_vector_of (state\<lparr>stp_last_update_time := time\<rparr>) = stp_vector_of state" for time
    using ok by (simp_all add: stp_ok_def stp_vector_of_def)
  note upd = this and finish = that
  from fit True show ?thesis
    by (rule stp_handle_tick) (rule finish, assumption, use upd in simp_all)
next
  case False
  with which have bpdu: "is_bpdu packet" by simp
  note finish = that
  from ok fit dev bpdu False show ?thesis
  proof (cases rule: stp_handle_bpdu)
    case worse
    show ?thesis by (rule finish [OF worse(2)]) (use ok in \<open>simp_all add: stp_ok_def stp_vector_of_def\<close>)
  next
    case same
    show ?thesis by (rule finish [OF same(3) ok]) simp_all
  next
    case (better d state')
    have "stp_root_port state' = pkt_device packet"
      using better(3) by (simp add: stp_vector_of_def bpdu_vector_def)
    then have "stp_ok dc state'" using ok dev better(5) by (simp add: stp_ok_def)
    then show ?thesis by (rule finish [OF better(2)]) (use better(1,3) in simp_all)
  qed
qed

section \<open>Initialisation\<close>

lemma stp_init_correct:
  "stp_init om dc self t = Some (state, om') \<Longrightarrow> 0 < dc \<Longrightarrow>
   stp_ok dc state \<and> stp_vector_of state = Stp_Vector self 0 0 \<and> stp_self state = self"
  by (auto simp: stp_init_def stp_ok_def stp_vector_of_def split: Option.bind_splits)

text \<open>A bridge starts with itself as the root and an empty database.\<close>

lemma br_init_correct:
  assumes "alloc_ok om" "br_nf_init cfg om dc = Some (Some (st, om'))"
  obtains n self where "br_ok n dc st" "\<And>a d t. \<not> br_has st a d t"
    "stp_vector_of (br_stp st) = Stp_Vector self 0 0" "os_config_get_u64 cfg ''bid'' = Some (Some self)"
    "os_config_get_size cfg ''capacity'' = Some (Some n)"
proof -
  from assms(2) obtain self e n u stp om0 a1 om1 a2 om2 m om3 p where c: "\<not> dc < 2"
    "os_config_get_u64 cfg ''bid'' = Some (Some self)" "os_config_get_size cfg ''capacity'' = Some (Some n)"
    "stp_init om dc self u = Some (stp, om0)" "os_memory_alloc om0 n 6 = Some (a1, om1)"
    "os_memory_alloc om1 n 2 = Some (a2, om2)" "map_alloc om2 6 n = Some (m, om3)"
    "index_pool_alloc om3 n e = Some (p, om')"
    "st = \<lparr>br_stp = stp, br_addresses_addr = a1, br_addresses = replicate (unat n) 0,
      br_devices = replicate (unat n) 0, br_map = m, br_allocator = p\<rparr>"
    by (auto simp: br_nf_init_def split: if_splits Option.bind_splits option.splits)
  have small: "unat n < 2 ^ 58" by (rule os_config_get_size_bound [OF c(3)])
  from c(4) obtain b1 oma b2 where al: "os_memory_alloc om (ucast dc) 1 = Some (b1, oma)"
    "os_memory_alloc oma 1 32 = Some (b2, om0)" by (auto simp: stp_init_def split: Option.bind_splits)
  have "unat dc < 2 ^ 64" using unsigned_less [of dc, where ?'a = nat] by simp
  then have "alloc_ok oma" using os_memory_alloc_correct [OF assms(1) _ al(1)] by simp
  from os_memory_alloc_correct [OF this _ al(2)] have "alloc_ok om0" by simp
  from os_memory_alloc_correct [OF this _ c(5)] small have base: "a1 \<noteq> NULL" by simp
  have m6: "map_alloc om2 (of_nat 6) n = Some (m, om3)" using c(7) by simp
  have "unat n \<le> 2 ^ 63" using small by simp
  note fresh = mac_keys.ok_alloc [OF m6 c(8) this _ base, of "replicate (unat n) 0", simplified]
  have "0 < dc" using c(1) by (simp add: word_less_nat_alt)
  note stp = stp_init_correct [OF c(4) this]
  show ?thesis
    by (rule that [of n self]) (use fresh stp c(2,3,9) in \<open>simp_all add: br_ok_def br_has_def\<close>)
qed

section \<open>Properties\<close>

text \<open>A bridge with three devices and room for two addresses.\<close>

definition br_example :: bridge where
  "br_example = \<lparr>br_stp = stp_example, br_addresses_addr = 64, br_addresses = [0, 0], br_devices = [0, 0],
     br_map = empty_cmap 2 6, br_allocator = empty_pool 2 1000\<rparr>"

lemma br_example_ok: "br_ok 2 3 br_example" "\<not> br_has br_example a d t"
  using stp_example_facts(1) by (simp_all add: br_ok_def br_has_def br_example_def empty_table_ok)

lemma br_example_expiration: "br_expiration br_example = 1000"
  by (simp add: br_expiration_def br_example_def)

lemma br_example_not_full: "\<not> br_full 2 br_example now"
  by (simp add: br_full_def br_example_def) (intro exI [of _ 0], simp)

definition br_example_packet :: "device_t \<Rightarrow> time_t \<Rightarrow> byte \<Rightarrow> byte \<Rightarrow> net_packet" where
  "br_example_packet dev time dst src =
     \<lparr>pkt_data = [2, 0, 0, 0, 0, dst, 2, 0, 0, 0, 0, src] @ replicate 48 0, pkt_length = 60, pkt_time = time, pkt_device = dev\<rparr>"

lemma br_example_packets:
  "headers_fit (br_example_packet 0 5 8 9)" "headers_fit (br_example_packet 1 6 9 8)"
  "br_data br_example (br_example_packet 0 5 8 9)" "br_data br_example (br_example_packet 1 6 9 8)"
  "br_unicast (br_example_packet 0 5 8 9)"
  "br_dst (br_example_packet 1 6 9 8) = br_src (br_example_packet 0 5 8 9)"
  "br_src (br_example_packet 1 6 9 8) \<noteq> br_src (br_example_packet 0 5 8 9)"
  by code_simp+

lemma br_example_packet_simps [simp]:
  "pkt_time (br_example_packet dev time dst src) = time" "pkt_device (br_example_packet dev time dst src) = dev"
  by (simp_all add: br_example_packet_def)

lemma br_handle_result:
  assumes "br_ok n dc st" "headers_fit packet" "pkt_time packet \<noteq> TIME_MAX" "pkt_device packet < dc"
  shows "\<exists>st' packet' out. br_nf_handle st packet = Some (st', packet', out) \<and> br_ok n dc st'
    \<and> stp_vector_of (br_stp st') \<le> stp_vector_of (br_stp st)
    \<and> (out \<in> {[], [Net_Flood UPDATE_ETHER_ADDRS], [Net_Flood_Except (stp_disabled_ports (br_stp st)) NONE]}
      \<or> (\<exists>d < dc. d \<noteq> pkt_device packet \<and> out = [Net_Transmit d NONE]))"
proof (cases "br_data st packet")
  case True
  from assms True show ?thesis
  proof (rule br_handle_data_correct)
    fix st' out assume a: "br_nf_handle st packet = Some (st', packet, out)" "br_ok n dc st'" "br_stp st' = br_stp st"
      and known: "\<And>d t. br_has st' (br_dst packet) d t \<Longrightarrow> out = (if d \<noteq> pkt_device packet then [Net_Transmit d NONE] else [])"
      and unknown: "(\<And>d t. \<not> br_has st' (br_dst packet) d t) \<Longrightarrow> out = [Net_Flood_Except (stp_disabled_ports (br_stp st)) NONE]"
    have "out \<in> {[], [Net_Flood_Except (stp_disabled_ports (br_stp st)) NONE]}
      \<or> (\<exists>d < dc. d \<noteq> pkt_device packet \<and> out = [Net_Transmit d NONE])"
    proof (cases "\<exists>d t. br_has st' (br_dst packet) d t")
      case True
      then obtain d t where h: "br_has st' (br_dst packet) d t" by blast
      then show ?thesis using known [OF h] br_has_bound [OF a(2) h] by auto
    qed (use unknown in blast)
    with a show ?thesis by (intro exI [of _ st'] exI [of _ packet] exI [of _ out]) auto
  qed
next
  case False
  have ok: "stp_ok dc (br_stp st)" using assms(1) by (simp add: br_ok_def)
  have which: "stp_tick (br_stp st) packet \<or> is_bpdu packet" using False by (auto simp: br_data_def)
  from ok assms(2,4) which show ?thesis
  proof (rule stp_handle_ok)
    fix stp packet' out assume a: "stp_handle (br_stp st) 0 packet = Some (stp, packet', out, True)" "stp_ok dc stp"
      "stp_vector_of stp \<le> stp_vector_of (br_stp st)" "out \<in> {[], [Net_Flood UPDATE_ETHER_ADDRS]}"
    have "br_ok n dc (st\<lparr>br_stp := stp\<rparr>)" using assms(1) a(2) by (simp add: br_ok_def)
    then show ?thesis using br_handle_stp [OF a(1)] a(3,4)
      by (intro exI [of _ "st\<lparr>br_stp := stp\<rparr>"] exI [of _ packet'] exI [of _ out]) auto
  qed
qed

lemma br_handle_frame:
  assumes "br_nf_handle st packet = Some (st', packet', out)"
  shows "length (pkt_data packet') = length (pkt_data packet) \<and> pkt_length packet' \<in> {pkt_length packet, 34}
    \<and> pkt_device packet' = pkt_device packet"
  using assms
  by (auto simp: br_nf_handle_def Let_def dest!: stp_handle_frame split: Option.bind_splits if_splits)

text \<open>
  C33: The bridge handles every packet whose headers lie in the buffer without an access out of
  bounds and keeps its database and its spanning tree state well-formed; what it knows about
  the root only gets better. The packet is dropped, flooded, or sent to one device that exists
  and is not the one it came from.
\<close>

theorem br_handle_total:
  assumes "br_ok n dc st" "headers_fit packet" "pkt_time packet \<noteq> TIME_MAX" "pkt_device packet < dc"
  shows "\<exists>st' packet' out. br_nf_handle st packet = Some (st', packet', out) \<and> br_ok n dc st'
    \<and> stp_vector_of (br_stp st') \<le> stp_vector_of (br_stp st)
    \<and> (out \<in> {[], [Net_Flood UPDATE_ETHER_ADDRS], [Net_Flood_Except (stp_disabled_ports (br_stp st)) NONE]}
      \<or> (\<exists>d < dc. d \<noteq> pkt_device packet \<and> out = [Net_Transmit d NONE]))"
  using assms by (rule br_handle_result)

theorem br_handle_total_witness:
  "\<exists>st' packet' out. br_nf_handle br_example stp_example_bpdu = Some (st', packet', out) \<and> br_ok 2 3 st'"
proof -
  have "pkt_time stp_example_bpdu \<noteq> TIME_MAX" "pkt_device stp_example_bpdu < 3" by code_simp+
  from br_handle_total [OF br_example_ok(1) stp_example_facts(2) this] show ?thesis by blast
qed

text \<open>
  C12: Learning and forwarding. After a data packet with an individual source address was handled,
  and the database had room for it or knew it, a data packet to that address goes to the device
  that the first one came from, and nowhere else, as long as the address has not expired.
\<close>

theorem br_learns:
  assumes "br_ok n dc st" "headers_fit q" "pkt_time q \<noteq> TIME_MAX" "pkt_device q < dc" "br_data st q" "br_unicast q"
    and "\<not> br_full n st (pkt_time q) \<or> br_has st (br_src q) d0 t0"
    and "headers_fit p" "pkt_time p \<noteq> TIME_MAX" "pkt_device p < dc" "br_data st p"
    and "br_dst p = br_src q" "br_src p \<noteq> br_src q" "pool_young (pkt_time p) (br_expiration st) (pkt_time q)"
  shows "\<exists>st1 out1 st2. br_nf_handle st q = Some (st1, q, out1)
    \<and> br_nf_handle st1 p = Some (st2, p,
        if pkt_device q \<noteq> pkt_device p then [Net_Transmit (pkt_device q) NONE] else [])"
  using assms(1-5)
proof (rule br_handle_data_correct)
  fix st1 out1 assume a: "br_nf_handle st q = Some (st1, q, out1)" "br_ok n dc st1" "br_stp st1 = br_stp st"
    "br_expiration st1 = br_expiration st"
    and learned: "br_unicast q \<Longrightarrow> (\<forall>d t. br_has st1 (br_src q) d t \<longleftrightarrow> d = pkt_device q \<and> t = pkt_time q)
      \<or> st1 = st \<and> (\<forall>d t. \<not> br_has st (br_src q) d t) \<and> br_full n st (pkt_time q)"
  have "br_has st1 (br_src q) (pkt_device q) (pkt_time q)"
    using learned [OF assms(6)] by (rule disjE) (use assms(7) in simp_all)
  note has = this
  have data: "br_data st1 p" using assms(11) a(3) by (simp add: br_data_def)
  from a(2) assms(8-10) data show ?thesis
  proof (rule br_handle_data_correct)
    fix st2 out2 assume b: "br_nf_handle st1 p = Some (st2, p, out2)"
      and keep: "\<And>a d t. a \<noteq> br_src p \<Longrightarrow> br_has st1 a d t \<Longrightarrow> pool_young (pkt_time p) (br_expiration st1) t \<Longrightarrow> br_has st2 a d t"
      and out: "\<And>d t. br_has st2 (br_dst p) d t \<Longrightarrow> out2 = (if d \<noteq> pkt_device p then [Net_Transmit d NONE] else [])"
    have "br_has st2 (br_src q) (pkt_device q) (pkt_time q)"
      by (rule keep [OF assms(13) [symmetric] has]) (simp add: a(4) assms(14))
    then have "out2 = (if pkt_device q \<noteq> pkt_device p then [Net_Transmit (pkt_device q) NONE] else [])"
      using out assms(12) by simp
    with a(1) b show ?thesis by blast
  qed
qed

theorem br_learns_witness:
  "\<exists>st1 out1 st2. br_nf_handle br_example (br_example_packet 0 5 8 9) = Some (st1, br_example_packet 0 5 8 9, out1)
    \<and> br_nf_handle st1 (br_example_packet 1 6 9 8) = Some (st2, br_example_packet 1 6 9 8, [Net_Transmit 0 NONE])"
  using br_learns [OF br_example_ok(1) br_example_packets(1) _ _ br_example_packets(3,5) _
      br_example_packets(2) _ _ br_example_packets(4,6,7), of 0 0]
  by (simp add: TIME_MAX_def br_example_not_full pool_young_def br_example_expiration)

end
