(* ===== verification/Struct_Cht.thy ===== *)
theory Struct_Cht
  imports Struct_Index_Pool
begin

text \<open>
  The consistent hash table of the load balancer: \<open>env/src/structs/cht.c\<close>. Every backend has a
  preference list over the buckets (a permutation of them if the height is prime), and every
  bucket ends up with a list of all backends in order of preference.
\<close>

section \<open>The model\<close>

definition MAX_CHT_HEIGHT :: nat where
  "MAX_CHT_HEIGHT = 40000"

record cht =
  cht_data :: "u16 list"
  cht_height :: u16
  cht_backend_capacity :: u16

text \<open>\<open>k % capacity\<close>; a division by 0 has no defined result.\<close>

definition cht_loop :: "nat \<Rightarrow> nat \<Rightarrow> nat option" where
  "cht_loop k capacity = (if capacity = 0 then None else Some (k mod capacity))"

definition nth_opt :: "'a list \<Rightarrow> nat \<Rightarrow> 'a option" where
  "nth_opt xs i = (if i < length xs then Some (xs ! i) else None)"

definition upd_opt :: "'a list \<Rightarrow> nat \<Rightarrow> 'a \<Rightarrow> 'a list option" where
  "upd_opt xs i x = (if i < length xs then Some (xs[i := x]) else None)"

text \<open>
  The counters and products stay below \<open>2\<^sup>6\<^sup>4\<close>, since both parameters have 16 bits, and are
  naturals here.
\<close>

definition cht_permutations :: "nat \<Rightarrow> nat \<Rightarrow> u16 list \<Rightarrow> u16 list option" where
  "cht_permutations height backend_capacity permutations =
     for_upto 0 backend_capacity (\<lambda>i permutations. do {
       offset \<leftarrow> cht_loop (i * 31) height;
       s \<leftarrow> cht_loop i (height - 1);
       let shift = s + 1;
       for_upto 0 height (\<lambda>j permutations. do {
         permut \<leftarrow> cht_loop (offset + shift * j) height;
         upd_opt permutations (i * height + j) (of_nat permut) }) permutations }) permutations"

definition cht_fill :: "nat \<Rightarrow> nat \<Rightarrow> u16 list \<Rightarrow> size_t list \<times> u16 list \<Rightarrow> (size_t list \<times> u16 list) option" where
  "cht_fill height backend_capacity permutations =
     for_upto 0 height (\<lambda>i s.
       for_upto 0 backend_capacity (\<lambda>j (nxt, data). do {
         b \<leftarrow> nth_opt permutations (j * height + i);
         let bucket_id = unat b;
         priority \<leftarrow> nth_opt nxt bucket_id;
         nxt \<leftarrow> upd_opt nxt bucket_id (priority + 1);
         data \<leftarrow> upd_opt data (backend_capacity * bucket_id + unat priority) (of_nat j);
         Some (nxt, data) }) s)"

text \<open>
  The product of the parameters is an \<open>int\<close>, which must not overflow. The memory of
  \<open>permutations\<close> and \<open>next\<close> is never given back.
\<close>

definition cht_alloc :: "os_mem \<Rightarrow> u16 \<Rightarrow> u16 \<Rightarrow> (cht \<times> os_mem) option" where
  "cht_alloc om h bc =
     (let height = unat h; capacity = unat bc
      in if height * capacity \<ge> 2 ^ 31 then None
         else do {
           (c, om) \<leftarrow> os_memory_alloc om 1 16;
           (d, om) \<leftarrow> os_memory_alloc om (of_nat (height * capacity)) 2;
           (p, om) \<leftarrow> os_memory_alloc om (of_nat (height * capacity)) 2;
           permutations \<leftarrow> cht_permutations height capacity (replicate (height * capacity) 0);
           (x, om) \<leftarrow> os_memory_alloc om (of_nat height) 8;
           (nxt, data) \<leftarrow> cht_fill height capacity permutations (replicate height 0, replicate (height * capacity) 0);
           Some (\<lparr>cht_data = data, cht_height = h, cht_backend_capacity = bc\<rparr>, om) })"

fun cht_find_loop :: "cht \<Rightarrow> index_pool \<Rightarrow> time_t \<Rightarrow> nat \<Rightarrow> nat list \<Rightarrow> u16 option option" where
  "cht_find_loop cht active_backends time cht_bucket [] = Some None"
| "cht_find_loop cht active_backends time cht_bucket (i # is) = do {
     candidate \<leftarrow> nth_opt (cht_data cht) (cht_bucket + i);
     u \<leftarrow> index_pool_used active_backends time (ucast candidate);
     if u then Some (Some candidate) else cht_find_loop cht active_backends time cht_bucket is }"

definition cht_find_preferred_available_backend ::
    "cht \<Rightarrow> byte list \<Rightarrow> index_pool \<Rightarrow> time_t \<Rightarrow> u16 option option" where
  "cht_find_preferred_available_backend cht obj active_backends time = do {
     b \<leftarrow> cht_loop (unat (os_memory_hash obj)) (unat (cht_height cht));
     cht_find_loop cht active_backends time (b * unat (cht_backend_capacity cht))
       [0..<unat (cht_backend_capacity cht)] }"

text \<open>Evaluated on words: the hash is too large for the unary arithmetic of naturals.\<close>

lemma cht_find_code [code]:
  "cht_find_preferred_available_backend cht obj active_backends time =
     (if cht_height cht = 0 then None
      else cht_find_loop cht active_backends time
        (unat ((ucast (os_memory_hash obj) :: size_t) mod ucast (cht_height cht)) * unat (cht_backend_capacity cht))
        [0..<unat (cht_backend_capacity cht)])"
  by (simp add: cht_find_preferred_available_backend_def cht_loop_def unat_mod_distrib unat_eq_0)

section \<open>The permutations\<close>

lemma nth_opt_in [simp]: "i < length xs \<Longrightarrow> nth_opt xs i = Some (xs ! i)"
  by (simp add: nth_opt_def)

lemma upd_opt_in [simp]: "i < length xs \<Longrightarrow> upd_opt xs i x = Some (xs[i := x])"
  by (simp add: upd_opt_def)

definition perm :: "nat \<Rightarrow> nat \<Rightarrow> nat \<Rightarrow> nat" where
  "perm H i j = (i * 31 mod H + (i mod (H - 1) + 1) * j) mod H"

definition prime_height :: "nat \<Rightarrow> bool" where
  "prime_height H \<longleftrightarrow> 1 < H \<and> (\<forall>d. d dvd H \<longrightarrow> d = 1 \<or> d = H)"

lemma perm_less: "0 < H \<Longrightarrow> perm H i j < H"
  by (simp add: perm_def)

lemma coprime_shift:
  assumes "prime_height H" "0 < s" "s < H"
  shows "coprime s H"
proof -
  have "gcd s H dvd H" by simp
  then have "gcd s H = 1 \<or> gcd s H = H" using assms(1) by (simp add: prime_height_def)
  moreover have "gcd s H \<le> s" using assms(2) by simp
  ultimately show ?thesis using assms(3) by (auto simp: coprime_iff_gcd_eq_1)
qed

lemma perm_inj:
  assumes H: "prime_height H" and j: "j < H" "k < H" and eq: "perm H i j = perm H i k"
  shows "j = k"
proof -
  let ?o = "int (i * 31 mod H)" and ?s = "int (i mod (H - 1) + 1)"
  have H1: "1 < H" using H by (simp add: prime_height_def)
  then have "i mod (H - 1) < H - 1" by simp
  then have "coprime (i mod (H - 1) + 1) H" using H1 by (intro coprime_shift [OF H]) linarith+
  then have cop: "coprime ?s (int H)" by (simp only: coprime_int_iff)
  have "int (perm H i j) = int (perm H i k)" using eq by simp
  then have "(?o + ?s * int j) mod int H = (?o + ?s * int k) mod int H"
    unfolding perm_def by (simp only: zmod_int of_nat_add of_nat_mult)
  then have "int H dvd (?o + ?s * int j) - (?o + ?s * int k)" by (simp only: mod_eq_dvd_iff)
  then have "int H dvd ?s * (int j - int k)" by (simp add: algebra_simps)
  then have "int H dvd int j - int k"
    using cop by (metis coprime_commute coprime_dvd_mult_right_iff)
  moreover have "\<bar>int j - int k\<bar> < int H" using j by linarith
  ultimately have "int j - int k = 0" using dvd_imp_le_int [of "int j - int k" "int H"] by linarith
  then show ?thesis by simp
qed

lemma perm_surj:
  assumes "prime_height H" "b < H"
  obtains j where "j < H" "perm H i j = b"
proof -
  have "inj_on (perm H i) {..<H}" using perm_inj [OF assms(1)] by (auto intro: inj_onI)
  moreover have "perm H i ` {..<H} \<subseteq> {..<H}" using assms(2) perm_less by fastforce
  ultimately have "perm H i ` {..<H} = {..<H}" by (simp add: endo_inj_surj)
  then show ?thesis using that assms(2) by (metis image_iff lessThan_iff)
qed

text \<open>Rows of \<open>H\<close> entries, one after the other.\<close>

lemma flat_index: "i < B \<Longrightarrow> j < H \<Longrightarrow> i * H + j < B * (H :: nat)"
proof -
  assume "i < B" "j < H"
  then have "i * H + j < Suc i * H" by simp
  also have "\<dots> \<le> B * H" using \<open>i < B\<close> by (intro mult_le_mono1) simp
  finally show ?thesis .
qed

lemma flat_index_inj: "j < H \<Longrightarrow> j' < H \<Longrightarrow> i * H + j = i' * H + j' \<longleftrightarrow> i = i' \<and> j = (j' :: nat)"
  by (metis add.commute div_mult_self1 div_less gr_implies_not0 mod_less mod_mult_self1 add_0)

definition perms_upto :: "nat \<Rightarrow> nat \<Rightarrow> nat \<Rightarrow> nat \<Rightarrow> u16 list \<Rightarrow> bool" where
  "perms_upto H B i j ps \<longleftrightarrow> length ps = H * B
     \<and> (\<forall>i' < B. \<forall>j' < H. i' < i \<or> i' = i \<and> j' < j \<longrightarrow> ps ! (i' * H + j') = of_nat (perm H i' j'))"

lemma perms_upto_row: "perms_upto H B i H ps \<Longrightarrow> perms_upto H B (Suc i) 0 ps"
  unfolding perms_upto_def by (auto simp: less_Suc_eq)

lemma cht_permutations_correct:
  assumes "1 < H" "length ps = H * B"
  shows "\<exists>ps'. cht_permutations H B ps = Some ps' \<and> perms_upto H B B 0 ps'"
  unfolding cht_permutations_def
proof (rule for_upto_invariant [where P = "\<lambda>i. perms_upto H B i 0"])
  show "perms_upto H B 0 0 ps" using assms(2) by (simp add: perms_upto_def)
next
  fix i ps assume i: "i < B" and inv: "perms_upto H B i 0 ps"
  have loops: "cht_loop (i * 31) H = Some (i * 31 mod H)" "cht_loop i (H - 1) = Some (i mod (H - 1))"
    using assms(1) by (simp_all add: cht_loop_def)
  have "\<exists>ps'. for_upto 0 H (\<lambda>j permutations. do {
       permut \<leftarrow> cht_loop (i * 31 mod H + (i mod (H - 1) + 1) * j) H;
       upd_opt permutations (i * H + j) (of_nat permut) }) ps = Some ps' \<and> perms_upto H B i H ps'"
  proof (rule for_upto_invariant [where P = "perms_upto H B i"])
    fix j ps assume j: "j < H" and inv: "perms_upto H B i j ps"
    have b: "i * H + j < length ps" using inv flat_index [OF i j] by (simp add: perms_upto_def mult.commute)
    have "cht_loop (i * 31 mod H + (i mod (H - 1) + 1) * j) H = Some (perm H i j)"
      using assms(1) by (simp add: cht_loop_def perm_def)
    moreover have "perms_upto H B i (Suc j) (ps[i * H + j := of_nat (perm H i j)])"
      using inv b j flat_index_inj [OF j]
      by (auto simp: perms_upto_def nth_list_update less_Suc_eq)
    ultimately show "\<exists>s'. do {
       permut \<leftarrow> cht_loop (i * 31 mod H + (i mod (H - 1) + 1) * j) H;
       upd_opt ps (i * H + j) (of_nat permut) } = Some s' \<and> perms_upto H B i (Suc j) s'"
      using b by simp
  qed (use inv in simp_all)
  then show "\<exists>s'. do {
       offset \<leftarrow> cht_loop (i * 31) H;
       s \<leftarrow> cht_loop i (H - 1);
       let shift = s + 1;
       for_upto 0 H (\<lambda>j permutations. do {
         permut \<leftarrow> cht_loop (offset + shift * j) H;
         upd_opt permutations (i * H + j) (of_nat permut) }) ps } = Some s' \<and> perms_upto H B (Suc i) 0 s'"
    using loops perms_upto_row by (auto simp: Let_def)
qed simp
section \<open>The buckets\<close>

text \<open>
  The pairs of a round and a backend that the filling loop has gone through, and those of them
  whose preference is a given bucket: they are what the bucket holds, in that order.
\<close>

definition done_pairs :: "nat \<Rightarrow> nat \<Rightarrow> nat \<Rightarrow> (nat \<times> nat) list" where
  "done_pairs B i j = concat (map (\<lambda>i'. map (Pair i') [0..<B]) [0..<i]) @ map (Pair i) [0..<j]"

definition hits :: "nat \<Rightarrow> nat \<Rightarrow> (nat \<times> nat) list \<Rightarrow> (nat \<times> nat) list" where
  "hits H b = filter (\<lambda>(i, j). perm H j i = b)"

lemma set_done_pairs: "set (done_pairs B i j) = {(i', j'). i' < i \<and> j' < B \<or> i' = i \<and> j' < j}"
  by (auto simp: done_pairs_def)

lemma distinct_rows: "distinct (concat (map (\<lambda>i'. map (Pair i') [0..<B]) [0..<i]))"
  by (induction i) (auto simp: distinct_map inj_on_def)

lemma distinct_done_pairs: "distinct (done_pairs B i j)"
  unfolding done_pairs_def using distinct_rows [of B i]
  by (auto simp: distinct_map inj_on_def)

lemma done_pairs_Suc: "done_pairs B i (Suc j) = done_pairs B i j @ [(i, j)]"
  by (simp add: done_pairs_def)

lemma done_pairs_row: "done_pairs B i B = done_pairs B (Suc i) 0"
  by (simp add: done_pairs_def)

lemma hits_append: "hits H b (xs @ [(i, j)]) = hits H b xs @ (if perm H j i = b then [(i, j)] else [])"
  by (simp add: hits_def)

lemma distinct_hit_backends:
  assumes "prime_height H" "i < H \<or> i = H \<and> j = 0"
  shows "distinct (map snd (hits H b (done_pairs B i j)))"
  unfolding distinct_map
proof
  show "distinct (hits H b (done_pairs B i j))" by (simp add: hits_def distinct_done_pairs)
  show "inj_on snd (set (hits H b (done_pairs B i j)))"
  proof (rule inj_onI)
    fix x y
    assume x: "x \<in> set (hits H b (done_pairs B i j))" and y: "y \<in> set (hits H b (done_pairs B i j))"
      and eq: "snd x = snd y"
    obtain i1 i2 k where xy: "x = (i1, k)" "y = (i2, k)" using eq by (metis prod.collapse)
    have "i1 < H" "i2 < H" "perm H k i1 = b" "perm H k i2 = b"
      using x y assms(2) by (auto simp: xy hits_def set_done_pairs)
    then show "x = y" using perm_inj [OF assms(1), of i1 i2 k] by (simp add: xy)
  qed
qed

text \<open>A bucket has room for its next entry, because no backend prefers it twice.\<close>

lemma hits_room:
  assumes "prime_height H" "i < H" "j < B"
  shows "length (hits H (perm H j i) (done_pairs B i j)) < B"
proof -
  let ?js = "map snd (hits H (perm H j i) (done_pairs B i j))"
  have "j \<notin> set ?js"
  proof
    assume "j \<in> set ?js"
    then obtain i' where hit: "(i', j) \<in> set (hits H (perm H j i) (done_pairs B i j))" by force
    have "perm H j i' = perm H j i" using hit by (simp add: hits_def)
    moreover have "i' < i" using hit by (simp add: hits_def set_done_pairs)
    ultimately show False using perm_inj [OF assms(1), of i' i j] assms(2) by simp
  qed
  moreover have "set ?js \<subseteq> {..<B}" using assms(3) by (auto simp: hits_def set_done_pairs)
  ultimately have "set ?js \<subseteq> {..<B} - {j}" by blast
  then have "card (set ?js) \<le> card ({..<B} - {j})" by (intro card_mono) auto
  moreover have "card (set ?js) = length ?js"
    using distinct_hit_backends [OF assms(1)] assms(2) by (intro distinct_card) blast
  ultimately show ?thesis using assms(3) by simp
qed

definition fill_inv :: "nat \<Rightarrow> nat \<Rightarrow> nat \<Rightarrow> nat \<Rightarrow> size_t list \<times> u16 list \<Rightarrow> bool" where
  "fill_inv H B i j s \<longleftrightarrow> length (fst s) = H \<and> length (snd s) = H * B
     \<and> (\<forall>b < H. let L = hits H b (done_pairs B i j) in
          unat (fst s ! b) = length L \<and> length L \<le> B
        \<and> take (length L) (drop (B * b) (snd s)) = map (of_nat \<circ> snd) L)"

lemma fill_inv_D:
  "fill_inv H B i j s \<Longrightarrow> b < H \<Longrightarrow> unat (fst s ! b) = length (hits H b (done_pairs B i j))
    \<and> length (hits H b (done_pairs B i j)) \<le> B
    \<and> take (length (hits H b (done_pairs B i j))) (drop (B * b) (snd s))
      = map (of_nat \<circ> snd) (hits H b (done_pairs B i j))"
  unfolding fill_inv_def Let_def by blast

lemma take_drop_update_append:
  assumes "off + n < length xs"
  shows "take (Suc n) (drop off (xs[off + n := x])) = take n (drop off xs) @ [x]"
  using assms by (simp add: take_Suc_conv_app_nth drop_update_swap)

lemma take_drop_update_other:
  assumes "k < off \<or> off + n \<le> k"
  shows "take n (drop off (xs[k := x])) = take n (drop off xs)"
  using assms by (auto simp: drop_update_cancel drop_update_swap take_update_cancel)

lemma fill_step:
  assumes H: "prime_height H" and B: "B < 2 ^ 16" and i: "i < H" and j: "j < B" and inv: "fill_inv H B i j (nxt, data)"
  defines "b \<equiv> perm H j i"
  shows "b < length nxt" "B * b + unat (nxt ! b) < length data"
    "fill_inv H B i (Suc j) (nxt[b := nxt ! b + 1], data[B * b + unat (nxt ! b) := of_nat j])"
proof -
  let ?L = "\<lambda>b. hits H b (done_pairs B i j)"
  have len: "length nxt = H" "length data = H * B" using inv by (simp_all add: fill_inv_def)
  have b: "b < H" using i by (simp add: b_def perm_less)
  then show b1: "b < length nxt" by (simp add: len)
  have room: "length (?L b) < B" unfolding b_def by (rule hits_room [OF H i j])
  have old: "unat (nxt ! c) = length (?L c)" "length (?L c) \<le> B"
    "take (length (?L c)) (drop (B * c) data) = map (of_nat \<circ> snd) (?L c)" if "c < H" for c
    using fill_inv_D [OF inv that] by simp_all
  show b2: "B * b + unat (nxt ! b) < length data"
    using flat_index [OF b room] old(1) [OF b] len by (simp add: mult.commute)
  have nb: "unat (nxt ! b + 1) = Suc (length (?L b))"
    using old(1) [OF b] room B by (simp add: unat_word_ariths)
  have "unat (nxt[b := nxt ! b + 1] ! c) = length (hits H c (done_pairs B i (Suc j)))
    \<and> length (hits H c (done_pairs B i (Suc j))) \<le> B
    \<and> take (length (hits H c (done_pairs B i (Suc j)))) (drop (B * c) (data[B * b + unat (nxt ! b) := of_nat j]))
      = map (of_nat \<circ> snd) (hits H c (done_pairs B i (Suc j)))" if c: "c < H" for c
  proof (cases "c = b")
    case True
    have hits': "hits H b (done_pairs B i (Suc j)) = ?L b @ [(i, j)]"
      by (simp add: done_pairs_Suc hits_append b_def)
    have "B * b + length (?L b) < length data" using b2 old(1) [OF b] by simp
    from take_drop_update_append [OF this] show ?thesis
      using nb room b1 old [OF b] by (simp add: True hits')
  next
    case False
    have hits': "hits H c (done_pairs B i (Suc j)) = ?L c"
      using False by (simp add: done_pairs_Suc hits_append b_def)
    have "B * b + unat (nxt ! b) < B * c \<or> B * c + length (?L c) \<le> B * b + unat (nxt ! b)"
    proof (cases "b < c")
      case True
      have "B * b + unat (nxt ! b) < B * Suc b" using room old(1) [OF b] by simp
      also have "\<dots> \<le> B * c" using True by (intro mult_le_mono2) simp
      finally show ?thesis ..
    next
      case False
      with \<open>c \<noteq> b\<close> have "B * Suc c \<le> B * b" by (intro mult_le_mono2) simp
      with old(2) [OF c] show ?thesis by simp
    qed
    from take_drop_update_other [where xs = data and x = "of_nat j", OF this] show ?thesis
      using old [OF c] False by (simp add: hits')
  qed
  then show "fill_inv H B i (Suc j) (nxt[b := nxt ! b + 1], data[B * b + unat (nxt ! b) := of_nat j])"
    by (simp add: fill_inv_def Let_def len)
qed

lemma cht_fill_correct:
  assumes H: "prime_height H" "H < 2 ^ 16" and B: "B < 2 ^ 16" and ps: "perms_upto H B B 0 ps"
  shows "\<exists>nxt data. cht_fill H B ps (replicate H 0, replicate (H * B) 0) = Some (nxt, data)
    \<and> fill_inv H B H 0 (nxt, data)"
proof -
  have perm: "nth_opt ps (j * H + i) = Some (of_nat (perm H j i))"
    and unat_perm: "unat (of_nat (perm H j i) :: u16) = perm H j i" if "i < H" "j < B" for i j
  proof -
    have "ps ! (j * H + i) = of_nat (perm H j i)" using ps that by (simp add: perms_upto_def)
    moreover have "j * H + i < length ps"
      using ps flat_index [OF that(2,1)] by (simp add: perms_upto_def mult.commute)
    ultimately show "nth_opt ps (j * H + i) = Some (of_nat (perm H j i))" by simp
    have "perm H j i < 2 ^ 16" using perm_less [of H j i] that(1) H(2) by linarith
    then show "unat (of_nat (perm H j i) :: u16) = perm H j i" by (intro unat_of_nat_less) simp
  qed
  have "\<exists>s. cht_fill H B ps (replicate H 0, replicate (H * B) 0) = Some s \<and> fill_inv H B H 0 s"
    unfolding cht_fill_def
  proof (rule for_upto_invariant [where P = "\<lambda>i. fill_inv H B i 0"])
    show "fill_inv H B 0 0 (replicate H 0, replicate (H * B) 0)"
      by (simp add: fill_inv_def done_pairs_def hits_def)
  next
    fix i s assume i: "i < H" and inv: "fill_inv H B i 0 s"
    have "\<exists>s'. for_upto 0 B (\<lambda>j (nxt, data). do {
         b \<leftarrow> nth_opt ps (j * H + i);
         let bucket_id = unat b;
         priority \<leftarrow> nth_opt nxt bucket_id;
         nxt \<leftarrow> upd_opt nxt bucket_id (priority + 1);
         data \<leftarrow> upd_opt data (B * bucket_id + unat priority) (of_nat j);
         Some (nxt, data) }) s = Some s' \<and> fill_inv H B i B s'"
    proof (rule for_upto_invariant [where P = "fill_inv H B i"])
      fix j s assume j: "j < B" and inv: "fill_inv H B i j s"
      obtain nxt data where s: "s = (nxt, data)" by fastforce
      note step = fill_step [OF H(1) B i j inv [unfolded s]]
      show "\<exists>s'. (case s of (nxt, data) \<Rightarrow> do {
         b \<leftarrow> nth_opt ps (j * H + i);
         let bucket_id = unat b;
         priority \<leftarrow> nth_opt nxt bucket_id;
         nxt \<leftarrow> upd_opt nxt bucket_id (priority + 1);
         data \<leftarrow> upd_opt data (B * bucket_id + unat priority) (of_nat j);
         Some (nxt, data) }) = Some s' \<and> fill_inv H B i (Suc j) s'"
        using step perm [OF i j] unat_perm [OF i j] by (simp add: s Let_def)
    qed (use inv in simp_all)
    then show "\<exists>s'. for_upto 0 B (\<lambda>j (nxt, data). do {
         b \<leftarrow> nth_opt ps (j * H + i);
         let bucket_id = unat b;
         priority \<leftarrow> nth_opt nxt bucket_id;
         nxt \<leftarrow> upd_opt nxt bucket_id (priority + 1);
         data \<leftarrow> upd_opt data (B * bucket_id + unat priority) (of_nat j);
         Some (nxt, data) }) s = Some s' \<and> fill_inv H B (Suc i) 0 s'"
      by (simp add: fill_inv_def done_pairs_row)
  qed simp
  then show ?thesis by fastforce
qed
lemma hits_complete:
  assumes "prime_height H" "b < H"
  shows "length (hits H b (done_pairs B H 0)) = B" "snd ` set (hits H b (done_pairs B H 0)) = {..<B}"
proof -
  let ?L = "hits H b (done_pairs B H 0)"
  have "j \<in> snd ` set ?L" if "j < B" for j
  proof -
    obtain i where "i < H" "perm H j i = b" by (rule perm_surj [OF assms])
    then have "(i, j) \<in> set ?L" using that by (simp add: hits_def set_done_pairs)
    then show ?thesis by force
  qed
  moreover have "snd ` set ?L \<subseteq> {..<B}" by (auto simp: hits_def set_done_pairs)
  ultimately show js: "snd ` set ?L = {..<B}" by blast
  have "length (map snd ?L) = card (set (map snd ?L))"
    using distinct_card [OF distinct_hit_backends [OF assms(1)]] by simp
  then show "length ?L = B" using js by simp
qed

section \<open>Contract\<close>

text \<open>The backends of a bucket in order of preference; every bucket lists every backend.\<close>

definition cht_bucket :: "cht \<Rightarrow> nat \<Rightarrow> u16 list" where
  "cht_bucket c b = take (unat (cht_backend_capacity c)) (drop (b * unat (cht_backend_capacity c)) (cht_data c))"

definition cht_ok :: "cht \<Rightarrow> bool" where
  "cht_ok c \<longleftrightarrow> 0 < unat (cht_height c)
     \<and> length (cht_data c) = unat (cht_height c) * unat (cht_backend_capacity c)
     \<and> (\<forall>b < unat (cht_height c). set (cht_bucket c b) = {i. i < cht_backend_capacity c})"

lemma of_nat_image_u16: "of_nat ` {..<unat n} = {i. i < n}" for n :: u16
proof (intro set_eqI iffI)
  fix x :: u16 assume "x \<in> {i. i < n}"
  then have "unat x \<in> {..<unat n}" by (simp add: word_less_nat_alt)
  then show "x \<in> of_nat ` {..<unat n}" by (intro image_eqI [of _ _ "unat x"]) simp_all
next
  fix x :: u16 assume "x \<in> of_nat ` {..<unat n}"
  then obtain k where k: "x = of_nat k" "k < unat n" by auto
  moreover have "unat n < 2 ^ 16" using unsigned_less [of n] by simp
  ultimately have "unat x = k" by (simp add: unat_of_nat_less)
  with k show "x \<in> {i. i < n}" by (simp add: word_less_nat_alt)
qed

lemma cht_alloc_correct:
  assumes "prime_height (unat h)" "cht_alloc om h bc = Some (c, om')"
  shows "cht_ok c" "cht_height c = h" "cht_backend_capacity c = bc"
proof -
  let ?H = "unat h" and ?B = "unat bc"
  have H: "1 < ?H" using assms(1) by (simp add: prime_height_def)
  have b16: "?H < 2 ^ 16" "?B < 2 ^ 16" using unsigned_less [of h] unsigned_less [of bc] by simp_all
  obtain ps where ps: "cht_permutations ?H ?B (replicate (?H * ?B) 0) = Some ps" "perms_upto ?H ?B ?B 0 ps"
    using cht_permutations_correct [OF H, of "replicate (?H * ?B) 0" ?B] by auto
  obtain nxt data where fill: "cht_fill ?H ?B ps (replicate ?H 0, replicate (?H * ?B) 0) = Some (nxt, data)"
    "fill_inv ?H ?B ?H 0 (nxt, data)"
    using cht_fill_correct [OF assms(1) b16 ps(2)] by blast
  have c: "c = \<lparr>cht_data = data, cht_height = h, cht_backend_capacity = bc\<rparr>"
    using assms(2) ps(1) fill(1) by (auto simp: cht_alloc_def Let_def split: if_splits Option.bind_splits)
  have "set (take ?B (drop (b * ?B) data)) = {i. i < bc}" if "b < ?H" for b
  proof -
    have "take ?B (drop (?B * b) data) = map (of_nat \<circ> snd) (hits ?H b (done_pairs ?B ?H 0))"
      using fill_inv_D [OF fill(2) that] hits_complete(1) [OF assms(1) that, of ?B] by simp
    then have "set (take ?B (drop (b * ?B) data)) = of_nat ` (snd ` set (hits ?H b (done_pairs ?B ?H 0)))"
      by (simp add: image_comp mult.commute)
    also have "\<dots> = {i. i < bc}" unfolding hits_complete(2) [OF assms(1) that] by (rule of_nat_image_u16)
    finally show ?thesis .
  qed
  moreover have "length data = ?H * ?B" using fill(2) by (simp add: fill_inv_def)
  ultimately show "cht_ok c" using H by (simp add: cht_ok_def cht_bucket_def c)
  show "cht_height c = h" "cht_backend_capacity c = bc" by (simp_all add: c)
qed

text \<open>A backend is alive while its last heartbeat is young.\<close>

definition pool_alive :: "index_pool \<Rightarrow> time_t \<Rightarrow> size_t \<Rightarrow> bool" where
  "pool_alive pool time i = (case pool_items pool i of None \<Rightarrow> False
     | Some t \<Rightarrow> pool_young time (ip_expiration_time pool) t)"

lemma index_pool_used_alive: "pool_inv pool \<Longrightarrow> index_pool_used pool time i = Some (pool_alive pool time i)"
  by (simp add: index_pool_used_correct pool_alive_def)

lemma cht_find_loop_correct:
  assumes "pool_inv pool" "\<forall>i \<in> set is. base + i < length (cht_data c)"
  shows "cht_find_loop c pool time base is
    = Some (find (\<lambda>b. pool_alive pool time (ucast b)) (map (\<lambda>i. cht_data c ! (base + i)) is))"
  using assms by (induction "is") (simp_all add: index_pool_used_alive)

text \<open>The lookup is the first alive backend in the bucket of the object's hash.\<close>

lemma cht_find_correct:
  assumes "cht_ok c" "pool_inv pool"
  shows "cht_find_preferred_available_backend c obj pool time
    = Some (find (\<lambda>b. pool_alive pool time (ucast b)) (cht_bucket c (unat (os_memory_hash obj) mod unat (cht_height c))))"
proof -
  let ?H = "unat (cht_height c)" and ?B = "unat (cht_backend_capacity c)"
  let ?b = "unat (os_memory_hash obj) mod ?H"
  have H: "0 < ?H" and len: "length (cht_data c) = ?H * ?B" using assms(1) by (simp_all add: cht_ok_def)
  have in_range: "?b * ?B + i < length (cht_data c)" if "i < ?B" for i
    using flat_index [of ?b ?H i ?B] that H len by simp
  have "?b * ?B + ?B \<le> length (cht_data c)"
  proof (cases ?B)
    case (Suc k)
    then show ?thesis using in_range [of k] by simp
  qed (simp add: len)
  then have "map (\<lambda>i. cht_data c ! (?b * ?B + i)) [0..<?B] = cht_bucket c ?b"
    unfolding cht_bucket_def by (intro nth_equalityI) simp_all
  then show ?thesis
    using H cht_find_loop_correct [OF assms(2), of "[0..<?B]" "?b * ?B" c time] in_range
    by (simp add: cht_find_preferred_available_backend_def cht_loop_def)
qed

lemma cht_find_result:
  assumes "cht_ok c" "pool_inv pool" "cht_find_preferred_available_backend c obj pool time = Some r"
  shows "case r of None \<Rightarrow> \<forall>b < cht_backend_capacity c. \<not> pool_alive pool time (ucast b)
    | Some b \<Rightarrow> b < cht_backend_capacity c \<and> pool_alive pool time (ucast b)"
proof -
  let ?b = "unat (os_memory_hash obj) mod unat (cht_height c)"
  have s: "set (cht_bucket c ?b) = {i. i < cht_backend_capacity c}"
    using assms(1) by (simp add: cht_ok_def)
  have r: "r = find (\<lambda>b. pool_alive pool time (ucast b)) (cht_bucket c ?b)"
    using assms(3) cht_find_correct [OF assms(1,2)] by simp
  show ?thesis
  proof (cases r)
    case None
    then have "\<not> (\<exists>b. b \<in> set (cht_bucket c ?b) \<and> pool_alive pool time (ucast b))"
      using r [symmetric] by (simp add: find_None_iff)
    then show ?thesis using s None by auto
  next
    case (Some b)
    then have "b \<in> set (cht_bucket c ?b)" "pool_alive pool time (ucast b)"
      using r [symmetric] by (auto simp: find_Some_iff)
    then show ?thesis using s Some by auto
  qed
qed
section \<open>Properties\<close>

text \<open>
  C31: For a prime height the table is filled without a write out of bounds, and every bucket
  lists exactly the backends below the capacity.
\<close>

theorem cht_alloc_establishes:
  assumes "prime_height (unat h)" "cht_alloc om h bc = Some (c, om')"
  shows "cht_height c = h \<and> cht_backend_capacity c = bc \<and> length (cht_data c) = unat h * unat bc
    \<and> (\<forall>b < unat h. set (take (unat bc) (drop (b * unat bc) (cht_data c))) = {i. i < bc})"
  using cht_alloc_correct [OF assms] by (simp add: cht_ok_def cht_bucket_def)

lemma prime_height_3: "prime_height 3"
proof -
  have "d = 1 \<or> d = 3" if "d dvd 3" for d :: nat
  proof -
    have "d \<le> 3" using that by (intro dvd_imp_le) simp_all
    then have "d = 0 \<or> d = 1 \<or> d = 2 \<or> d = 3" by linarith
    with that show ?thesis by auto
  qed
  then show ?thesis by (simp add: prime_height_def)
qed

definition cht_example :: cht where
  "cht_example = \<lparr>cht_data = [0, 1, 1, 0, 0, 1], cht_height = 3, cht_backend_capacity = 2\<rparr>"

lemma cht_example_alloc:
  "cht_alloc \<lparr>mem_base = 4096, mem_used = 0\<rparr> 3 2 = Some (cht_example, \<lparr>mem_base = 4096, mem_used = 216\<rparr>)"
proof -
  have "os_memory_alloc \<lparr>mem_base = 4096, mem_used = 0\<rparr> 1 16 = Some (4096, \<lparr>mem_base = 4096, mem_used = 16\<rparr>)"
    "os_memory_alloc \<lparr>mem_base = 4096, mem_used = 16\<rparr> 6 2 = Some (4160, \<lparr>mem_base = 4096, mem_used = 76\<rparr>)"
    "os_memory_alloc \<lparr>mem_base = 4096, mem_used = 76\<rparr> 6 2 = Some (4224, \<lparr>mem_base = 4096, mem_used = 140\<rparr>)"
    "os_memory_alloc \<lparr>mem_base = 4096, mem_used = 140\<rparr> 3 8 = Some (4288, \<lparr>mem_base = 4096, mem_used = 216\<rparr>)"
    by (simp_all add: os_memory_alloc_def CACHE_LINE_SIZE_def OS_MEMORY_SIZE_def SIZE_MAX_def Let_def)
  moreover have "cht_permutations 3 2 (replicate 6 0) = Some [0, 1, 2, 1, 0, 2]"
    by code_simp
  moreover have "cht_fill 3 2 [0, 1, 2, 1, 0, 2] (replicate 3 0, replicate 6 0)
    = Some ([2, 2, 2], cht_data cht_example)" by code_simp
  ultimately show ?thesis by (simp add: cht_alloc_def cht_example_def)
qed
theorem cht_alloc_establishes_witness:
  "set (take 2 (drop 2 (cht_data cht_example))) = {i. i < 2}"
proof -
  have "prime_height (unat (3 :: u16))" using prime_height_3 by simp
  from cht_alloc_establishes [OF this cht_example_alloc]
  have "\<forall>b < unat (3 :: u16). set (take (unat (2 :: u16)) (drop (b * unat (2 :: u16)) (cht_data cht_example))) = {i. i < 2}"
    by blast
  from this [rule_format, of 1] show ?thesis by simp
qed

lemma cht_example_ok: "cht_ok cht_example"
  by (rule cht_alloc_correct [OF _ cht_example_alloc]) (simp add: prime_height_3)

text \<open>
  C30: A lookup ends without an access out of bounds and yields the first backend on the list of
  the object's bucket that is alive, that is, recorded in the pool and not expired at the given time. So it yields none
  exactly if no backend of the table is alive. This is stricter than the contract in \<open>cht.h\<close>,
  which ignores expiration and lets a lookup fail only if no backend is recorded at all.
\<close>

theorem cht_find_contract:
  assumes "cht_ok c" "pool_inv pool"
  shows "\<exists>r. cht_find_preferred_available_backend c obj pool time = Some r
    \<and> r = find (\<lambda>b. pool_alive pool time (ucast b)) (cht_bucket c (unat (os_memory_hash obj) mod unat (cht_height c)))
    \<and> (r = None \<longleftrightarrow> (\<forall>b < cht_backend_capacity c. \<not> pool_alive pool time (ucast b)))
    \<and> (\<forall>b. r = Some b \<longrightarrow> b < cht_backend_capacity c \<and> pool_alive pool time (ucast b))"
proof -
  obtain r where r: "cht_find_preferred_available_backend c obj pool time = Some r"
    using cht_find_correct [OF assms] by blast
  then have first: "r = find (\<lambda>b. pool_alive pool time (ucast b)) (cht_bucket c (unat (os_memory_hash obj) mod unat (cht_height c)))"
    using cht_find_correct [OF assms, of obj time] by simp
  have main: "(r = None \<longleftrightarrow> (\<forall>b < cht_backend_capacity c. \<not> pool_alive pool time (ucast b)))
    \<and> (\<forall>b. r = Some b \<longrightarrow> b < cht_backend_capacity c \<and> pool_alive pool time (ucast b))"
  proof (cases r)
    case None
    then show ?thesis using cht_find_result [OF assms r] by simp
  next
    case (Some b)
    then have "b < cht_backend_capacity c \<and> pool_alive pool time (ucast b)" using cht_find_result [OF assms r] by simp
    then show ?thesis unfolding Some by blast
  qed
  show ?thesis by (rule exI [of _ r], rule conjI [OF r conjI [OF first main]])
qed

text \<open>Two backends that were heard of at 40 and 10, and are given up after 20.\<close>

definition cht_example_pool :: index_pool where
  "cht_example_pool = \<lparr>ip_timestamps = [40, 10], ip_size = 2, ip_expiration_time = 20, ip_last_borrowed_index = 0\<rparr>"

lemma cht_example_pool_ok: "pool_inv cht_example_pool" "ip_expiration_time cht_example_pool = 20"
  by (simp_all add: pool_inv_def cht_example_pool_def)

theorem cht_find_contract_witness:
  "cht_find_preferred_available_backend cht_example [1, 0, 0, 0] cht_example_pool 50 = Some (Some 0)
    \<and> pool_alive cht_example_pool 50 0"
proof -
  have "cht_find_preferred_available_backend cht_example [1, 0, 0, 0] cht_example_pool 50 = Some (Some 0)"
    by code_simp
  with cht_find_contract [OF cht_example_ok cht_example_pool_ok(1), of "[1, 0, 0, 0]" 50] show ?thesis by auto
qed

text \<open>
  Both backends are recorded, but expired: the lookup fails, where the contract of \<open>cht.h\<close>
  promises a backend.
\<close>

lemma cht_find_expired:
  "cht_find_preferred_available_backend cht_example [1, 0, 0, 0] cht_example_pool 100 = Some None"
  "ip_timestamps cht_example_pool = [40, 10]"
  by code_simp+

lemma find_fewer:
  "find P xs = Some x \<Longrightarrow> Q x \<Longrightarrow> (\<And>y. Q y \<Longrightarrow> P y) \<Longrightarrow> find Q xs = Some x"
  by (induction xs) (auto split: if_splits)

text \<open>
  C29: The hashing is consistent: as long as the backend chosen for an object stays alive, the
  failure of other backends does not move the object.
\<close>

theorem cht_find_consistent:
  assumes "cht_ok c" "pool_inv pool" "pool_inv pool'"
    and "cht_find_preferred_available_backend c obj pool time = Some (Some b)"
    and "pool_alive pool' time' (ucast b)"
    and "\<And>i. pool_alive pool' time' i \<Longrightarrow> pool_alive pool time i"
  shows "cht_find_preferred_available_backend c obj pool' time' = Some (Some b)"
proof -
  let ?bs = "cht_bucket c (unat (os_memory_hash obj) mod unat (cht_height c))"
  have "find (\<lambda>b. pool_alive pool time (ucast b)) ?bs = Some b"
    using assms(4) cht_find_correct [OF assms(1,2)] by simp
  then have "find (\<lambda>b. pool_alive pool' time' (ucast b)) ?bs = Some b"
    by (rule find_fewer) (rule assms(5), rule assms(6))
  then show ?thesis using cht_find_correct [OF assms(1,3)] by simp
qed

theorem cht_find_consistent_witness:
  "cht_find_preferred_available_backend cht_example [1, 0, 0, 0] cht_example_pool 55 = Some (Some 0)"
proof (rule cht_find_consistent [OF cht_example_ok cht_example_pool_ok(1) cht_example_pool_ok(1)])
  show "cht_find_preferred_available_backend cht_example [1, 0, 0, 0] cht_example_pool 50 = Some (Some 0)"
    by code_simp
  show "pool_alive cht_example_pool 55 (ucast (0 :: u16))" by code_simp
  show "pool_alive cht_example_pool 50 i" if alive: "pool_alive cht_example_pool 55 i" for i
  proof -
    obtain t where t: "pool_items cht_example_pool i = Some t" "pool_young 55 20 t"
      using alive by (cases "pool_items cht_example_pool i") (simp_all add: pool_alive_def cht_example_pool_ok)
    then have "(35 :: time_t) \<le> t" by (simp add: pool_young_def)
    then have "(30 :: time_t) \<le> t" by (rule order_trans [rotated]) simp
    with t(1) show ?thesis by (simp add: pool_alive_def pool_young_def cht_example_pool_ok)
  qed
qed

text \<open>
  The height must be prime. For a height of 4 and 3 backends, which the load balancer's
  checks let through, filling the table writes out of bounds, whatever the allocator's state.
\<close>

theorem cht_alloc_nonprime_overflows: "cht_alloc om 4 3 = None"
proof -
  have "cht_permutations 4 3 (replicate 12 0) = Some [0, 1, 2, 3, 3, 1, 3, 1, 2, 1, 0, 3]"
    "cht_fill 4 3 [0, 1, 2, 3, 3, 1, 3, 1, 2, 1, 0, 3] (replicate 4 0, replicate 12 0) = None"
    by code_simp+
  then show ?thesis by (simp add: cht_alloc_def Let_def split: Option.bind_splits)
qed

end
