(* ===== verification/Nf_Maglev.thy ===== *)
theory Nf_Maglev
  imports Net_Flow Struct_Cht Os_Config
begin

text \<open>
  The load balancer: \<open>nf/maglev/balancer.h\<close> and \<open>nf/maglev/maglev.c\<close>. The last device receives the
  packets to balance, every other device leads to a backend; a packet from a backend is a
  heartbeat. A flow is sent to the backend remembered for it, if that one is alive, and else to
  the one the consistent hash table prefers.
\<close>

section \<open>The model\<close>

record balancer =
  bal_flow_indices :: cmap
  bal_flow_pool :: index_pool
  bal_flow_heap_addr :: addr
  bal_flow_heap :: "flow list"
  bal_flow_backends :: "device_t list"
  bal_backend_pool :: index_pool
  bal_cht :: cht

text \<open>\<open>sizeof (struct balancer)\<close> is 48.\<close>

definition balancer_alloc ::
    "os_mem \<Rightarrow> size_t \<Rightarrow> time_t \<Rightarrow> device_t \<Rightarrow> time_t \<Rightarrow> device_t \<Rightarrow> (balancer \<times> os_mem) option" where
  "balancer_alloc om flow_capacity flow_expiration_time backend_capacity backend_expiration_time height = do {
     (b, om) \<leftarrow> os_memory_alloc om 1 48;
     (flow_indices, om) \<leftarrow> map_alloc om 16 flow_capacity;
     (flow_pool, om) \<leftarrow> index_pool_alloc om flow_capacity flow_expiration_time;
     (flow_heap, om) \<leftarrow> os_memory_alloc om flow_capacity 16;
     (flow_backends, om) \<leftarrow> os_memory_alloc om flow_capacity 2;
     (backend_pool, om) \<leftarrow> index_pool_alloc om (ucast backend_capacity) backend_expiration_time;
     (cht, om) \<leftarrow> cht_alloc om height backend_capacity;
     Some (\<lparr>bal_flow_indices = flow_indices, bal_flow_pool = flow_pool, bal_flow_heap_addr = flow_heap,
            bal_flow_heap = replicate (unat flow_capacity) zero_flow,
            bal_flow_backends = replicate (unat flow_capacity) 0,
            bal_backend_pool = backend_pool, bal_cht = cht\<rparr>, om) }"

text \<open>
  The first half of \<open>balancer_get_backend\<close>: a known flow gets the backend remembered for it, or
  loses its entry if that backend is not alive.
\<close>

definition balancer_get_known :: "balancer \<Rightarrow> flow \<Rightarrow> time_t \<Rightarrow> (balancer \<times> device_t option) option" where
  "balancer_get_known bal flow time = do {
     let mem = key_mem flow_bytes (bal_flow_heap_addr bal) (bal_flow_heap bal);
     r \<leftarrow> map_get mem (bal_flow_indices bal) (flow_bytes flow);
     case r of
       None \<Rightarrow> Some (bal, None)
     | Some flow_index \<Rightarrow> do {
         backend \<leftarrow> arr_get (bal_flow_backends bal) flow_index;
         u \<leftarrow> index_pool_used (bal_backend_pool bal) time (ucast backend);
         if u then do {
           pool \<leftarrow> index_pool_refresh (bal_flow_pool bal) time flow_index;
           Some (bal\<lparr>bal_flow_pool := pool\<rparr>, Some backend) }
         else do {
           f \<leftarrow> arr_get (bal_flow_heap bal) flow_index;
           indices \<leftarrow> map_remove mem (bal_flow_indices bal) (flow_bytes f);
           pool \<leftarrow> index_pool_return (bal_flow_pool bal) flow_index;
           Some (bal\<lparr>bal_flow_indices := indices, bal_flow_pool := pool\<rparr>, None) } } }"

text \<open>The second half, from the call of the hash table on.\<close>

definition balancer_get_new :: "balancer \<Rightarrow> flow \<Rightarrow> time_t \<Rightarrow> (balancer \<times> device_t option) option" where
  "balancer_get_new bal flow time = do {
     let mem = key_mem flow_bytes (bal_flow_heap_addr bal) (bal_flow_heap bal);
     c \<leftarrow> cht_find_preferred_available_backend (bal_cht bal) (flow_bytes flow) (bal_backend_pool bal) time;
     case c of
       None \<Rightarrow> Some (bal, None)
     | Some backend \<Rightarrow> do {
         (pool, b) \<leftarrow> index_pool_borrow (bal_flow_pool bal) time;
         case b of
           None \<Rightarrow> Some (bal\<lparr>bal_flow_pool := pool\<rparr>, Some backend)
         | Some (flow_index, was_used) \<Rightarrow> do {
             old \<leftarrow> arr_get (bal_flow_heap bal) flow_index;
             indices \<leftarrow> (if was_used then map_remove mem (bal_flow_indices bal) (flow_bytes old)
                        else Some (bal_flow_indices bal));
             heap \<leftarrow> arr_set (bal_flow_heap bal) flow_index flow;
             indices \<leftarrow> map_set (key_mem flow_bytes (bal_flow_heap_addr bal) heap) indices
               (bal_flow_heap_addr bal + 16 * unat flow_index) flow_index;
             Some (bal\<lparr>bal_flow_heap := heap, bal_flow_indices := indices, bal_flow_pool := pool\<rparr>,
               Some backend) } } }"

definition balancer_get_backend :: "balancer \<Rightarrow> flow \<Rightarrow> time_t \<Rightarrow> (balancer \<times> device_t option) option" where
  "balancer_get_backend bal flow time = do {
     (bal, known) \<leftarrow> balancer_get_known bal flow time;
     case known of
       Some backend \<Rightarrow> Some (bal, Some backend)
     | None \<Rightarrow> balancer_get_new bal flow time }"

definition balancer_process_heartbeat :: "balancer \<Rightarrow> device_t \<Rightarrow> time_t \<Rightarrow> balancer option" where
  "balancer_process_heartbeat bal backend time = do {
     pool \<leftarrow> index_pool_refresh (bal_backend_pool bal) time (ucast backend);
     Some (bal\<lparr>bal_backend_pool := pool\<rparr>) }"

record maglev =
  mag_balancer :: balancer
  mag_devices_count :: device_t

definition mag_nf_init :: "config \<Rightarrow> os_mem \<Rightarrow> device_t \<Rightarrow> (maglev \<times> os_mem) option option" where
  "mag_nf_init cfg om devices_count =
     (if devices_count < 2 then Some None
      else do {
        let backend_capacity = devices_count - 1;
        f \<leftarrow> os_config_get_size cfg ''flow capacity'';
        case f of None \<Rightarrow> Some None | Some flow_capacity \<Rightarrow> do {
        h \<leftarrow> os_config_get_u16 cfg ''cht height'';
        case h of None \<Rightarrow> Some None | Some height \<Rightarrow> do {
        be \<leftarrow> os_config_get_time cfg ''backend expiration time'';
        case be of None \<Rightarrow> Some None | Some backend_expiration_time \<Rightarrow> do {
        fe \<leftarrow> os_config_get_time cfg ''flow expiration time'';
        case fe of None \<Rightarrow> Some None | Some flow_expiration_time \<Rightarrow>
          if height = 0 \<or> unat height \<ge> MAX_CHT_HEIGHT then Some None
          else if backend_capacity \<ge> height then Some None
          else do {
            (bal, om) \<leftarrow> balancer_alloc om flow_capacity flow_expiration_time backend_capacity
              backend_expiration_time height;
            Some (Some (\<lparr>mag_balancer = bal, mag_devices_count = devices_count\<rparr>, om)) } } } } })"

definition mag_nf_handle :: "maglev \<Rightarrow> net_packet \<Rightarrow> (maglev \<times> net_packet \<times> tx list) option" where
  "mag_nf_handle st packet = do {
     let d = pkt_data packet;
     (ok1, ether_header) \<leftarrow> net_get_ether_header packet;
     if \<not> ok1 then Some (st, packet, []) else do {
     (ok2, ipv4_header) \<leftarrow> net_get_ipv4_header d ether_header;
     if \<not> ok2 then Some (st, packet, []) else do {
     (ok3, tcpudp_header) \<leftarrow> net_get_tcpudp_header d ipv4_header;
     if \<not> ok3 then Some (st, packet, [])
     else if pkt_device packet < mag_devices_count st - 1 then do {
       bal \<leftarrow> balancer_process_heartbeat (mag_balancer st) (pkt_device packet) (pkt_time packet);
       Some (st\<lparr>mag_balancer := bal\<rparr>, packet, []) }
     else do {
       saddr \<leftarrow> ip_src_addr d ipv4_header;
       daddr \<leftarrow> ip_dst_addr d ipv4_header;
       sport \<leftarrow> l4_src_port d tcpudp_header;
       dport \<leftarrow> l4_dst_port d tcpudp_header;
       proto \<leftarrow> ip_next_proto_id d ipv4_header;
       let flow = \<lparr>src_ip = saddr, dst_ip = daddr, src_port = sport, dst_port = dport, protocol = proto\<rparr>;
       (bal, r) \<leftarrow> balancer_get_backend (mag_balancer st) flow (pkt_time packet);
       case r of
         None \<Rightarrow> Some (st\<lparr>mag_balancer := bal\<rparr>, packet, [])
       | Some backend \<Rightarrow> Some (st\<lparr>mag_balancer := bal\<rparr>, packet, [Net_Transmit backend NONE]) } } } }"

section \<open>The balancer\<close>

text \<open>
  For \<open>n\<close> flows and \<open>bc\<close> backends. The remembered backends are all 0: the program reads
  \<open>flow_backends\<close> but never writes it.
\<close>

definition bal_ok :: "size_t \<Rightarrow> device_t \<Rightarrow> balancer \<Rightarrow> bool" where
  "bal_ok n bc bal \<longleftrightarrow>
     table_ok flow_bytes 16 n (bal_flow_heap_addr bal) (bal_flow_heap bal) (bal_flow_indices bal) (bal_flow_pool bal)
   \<and> bal_flow_backends bal = replicate (unat n) 0
   \<and> pool_inv (bal_backend_pool bal) \<and> ip_size (bal_backend_pool bal) = ucast bc
   \<and> cht_ok (bal_cht bal) \<and> cht_backend_capacity (bal_cht bal) = bc"

definition bal_holds :: "balancer \<Rightarrow> flow \<Rightarrow> time_t \<Rightarrow> bool" where
  "bal_holds bal flow t \<longleftrightarrow> table_holds (bal_flow_heap bal) (bal_flow_pool bal) flow t"

text \<open>Whether a backend is alive, by its last heartbeat.\<close>

definition bal_alive :: "balancer \<Rightarrow> time_t \<Rightarrow> device_t \<Rightarrow> bool" where
  "bal_alive bal time b \<longleftrightarrow> pool_alive (bal_backend_pool bal) time (ucast b)"

lemma bal_alive_bound: "bal_ok n bc bal \<Longrightarrow> bal_alive bal time b \<Longrightarrow> b < bc"
proof -
  assume "bal_ok n bc bal" "bal_alive bal time b"
  then have "(ucast b :: size_t) < ucast bc"
    using pool_items_dom by (fastforce simp: bal_alive_def pool_alive_def bal_ok_def split: option.splits)
  then show "b < bc" by (simp add: word_less_nat_alt)
qed

lemma bal_get_known_correct:
  assumes ok: "bal_ok n bc bal" and t: "time \<noteq> TIME_MAX"
  obtains (remembered) bal' where "balancer_get_known bal flow time = Some (bal', Some 0)" "bal_ok n bc bal'"
      "bal_backend_pool bal' = bal_backend_pool bal" "bal_alive bal time 0"
      "\<And>t. bal_holds bal' flow t \<longleftrightarrow> t = time" "\<exists>t. bal_holds bal flow t"
  | (none) bal' where "balancer_get_known bal flow time = Some (bal', None)" "bal_ok n bc bal'"
      "bal_backend_pool bal' = bal_backend_pool bal" "\<And>t. \<not> bal_holds bal' flow t"
      "bal_cht bal' = bal_cht bal" "\<And>t. bal_holds bal flow t \<Longrightarrow> \<not> bal_alive bal time 0"
proof -
  have tab: "table_ok flow_bytes 16 n (bal_flow_heap_addr bal) (bal_flow_heap bal) (bal_flow_indices bal) (bal_flow_pool bal)"
    and bk: "bal_flow_backends bal = replicate (unat n) 0" and bp: "pool_inv (bal_backend_pool bal)"
    using ok by (simp_all add: bal_ok_def)
  show ?thesis
    using tab
  proof (cases rule: flow_keys.ok_lookup [where key = flow])
    case (known i t0)
    have "i < n" by (rule table_maps_bound [OF tab known(1)])
    then have get: "arr_get (bal_flow_backends bal) i = Some 0" by (simp add: bk word_less_nat_alt)
    have used: "index_pool_used (bal_backend_pool bal) time (ucast (0 :: device_t)) = Some (bal_alive bal time 0)"
      by (simp only: bal_alive_def index_pool_used_alive [OF bp])
    have held: "bal_holds bal flow t0" using known(1) by (auto simp: bal_holds_def table_holds_def)
    show ?thesis
    proof (cases "bal_alive bal time 0")
      case True
      from tab known(1) t show ?thesis
      proof (rule flow_keys.ok_refresh)
        fix pool' assume p: "index_pool_refresh (bal_flow_pool bal) time i = Some pool'"
          "table_ok flow_bytes 16 n (bal_flow_heap_addr bal) (bal_flow_heap bal) (bal_flow_indices bal) pool'"
          "\<And>key' j t. table_maps (bal_flow_heap bal) pool' key' j t \<longleftrightarrow>
            (if j = i then key' = flow \<and> t = time else table_maps (bal_flow_heap bal) (bal_flow_pool bal) key' j t)"
        have "balancer_get_known bal flow time = Some (bal\<lparr>bal_flow_pool := pool'\<rparr>, Some 0)"
          using known(2) get used True p(1) by (simp add: balancer_get_known_def)
        moreover have "bal_holds (bal\<lparr>bal_flow_pool := pool'\<rparr>) flow t \<longleftrightarrow> t = time" for t
          using table_holds_refresh [OF tab known(1) p(3), of flow t] by (simp add: bal_holds_def)
        ultimately show ?thesis
          using remembered [of "bal\<lparr>bal_flow_pool := pool'\<rparr>"] ok p(2) True held
          by (auto simp: bal_ok_def bal_alive_def)
      qed
    next
      case False
      from tab known(1) show ?thesis
      proof (rule flow_keys.ok_forget)
        fix m' pool' assume p: "map_remove (key_mem flow_bytes (bal_flow_heap_addr bal) (bal_flow_heap bal))
            (bal_flow_indices bal) (flow_bytes flow) = Some m'"
          "index_pool_return (bal_flow_pool bal) i = Some pool'"
          "table_ok flow_bytes 16 n (bal_flow_heap_addr bal) (bal_flow_heap bal) m' pool'"
          "\<And>key' j t. table_maps (bal_flow_heap bal) pool' key' j t \<longleftrightarrow>
            j \<noteq> i \<and> table_maps (bal_flow_heap bal) (bal_flow_pool bal) key' j t"
        let ?bal' = "bal\<lparr>bal_flow_indices := m', bal_flow_pool := pool'\<rparr>"
        have f: "arr_get (bal_flow_heap bal) i = Some flow" using table_maps_nth [OF tab known(1)] by simp
        have run: "balancer_get_known bal flow time = Some (?bal', None)"
          using known(2) get used False f p(1,2) by (simp add: balancer_get_known_def)
        have gone: "\<not> bal_holds ?bal' flow t" for t
          using p(4) table_maps_unique [OF tab known(1)] by (auto simp: bal_holds_def table_holds_def)
        show ?thesis
          by (rule none [OF run _ _ gone]) (use ok p(3) False in \<open>simp_all add: bal_ok_def\<close>)
      qed
    qed
  next
    case unknown
    have run: "balancer_get_known bal flow time = Some (bal, None)"
      using unknown(2) by (simp add: balancer_get_known_def)
    have "\<not> bal_holds bal flow t" for t using unknown(1) by (simp add: bal_holds_def table_holds_def)
    then show ?thesis using none [OF run ok] by blast
  qed
qed
lemma bal_get_new_correct:
  assumes ok: "bal_ok n bc bal" and t: "time \<noteq> TIME_MAX" and fresh: "\<And>t. \<not> bal_holds bal flow t"
  obtains bal' r where "balancer_get_new bal flow time = Some (bal', r)" "bal_ok n bc bal'"
    "bal_backend_pool bal' = bal_backend_pool bal"
    "r = None \<longleftrightarrow> (\<forall>b. \<not> bal_alive bal time b)" "\<And>b. r = Some b \<Longrightarrow> bal_alive bal time b"
proof -
  note finish = that
  have tab: "table_ok flow_bytes 16 n (bal_flow_heap_addr bal) (bal_flow_heap bal) (bal_flow_indices bal) (bal_flow_pool bal)"
    and bp: "pool_inv (bal_backend_pool bal)" and cht: "cht_ok (bal_cht bal)" "cht_backend_capacity (bal_cht bal) = bc"
    using ok by (simp_all add: bal_ok_def)
  have unknown: "\<not> table_maps (bal_flow_heap bal) (bal_flow_pool bal) flow i t" for i t
    using fresh by (auto simp: bal_holds_def table_holds_def)
  obtain c where c: "cht_find_preferred_available_backend (bal_cht bal) (flow_bytes flow) (bal_backend_pool bal) time = Some c"
    using cht_find_correct [OF cht(1) bp] by blast
  note res = cht_find_result [OF cht(1) bp c, unfolded cht(2), folded bal_alive_def]
  show ?thesis
  proof (cases c)
    case None
    then have "\<not> bal_alive bal time b" for b using res bal_alive_bound [OF ok, of time b] by auto
    then show ?thesis
      using that [of bal None] c None ok by (simp add: balancer_get_new_def)
  next
    case (Some backend)
    then have alive: "bal_alive bal time backend" using res by simp
    have goal: ?thesis if "balancer_get_new bal flow time = Some (bal', Some backend)" "bal_ok n bc bal'"
      "bal_backend_pool bal' = bal_backend_pool bal" for bal'
      by (rule finish [OF that]) (use alive in auto)
    from tab unknown t show ?thesis
    proof (cases rule: flow_keys.ok_learn)
      case (learned pool' i was_used m1 m2)
      let ?bal' = "bal\<lparr>bal_flow_heap := (bal_flow_heap bal)[unat i := flow], bal_flow_indices := m2, bal_flow_pool := pool'\<rparr>"
      show ?thesis
      proof (rule goal [of ?bal'])
        show "balancer_get_new bal flow time = Some (?bal', Some backend)"
          using c Some learned(1,2,5,6) by (simp add: balancer_get_new_def)
      qed (use ok learned(7) in \<open>simp_all add: bal_ok_def\<close>)
    next
      case full
      show ?thesis
      proof (rule goal [of bal])
        show "balancer_get_new bal flow time = Some (bal, Some backend)"
          using c Some full(1) by (simp add: balancer_get_new_def)
      qed (use ok in simp_all)
    qed
  qed
qed

lemma bal_get_backend_correct:
  assumes ok: "bal_ok n bc bal" and t: "time \<noteq> TIME_MAX"
  obtains bal' r where "balancer_get_backend bal flow time = Some (bal', r)" "bal_ok n bc bal'"
    "bal_backend_pool bal' = bal_backend_pool bal"
    "r = None \<longleftrightarrow> (\<forall>b. \<not> bal_alive bal time b)" "\<And>b. r = Some b \<Longrightarrow> bal_alive bal time b"
    "\<And>t. bal_holds bal flow t \<Longrightarrow> bal_alive bal time 0 \<Longrightarrow> r = Some 0"
  using ok t
proof (cases rule: bal_get_known_correct [where flow = flow])
  case (remembered bal')
  show ?thesis
    by (rule that [of bal' "Some 0"]) (use remembered in \<open>auto simp: balancer_get_backend_def\<close>)
next
  case (none bal1)
  from none(2) t none(4) show ?thesis
  proof (rule bal_get_new_correct)
    fix bal' r assume a: "balancer_get_new bal1 flow time = Some (bal', r)" "bal_ok n bc bal'"
      "bal_backend_pool bal' = bal_backend_pool bal1" "r = None \<longleftrightarrow> (\<forall>b. \<not> bal_alive bal1 time b)"
      "\<And>b. r = Some b \<Longrightarrow> bal_alive bal1 time b"
    have alive: "bal_alive bal1 time b = bal_alive bal time b" for b using none(3) by (simp add: bal_alive_def)
    have run: "balancer_get_backend bal flow time = Some (bal', r)"
      using none(1) a(1) by (simp add: balancer_get_backend_def)
    show ?thesis
    proof (rule that [OF run a(2)])
      show "bal_backend_pool bal' = bal_backend_pool bal" using a(3) none(3) by simp
      show "(r = None) = (\<forall>b. \<not> bal_alive bal time b)" using a(4) by (simp add: alive)
      show "bal_alive bal time b" if "r = Some b" for b using a(5) [OF that] by (simp add: alive)
      show "r = Some 0" if "bal_holds bal flow t" "bal_alive bal time 0" for t using none(6) that by blast
    qed
  qed
qed

lemma bal_heartbeat_correct:
  assumes ok: "bal_ok n bc bal" and b: "b < bc" and t: "time \<noteq> TIME_MAX"
  obtains bal' where "balancer_process_heartbeat bal b time = Some bal'" "bal_ok n bc bal'"
    "\<And>now. bal_alive bal' now b \<longleftrightarrow> pool_young now (ip_expiration_time (bal_backend_pool bal)) time"
    "\<And>now c. c \<noteq> b \<Longrightarrow> bal_alive bal' now c = bal_alive bal now c"
proof -
  have bp: "pool_inv (bal_backend_pool bal)" "(ucast b :: size_t) < ip_size (bal_backend_pool bal)"
    using ok b by (simp_all add: bal_ok_def word_less_nat_alt)
  obtain pool' where p: "index_pool_refresh (bal_backend_pool bal) time (ucast b) = Some pool'" "pool_inv pool'"
    "ip_size pool' = ip_size (bal_backend_pool bal)"
    "ip_expiration_time pool' = ip_expiration_time (bal_backend_pool bal)"
    "pool_items pool' = (pool_items (bal_backend_pool bal))(ucast b \<mapsto> time)"
    using index_pool_refresh_correct [OF bp t] by blast
  have ne: "pool_items pool' (ucast c) = pool_items (bal_backend_pool bal) (ucast c)" if "c \<noteq> b" for c :: device_t
  proof -
    have "unat (ucast c :: size_t) \<noteq> unat (ucast b :: size_t)" using that by (simp add: word_unat_eq_iff)
    then have "(ucast c :: size_t) \<noteq> ucast b" by (rule contrapos_nn) (rule arg_cong)
    then show ?thesis using p(5) by simp
  qed
  show ?thesis
  proof (rule that [of "bal\<lparr>bal_backend_pool := pool'\<rparr>"])
    show "balancer_process_heartbeat bal b time = Some (bal\<lparr>bal_backend_pool := pool'\<rparr>)"
      using p(1) by (simp add: balancer_process_heartbeat_def)
    show "bal_ok n bc (bal\<lparr>bal_backend_pool := pool'\<rparr>)" using ok p(2,3) by (simp add: bal_ok_def)
    show "bal_alive (bal\<lparr>bal_backend_pool := pool'\<rparr>) now b
      \<longleftrightarrow> pool_young now (ip_expiration_time (bal_backend_pool bal)) time" for now
      by (simp add: bal_alive_def pool_alive_def p(4,5))
    show "bal_alive (bal\<lparr>bal_backend_pool := pool'\<rparr>) now c = bal_alive bal now c" if "c \<noteq> b" for now c
      using ne [OF that] by (simp add: bal_alive_def pool_alive_def p(4) split: option.split)
  qed
qed

section \<open>The packet handler\<close>

lemma mag_handle_other:
  assumes "headers_fit packet" "\<not> is_tcpudp packet"
  shows "mag_nf_handle st packet = Some (st, packet, [])"
  using assms by (rule not_tcpudp_headers) (simp_all add: mag_nf_handle_def Let_def header_reads)

lemma mag_handle_heartbeat:
  "headers_fit packet \<Longrightarrow> is_tcpudp packet \<Longrightarrow> pkt_device packet < mag_devices_count st - 1 \<Longrightarrow>
   balancer_process_heartbeat (mag_balancer st) (pkt_device packet) (pkt_time packet) = Some bal \<Longrightarrow>
   mag_nf_handle st packet = Some (st\<lparr>mag_balancer := bal\<rparr>, packet, [])"
  by (simp add: mag_nf_handle_def Let_def header_reads)

lemma mag_handle_client:
  "headers_fit packet \<Longrightarrow> is_tcpudp packet \<Longrightarrow> \<not> pkt_device packet < mag_devices_count st - 1 \<Longrightarrow>
   balancer_get_backend (mag_balancer st) (packet_flow packet) (pkt_time packet) = Some (bal, r) \<Longrightarrow>
   mag_nf_handle st packet = Some (st\<lparr>mag_balancer := bal\<rparr>, packet,
     case r of None \<Rightarrow> [] | Some b \<Rightarrow> [Net_Transmit b NONE])"
  by (simp add: mag_nf_handle_def Let_def header_reads split: option.splits)

definition mag_ok :: "size_t \<Rightarrow> maglev \<Rightarrow> bool" where
  "mag_ok n st \<longleftrightarrow> 2 \<le> mag_devices_count st \<and> bal_ok n (mag_devices_count st - 1) (mag_balancer st)"
lemma mag_handle_ok:
  assumes ok: "mag_ok n st" and "headers_fit packet" "pkt_time packet \<noteq> TIME_MAX"
    and run: "mag_nf_handle st packet = Some (st', packet', out)"
  shows "mag_ok n st'"
proof (cases "is_tcpudp packet")
  case False
  then show ?thesis using mag_handle_other [OF assms(2)] run ok by simp
next
  case tcp: True
  have b: "bal_ok n (mag_devices_count st - 1) (mag_balancer st)" using ok by (simp add: mag_ok_def)
  show ?thesis
  proof (cases "pkt_device packet < mag_devices_count st - 1")
    case True
    from b True assms(3) show ?thesis
      by (rule bal_heartbeat_correct)
        (use mag_handle_heartbeat [OF assms(2) tcp True] run ok in \<open>auto simp: mag_ok_def\<close>)
  next
    case False
    from b assms(3) show ?thesis
      by (rule bal_get_backend_correct [where flow = "packet_flow packet"])
        (use mag_handle_client [OF assms(2) tcp False] run ok in \<open>auto simp: mag_ok_def\<close>)
  qed
qed

lemma mag_handle_total:
  assumes ok: "mag_ok n st" and fit: "headers_fit packet" and time: "pkt_time packet \<noteq> TIME_MAX"
  shows "\<exists>st' out. mag_nf_handle st packet = Some (st', packet, out) \<and> mag_ok n st' \<and> mag_devices_count st' = mag_devices_count st
    \<and> (out = [] \<or> \<not> pkt_device packet < mag_devices_count st - 1 \<and> (\<exists>b < mag_devices_count st - 1. out = [Net_Transmit b NONE]))"
proof (cases "is_tcpudp packet")
  case False
  then show ?thesis using mag_handle_other [OF fit] ok by auto
next
  case tcp: True
  have b: "bal_ok n (mag_devices_count st - 1) (mag_balancer st)" using ok by (simp add: mag_ok_def)
  show ?thesis
  proof (cases "pkt_device packet < mag_devices_count st - 1")
    case True
    from b True time show ?thesis
      by (rule bal_heartbeat_correct)
        (use mag_handle_heartbeat [OF fit tcp True] ok in \<open>auto simp: mag_ok_def\<close>)
  next
    case False
    from b time show ?thesis
      by (rule bal_get_backend_correct [where flow = "packet_flow packet"])
        (use mag_handle_client [OF fit tcp False] ok False bal_alive_bound [OF b] in \<open>auto simp: mag_ok_def split: option.splits\<close>)
  qed
qed

section \<open>Properties\<close>

text \<open>Two backends and two flows; backends are given up after 20, flows after 1000.\<close>

definition mag_example :: maglev where
  "mag_example = \<lparr>mag_balancer =
     \<lparr>bal_flow_indices = empty_cmap 2 16, bal_flow_pool = empty_pool 2 1000, bal_flow_heap_addr = 64,
      bal_flow_heap = [zero_flow, zero_flow], bal_flow_backends = [0, 0],
      bal_backend_pool = cht_example_pool, bal_cht = cht_example\<rparr>, mag_devices_count = 3\<rparr>"

lemma mag_example_ok: "mag_ok 2 mag_example" "mag_devices_count mag_example = 3"
  using cht_example_ok cht_example_pool_ok(1)
  by (simp_all add: mag_ok_def mag_example_def bal_ok_def empty_table_ok)
    (simp_all add: cht_example_pool_def cht_example_def numeral_2_eq_2)

definition mag_client :: "time_t \<Rightarrow> net_packet" where
  "mag_client time = example_udp 2 time [10, 0, 0, 1, 20, 0, 0, 2, 3, 0, 2, 0]"

lemma mag_client_facts: "headers_fit (mag_client time)" "is_tcpudp (mag_client time)"
  "pkt_time (mag_client time) = time" "pkt_device (mag_client time) = 2"
proof -
  have "headers_fit (mag_client 0)" "is_tcpudp (mag_client 0)" by code_simp+
  then show "headers_fit (mag_client time)" "is_tcpudp (mag_client time)"
    by (simp_all add: headers_fit_def is_tcpudp_def mag_client_def example_udp_def)
qed (simp_all add: mag_client_def example_udp_def)

text \<open>
  C13: The load balancer handles every packet whose headers lie in the buffer without an access
  out of bounds and keeps its tables well-formed. A TCP or UDP packet from the client side is
  sent, unchanged, to one backend that is alive, that is, recorded and not expired; it is dropped exactly if no backend is alive.
  The specification in \<open>nf/maglev/spec.py\<close> allows a drop only if no backend is recorded, expired
  or not, which the code does not satisfy.
\<close>

theorem mag_balances:
  assumes "mag_ok n st" "headers_fit packet" "is_tcpudp packet" "pkt_time packet \<noteq> TIME_MAX"
    "pkt_device packet = mag_devices_count st - 1"
  shows "\<exists>st' out. mag_nf_handle st packet = Some (st', packet, out) \<and> mag_ok n st'
    \<and> (if \<exists>b. bal_alive (mag_balancer st) (pkt_time packet) b
       then \<exists>b. out = [Net_Transmit b NONE] \<and> bal_alive (mag_balancer st) (pkt_time packet) b
         \<and> b < mag_devices_count st - 1
       else out = [])"
proof -
  have ok: "bal_ok n (mag_devices_count st - 1) (mag_balancer st)" using assms(1) by (simp add: mag_ok_def)
  from ok assms(4) show ?thesis
  proof (rule bal_get_backend_correct [where flow = "packet_flow packet"])
    fix bal' r assume a: "balancer_get_backend (mag_balancer st) (packet_flow packet) (pkt_time packet) = Some (bal', r)"
      "bal_ok n (mag_devices_count st - 1) bal'"
      "r = None \<longleftrightarrow> (\<forall>b. \<not> bal_alive (mag_balancer st) (pkt_time packet) b)"
      "\<And>b. r = Some b \<Longrightarrow> bal_alive (mag_balancer st) (pkt_time packet) b"
    have client: "\<not> pkt_device packet < mag_devices_count st - 1" using assms(5) by simp
    note run = mag_handle_client [OF assms(2,3) client a(1)]
    have ok': "mag_ok n (st\<lparr>mag_balancer := bal'\<rparr>)" using assms(1) a(2) by (simp add: mag_ok_def)
    show ?thesis
    proof (cases r)
      case None
      then show ?thesis using run ok' a(3) by auto
    next
      case (Some b)
      then show ?thesis using run ok' a(4) [OF Some] bal_alive_bound [OF ok] by auto
    qed
  qed
qed

theorem mag_balances_witness:
  "\<exists>st' b. mag_nf_handle mag_example (mag_client 45) = Some (st', mag_client 45, [Net_Transmit b NONE])
    \<and> b < 2 \<and> mag_ok 2 st'"
proof -
  have "bal_alive (mag_balancer mag_example) 45 0" by code_simp
  then have "Ex (bal_alive (mag_balancer mag_example) 45)" by blast
  with mag_balances [OF mag_example_ok(1) mag_client_facts(1,2), of 45] show ?thesis
    by (auto simp: mag_client_facts mag_example_ok TIME_MAX_def)
qed

text \<open>Both backends are recorded, at 40 and 10, but have expired: the packet is dropped.\<close>

lemma mag_drops_expired:
  "map_option snd (mag_nf_handle mag_example (mag_client 100)) = Some (mag_client 100, [])"
  by code_simp

text \<open>
  A packet from a backend's device is a heartbeat: nothing is sent, the backend counts as
  alive as long as its expiration time has not passed, and no other backend is affected.
\<close>

theorem mag_heartbeat:
  assumes "mag_ok n st" "headers_fit packet" "is_tcpudp packet" "pkt_time packet \<noteq> TIME_MAX"
    "pkt_device packet < mag_devices_count st - 1"
  shows "\<exists>st'. mag_nf_handle st packet = Some (st', packet, []) \<and> mag_ok n st'
    \<and> (\<forall>now. bal_alive (mag_balancer st') now (pkt_device packet)
        \<longleftrightarrow> pool_young now (ip_expiration_time (bal_backend_pool (mag_balancer st))) (pkt_time packet))
    \<and> (\<forall>now b. b \<noteq> pkt_device packet
        \<longrightarrow> bal_alive (mag_balancer st') now b = bal_alive (mag_balancer st) now b)"
proof -
  have ok: "bal_ok n (mag_devices_count st - 1) (mag_balancer st)" using assms(1) by (simp add: mag_ok_def)
  from ok assms(5,4) show ?thesis
  proof (rule bal_heartbeat_correct)
    fix bal' assume a: "balancer_process_heartbeat (mag_balancer st) (pkt_device packet) (pkt_time packet) = Some bal'"
      "bal_ok n (mag_devices_count st - 1) bal'"
      "\<And>now. bal_alive bal' now (pkt_device packet)
        \<longleftrightarrow> pool_young now (ip_expiration_time (bal_backend_pool (mag_balancer st))) (pkt_time packet)"
      "\<And>now c. c \<noteq> pkt_device packet \<Longrightarrow> bal_alive bal' now c = bal_alive (mag_balancer st) now c"
    from mag_handle_heartbeat [OF assms(2,3,5) a(1)] a(2-4) assms(1) show ?thesis
      by (intro exI [of _ "st\<lparr>mag_balancer := bal'\<rparr>"]) (simp add: mag_ok_def)
  qed
qed

theorem mag_heartbeat_witness:
  "\<exists>st'. mag_nf_handle mag_example example_request = Some (st', example_request, [])
    \<and> bal_alive (mag_balancer st') 25 0"
proof -
  have "pkt_time example_request \<noteq> TIME_MAX" "pkt_device example_request < mag_devices_count mag_example - 1"
    by (simp_all add: example_packets mag_example_ok TIME_MAX_def)
  moreover have "pool_young 25 (ip_expiration_time (bal_backend_pool (mag_balancer mag_example))) 5"
    by (simp add: mag_example_def cht_example_pool_ok pool_young_def)
  ultimately show ?thesis
    using mag_heartbeat [OF mag_example_ok(1) example_packets(1,3)] by (auto simp: example_packets)
qed

text \<open>
  The balancer does not remember the backend of a flow. Once a flow has an entry, its packets
  go to backend 0 whenever backend 0 is alive, whatever backend they were sent to before.
\<close>

theorem mag_known_flow_to_backend_0:
  assumes "mag_ok n st" "headers_fit packet" "is_tcpudp packet" "pkt_time packet \<noteq> TIME_MAX"
    "pkt_device packet = mag_devices_count st - 1"
    "bal_holds (mag_balancer st) (packet_flow packet) t" "bal_alive (mag_balancer st) (pkt_time packet) 0"
  shows "\<exists>st'. mag_nf_handle st packet = Some (st', packet, [Net_Transmit 0 NONE])"
proof -
  have ok: "bal_ok n (mag_devices_count st - 1) (mag_balancer st)" using assms(1) by (simp add: mag_ok_def)
  have client: "\<not> pkt_device packet < mag_devices_count st - 1" using assms(5) by simp
  from ok assms(4) show ?thesis
    by (rule bal_get_backend_correct [where flow = "packet_flow packet"])
      (use mag_handle_client [OF assms(2,3) client] assms(6,7) in fastforce)
qed

text \<open>A flow whose preferred backend is 1 is first sent there, then to backend 0.\<close>

definition mag_heard :: maglev where
  "mag_heard = mag_example\<lparr>mag_balancer := (mag_balancer mag_example)
     \<lparr>bal_backend_pool := cht_example_pool\<lparr>ip_timestamps := [TIME_MAX, 40]\<rparr>\<rparr>\<rparr>"

definition mag_beat :: net_packet where
  "mag_beat = example_udp 0 46 (replicate 12 0)"

lemma mag_beat_facts: "headers_fit mag_beat" "is_tcpudp mag_beat" "pkt_time mag_beat = 46"
  by code_simp+

lemma mag_heard_ok: "mag_ok 2 mag_heard"
  using mag_example_ok(1)
  by (simp add: mag_ok_def mag_heard_def bal_ok_def pool_inv_def cht_example_pool_def mag_example_def)

lemma mag_heard_run:
  "\<exists>st1 st2. mag_nf_handle mag_heard (mag_client 45) = Some (st1, mag_client 45, [Net_Transmit 1 NONE])
    \<and> mag_nf_handle st1 mag_beat = Some (st2, mag_beat, [])
    \<and> bal_alive (mag_balancer st2) 47 0 \<and> bal_alive (mag_balancer st2) 47 1
    \<and> mag_devices_count st2 = 3 \<and> bal_holds (mag_balancer st2) (packet_flow (mag_client 47)) 45"
proof -
  have "(case mag_nf_handle mag_heard (mag_client 45) of None \<Rightarrow> False
    | Some (st1, p1, out1) \<Rightarrow> p1 = mag_client 45 \<and> out1 = [Net_Transmit 1 NONE]
        \<and> (case mag_nf_handle st1 mag_beat of None \<Rightarrow> False
          | Some (st2, p2, out2) \<Rightarrow> p2 = mag_beat \<and> out2 = []
              \<and> bal_alive (mag_balancer st2) 47 0 \<and> bal_alive (mag_balancer st2) 47 1
              \<and> mag_devices_count st2 = 3
              \<and> table_maps (bal_flow_heap (mag_balancer st2)) (bal_flow_pool (mag_balancer st2))
                  (packet_flow (mag_client 47)) 0 45))" by code_simp
  then obtain st1 st2 where "mag_nf_handle mag_heard (mag_client 45) = Some (st1, mag_client 45, [Net_Transmit 1 NONE])"
    "mag_nf_handle st1 mag_beat = Some (st2, mag_beat, [])"
    "bal_alive (mag_balancer st2) 47 0 \<and> bal_alive (mag_balancer st2) 47 1 \<and> mag_devices_count st2 = 3"
    and m: "table_maps (bal_flow_heap (mag_balancer st2)) (bal_flow_pool (mag_balancer st2))
      (packet_flow (mag_client 47)) 0 45"
    by (clarsimp split: option.split_asm prod.split_asm)
  moreover have "bal_holds (mag_balancer st2) (packet_flow (mag_client 47)) 45"
    unfolding bal_holds_def table_holds_def using m by blast
  ultimately show ?thesis by blast
qed

theorem mag_known_flow_to_backend_0_witness:
  "\<exists>st1 st2 st3. mag_nf_handle mag_heard (mag_client 45) = Some (st1, mag_client 45, [Net_Transmit 1 NONE])
    \<and> mag_nf_handle st1 mag_beat = Some (st2, mag_beat, []) \<and> bal_alive (mag_balancer st2) 47 1
    \<and> mag_nf_handle st2 (mag_client 47) = Some (st3, mag_client 47, [Net_Transmit 0 NONE])"
proof -
  obtain st1 st2 where a: "mag_nf_handle mag_heard (mag_client 45) = Some (st1, mag_client 45, [Net_Transmit 1 NONE])"
    "mag_nf_handle st1 mag_beat = Some (st2, mag_beat, [])" "bal_alive (mag_balancer st2) 47 0"
    "bal_alive (mag_balancer st2) 47 1" "mag_devices_count st2 = 3"
    "bal_holds (mag_balancer st2) (packet_flow (mag_client 47)) 45"
    using mag_heard_run by blast
  have "mag_ok 2 st1" by (rule mag_handle_ok [OF mag_heard_ok _ _ a(1)]) (simp_all add: mag_client_facts TIME_MAX_def)
  then have "mag_ok 2 st2" by (rule mag_handle_ok [OF _ _ _ a(2)]) (simp_all add: mag_beat_facts TIME_MAX_def)
  moreover have "pkt_time (mag_client 47) \<noteq> TIME_MAX" by (simp add: mag_client_facts TIME_MAX_def)
  moreover have "pkt_device (mag_client 47) = mag_devices_count st2 - 1" using a(5) by (simp add: mag_client_facts)
  moreover have "bal_alive (mag_balancer st2) (pkt_time (mag_client 47)) 0" using a(3) by (simp add: mag_client_facts)
  ultimately obtain st3 where "mag_nf_handle st2 (mag_client 47) = Some (st3, mag_client 47, [Net_Transmit 0 NONE])"
    using mag_known_flow_to_backend_0 [OF _ mag_client_facts(1,2) _ _ a(6)] by blast
  with a(1,2,4) show ?thesis by blast
qed
section \<open>Initialisation\<close>

text \<open>With a prime height the load balancer starts well-formed, with no flows and no live backend.\<close>

lemma mag_init_correct:
  assumes "alloc_ok om" "mag_nf_init cfg om dc = Some (Some (st, om'))"
    and height: "\<And>height. os_config_get_u16 cfg ''cht height'' = Some (Some height) \<Longrightarrow> prime_height (unat height)"
  obtains n where "mag_ok n st" "mag_devices_count st = dc" "\<And>f t. \<not> bal_holds (mag_balancer st) f t"
    "os_config_get_size cfg ''flow capacity'' = Some (Some n)"
proof -
  from assms(2) obtain n height be fe bal where c: "\<not> dc < 2"
    "os_config_get_size cfg ''flow capacity'' = Some (Some n)" "os_config_get_u16 cfg ''cht height'' = Some (Some height)"
    "balancer_alloc om n fe (dc - 1) be height = Some (bal, om')" "st = \<lparr>mag_balancer = bal, mag_devices_count = dc\<rparr>"
    by (auto simp: mag_nf_init_def Let_def split: if_splits Option.bind_splits option.splits)
  from c(4) obtain a1 om1 indices om2 pool om3 heap om4 a2 om5 backends om6 cht where al:
    "os_memory_alloc om 1 48 = Some (a1, om1)" "map_alloc om1 16 n = Some (indices, om2)"
    "index_pool_alloc om2 n fe = Some (pool, om3)" "os_memory_alloc om3 n 16 = Some (heap, om4)"
    "index_pool_alloc om5 (ucast (dc - 1)) be = Some (backends, om6)" "cht_alloc om6 height (dc - 1) = Some (cht, om')"
    "bal = \<lparr>bal_flow_indices = indices, bal_flow_pool = pool, bal_flow_heap_addr = heap,
       bal_flow_heap = replicate (unat n) zero_flow, bal_flow_backends = replicate (unat n) 0,
       bal_backend_pool = backends, bal_cht = cht\<rparr>"
    by (auto simp: balancer_alloc_def split: Option.bind_splits)
  have small: "unat n < 2 ^ 58" by (rule os_config_get_size_bound [OF c(2)])
  have "alloc_ok om1" using os_memory_alloc_correct [OF assms(1) _ al(1)] by simp
  then have "alloc_ok om2" by (rule map_alloc_ok [OF _ al(2) small])
  then have "alloc_ok om3" by (rule index_pool_alloc_ok [OF _ al(3)]) (use small in simp)
  from os_memory_alloc_correct [OF this _ al(4)] small have base: "heap \<noteq> NULL" by simp
  have m16: "map_alloc om1 (of_nat 16) n = Some (indices, om2)" using al(2) by simp
  have "unat n \<le> 2 ^ 63" using small by simp
  note table = flow_keys.ok_alloc [OF m16 al(3) this _ base, of "replicate (unat n) zero_flow", simplified]
  note parts = table index_pool_alloc_correct [OF al(5)] cht_alloc_correct [OF height [OF c(3)] al(6)]
  show ?thesis
    using parts c by (intro that [of n]) (simp_all add: mag_ok_def bal_ok_def bal_holds_def table_holds_def al(7) not_less)
qed

end
