(* ===== verification/Net_Main.thy ===== *)
theory Net_Main
  imports Os_Platform Net_Tx Ixgbe_Ring Nf_Firewall Nf_Nat Nf_Policer Nf_Nop Nf_Bridge Nf_Maglev Nf_Dhcp Nf_Router
begin

text \<open>
  The program: \<open>main\<close> of \<open>env/src/net/tinynf/main.c\<close>, which sets up the devices, the network
  function and the agents, and then runs the driver with the packet handler of \<open>Net_Tx\<close>. The build
  links one network function into it; its \<open>nf_init\<close> and \<open>nf_handle\<close> are arguments here. The locale
  \<open>network_function\<close> is what the program asks of them; it is interpreted on the network functions
  of the repository.
\<close>

section \<open>The code\<close>

text \<open>The loop over the devices: the set-up and the addresses.\<close>

function main_devices ::
    "'h hardware \<Rightarrow> os_pci_address list \<Rightarrow> size_t \<Rightarrow> size_t \<Rightarrow> tn_device list \<Rightarrow> ether_addr list \<Rightarrow> ether_addr list \<Rightarrow> 'h
     \<Rightarrow> (tn_device list \<times> ether_addr list \<times> ether_addr list, 'h) outcome" where
  "main_devices H pci_addresses devices_count n devices endpoint_macs device_macs h =
     (if n < devices_count then
        and_then (or_else Undefined (arr_get pci_addresses n) h) (\<lambda>pci_address h.
        and_then (or_else Undefined (arr_get devices n) h) (\<lambda>device h.
        and_then (tn_device_init H pci_address device h) (\<lambda>device h.
        let h = tn_device_set_promiscuous H device h in
        and_then (or_else Undefined (arr_set endpoint_macs n (endpoint_mac n)) h) (\<lambda>endpoint_macs h.
        let (mac, h) = tn_device_get_mac H device h in
        and_then (or_else Undefined (arr_set device_macs n (device_mac mac)) h) (\<lambda>device_macs h.
        main_devices H pci_addresses devices_count (n + 1) (devices[unat n := device]) endpoint_macs device_macs h)))))
      else (Inr (devices, endpoint_macs, device_macs), h))"
  by pat_completeness auto
termination
  by (relation "measure (\<lambda>(H, pci, devices_count, n, devices, endpoints, macs, h). unat (devices_count - n))")
    (rule wf_measure, simp_all only: in_measure prod.case word_loop_decreases)

declare main_devices.simps [simp del]

function main_agents ::
    "'h hardware \<Rightarrow> size_t \<Rightarrow> size_t \<Rightarrow> tn_device list \<Rightarrow> tn_agent list \<Rightarrow> os_mem \<Rightarrow> 'h
     \<Rightarrow> (tn_device list \<times> tn_agent list \<times> os_mem, 'h) outcome" where
  "main_agents H devices_count n devices agents om h =
     (if n < devices_count then
        and_then (or_else Undefined (arr_get agents n) h) (\<lambda>agent h.
        and_then (tn_agent_init H n devices_count devices agent om h) (\<lambda>(agent, devices, om) h.
        main_agents H devices_count (n + 1) devices (agents[unat n := agent]) om h))
      else (Inr (devices, agents, om), h))"
  by pat_completeness auto
termination
  by (relation "measure (\<lambda>(H, devices_count, n, devices, agents, om, h). unat (devices_count - n))")
    (rule wf_measure, simp_all only: in_measure prod.case word_loop_decreases)

declare main_agents.simps [simp del]

text \<open>
  The memory that \<open>os_memory_alloc\<close> gives is zero. \<open>devices_count\<close> is a \<open>size_t\<close> here and a
  \<open>device_t\<close> for the network function. \<open>main_init\<close> gives \<open>None\<close> where \<open>main\<close> returns 1 because
  the network function has refused its configuration.
\<close>

record 'nf program =
  pr_stack :: tx_stack
  pr_nf :: 'nf
  pr_devices :: "tn_device list"
  pr_agents :: "tn_agent list"

definition null_device :: tn_device where
  "null_device = \<lparr>dev_addr = 0, dev_rx_enabled = False, dev_tx_enabled = False\<rparr>"

definition main_init ::
    "'h hardware \<Rightarrow> os_pci_address list \<Rightarrow> (os_mem \<Rightarrow> device_t \<Rightarrow> ('nf \<times> os_mem) option option) \<Rightarrow> os_mem \<Rightarrow> 'h
     \<Rightarrow> ('nf program option, 'h) outcome" where
  "main_init H addresses nf_init om h =
     and_then (or_else Out_of_memory (os_pci_enumerate om addresses) h) (\<lambda>(devices_count, pci_addresses, om) h.
     and_then (or_else Undefined (nf_init om (ucast devices_count)) h) (\<lambda>r h.
     case r of None \<Rightarrow> (Inr None, h) | Some (nf, om) \<Rightarrow>
     let count = unat devices_count in
     and_then (or_else Out_of_memory (os_memory_alloc om devices_count 16) h) (\<lambda>(_, om) h.
     and_then (or_else Out_of_memory (os_memory_alloc om devices_count 6) h) (\<lambda>(_, om) h.
     and_then (or_else Out_of_memory (os_memory_alloc om devices_count 6) h) (\<lambda>(_, om) h.
     and_then (main_devices H pci_addresses devices_count 0 (replicate count null_device)
        (replicate count (replicate 6 0)) (replicate count (replicate 6 0)) h) (\<lambda>(devices, endpoint_macs, device_macs) h.
     and_then (or_else Out_of_memory (agents_alloc om devices_count 64) h) (\<lambda>(_, om) h.
     and_then (main_agents H devices_count 0 devices (replicate count zero_agent) om h) (\<lambda>(devices, agents, om) h.
     (Inr (Some \<lparr>pr_stack = \<lparr>tx_devices_count = devices_count, tx_endpoint_macs = endpoint_macs, tx_device_macs = device_macs\<rparr>,
        pr_nf = nf, pr_devices = devices, pr_agents = agents\<rparr>), h)))))))))"

text \<open>
  The packet handler that \<open>main\<close> hands to \<open>tn_run\<close>. Its state are the addresses, the network
  function and the clock: reading number \<open>k\<close> of the clock gives \<open>ss_clock k\<close>.
\<close>

record 'nf stack_state =
  ss_stack :: tx_stack
  ss_nf :: 'nf
  ss_clock :: "nat \<Rightarrow> time_t"
  ss_readings :: nat

definition stack_handler :: "'nf nf_handler \<Rightarrow> 'nf stack_state packet_handler" where
  "stack_handler nf_handle s index packet len output_lengths = do {
     (nf, packet, output_lengths) \<leftarrow>
       tinynf_packet_handler (ss_stack s) nf_handle (ss_clock s (ss_readings s)) (ss_nf s) index packet len output_lengths;
     Some (s\<lparr>ss_nf := nf, ss_readings := ss_readings s + 1\<rparr>, packet, output_lengths) }"

definition program_start :: "'nf program \<Rightarrow> (nat \<Rightarrow> time_t) \<Rightarrow> 'nf stack_state" where
  "program_start p clock = \<lparr>ss_stack = pr_stack p, ss_nf = pr_nf p, ss_clock = clock, ss_readings = 0\<rparr>"

section \<open>Initialisation\<close>

lemma length_macs [simp]: "length (endpoint_mac n) = 6" "length (device_mac mac) = 6"
  by (simp_all add: endpoint_mac_def device_mac_def)

definition macs_ok :: "nat \<Rightarrow> ether_addr list \<Rightarrow> bool" where
  "macs_ok count macs \<longleftrightarrow> length macs = count \<and> (\<forall>mac \<in> set macs. length mac = 6)"

lemma macs_ok_update [simp]: "macs_ok count macs \<Longrightarrow> length mac = 6 \<Longrightarrow> macs_ok count (macs[i := mac])"
  using set_update_subset_insert [of macs i mac] by (fastforce simp: macs_ok_def)

lemma main_devices_success:
  assumes "fst (main_devices H pci dc n devices endpoints macs h) = Inr (devices', endpoints', macs')"
    and "length devices = count" "macs_ok count endpoints" "macs_ok count macs"
  shows "length devices' = count \<and> macs_ok count endpoints' \<and> macs_ok count macs'"
  using assms
proof (induction "unat (dc - n)" arbitrary: n devices endpoints macs h rule: less_induct)
  case less
  show ?case
  proof (cases "n < dc")
    case False
    with less.prems show ?thesis by (simp add: main_devices.simps)
  next
    case True
    have "unat (dc - (n + 1)) < unat (dc - n)" by (rule word_loop_decreases [OF True])
    note hyps = less.hyps [OF this]
    from less.prems(1) True obtain pci_address device device1 h1 endpoints1 mac h2 macs1 where
      step: "arr_set endpoints n (endpoint_mac n) = Some endpoints1" "arr_set macs n (device_mac mac) = Some macs1"
      and rest: "fst (main_devices H pci dc (n + 1) (devices[unat n := device1]) endpoints1 macs1 h2)
        = Inr (devices', endpoints', macs')"
      by (auto simp: main_devices.simps [of H pci dc n] fst_and_then_Inr Let_def split_beta)
    show ?thesis
      using hyps [OF rest] less.prems(2-4) step by (auto dest!: arr_set_SomeD)
  qed
qed

lemma main_agents_success:
  assumes "fst (main_agents H dc n devices agents om h) = Inr (devices', agents', om')"
    and "unat dc = length devices" "dc \<le> 0x10000" "length agents = unat dc"
    and "\<forall>i < unat dc. if i < unat n then agent_idle (dc - 1) (agents ! i) else ag_processed_delimiter (agents ! i) = 0"
  shows "length agents' = unat dc \<and> (\<forall>i < unat dc. agent_idle (dc - 1) (agents' ! i))"
  using assms
proof (induction "unat (dc - n)" arbitrary: n devices agents om h rule: less_induct)
  case less
  show ?case
  proof (cases "n < dc")
    case False
    with less.prems show ?thesis by (auto simp: main_agents.simps word_less_nat_alt)
  next
    case True
    have "unat (dc - (n + 1)) < unat (dc - n)" by (rule word_loop_decreases [OF True])
    note hyps = less.hyps [OF this]
    have n: "unat n < unat dc" using True by (simp add: word_less_nat_alt)
    have Suc_n: "unat (n + 1) = Suc (unat n)" by (rule unat_Suc_word [OF True])
    from less.prems(1,4) True n obtain agent1 devices1 om1 h1 where
      step: "fst (tn_agent_init H n dc devices (agents ! unat n) om h) = Inr (agent1, devices1, om1)"
      and rest: "fst (main_agents H dc (n + 1) devices1 (agents[unat n := agent1]) om1 h1) = Inr (devices', agents', om')"
      by (auto simp: main_agents.simps [of H dc n] fst_and_then_Inr Let_def split_beta)
    have "ag_processed_delimiter (agents ! unat n) = 0" using less.prems(5) n by auto
    note agent = agent_init_success [OF step less.prems(2,3) this]
    have "unat (dc - 1) = length devices - 1" using n less.prems(2) unat_pred_word [of dc] by (cases devices) (simp_all add: word_less_nat_alt)
    then have "ag_outputs_count agent1 = dc - 1" using agent by (simp add: word_unat_eq_iff)
    then have idle: "agent_idle (dc - 1) agent1" using agent by (simp add: agent_idle_def)
    show ?thesis
      using hyps [OF rest] less.prems(2-5) agent idle Suc_n by (auto simp: nth_list_update less_Suc_eq)
  qed
qed

lemma main_init_success:
  assumes "fst (main_init H addresses nf_init om h) = Inr (Some p)" "length addresses \<le> 0x10000" "alloc_ok om"
  obtains om1 om2 where "nf_init om1 (of_nat (length addresses)) = Some (Some (pr_nf p, om2))" "alloc_ok om1"
    "tx_devices_count (pr_stack p) = of_nat (length addresses)"
    "macs_ok (length addresses) (tx_endpoint_macs (pr_stack p))" "macs_ok (length addresses) (tx_device_macs (pr_stack p))"
    "length (pr_agents p) = length addresses"
    "\<forall>agent \<in> set (pr_agents p). agent_idle (of_nat (length addresses) - 1) agent"
proof -
  let ?dc = "of_nat (length addresses) :: size_t"
  have dc: "unat ?dc = length addresses" using assms(2) by simp
  from assms(1) obtain a1 om1 nf om2 a2 om3 a3 om4 a4 om5 devices endpoints macs h1 a5 om6 devices' agents om7 h2 where c:
    "os_memory_alloc om ?dc 8 = Some (a1, om1)" "nf_init om1 (ucast ?dc) = Some (Some (nf, om2))"
    "fst (main_devices H addresses ?dc 0 (replicate (unat ?dc) null_device) (replicate (unat ?dc) (replicate 6 0))
        (replicate (unat ?dc) (replicate 6 0)) h) = Inr (devices, endpoints, macs)"
    "fst (main_agents H ?dc 0 devices (replicate (unat ?dc) zero_agent) om6 h1) = Inr (devices', agents, om7)"
    "p = \<lparr>pr_stack = \<lparr>tx_devices_count = ?dc, tx_endpoint_macs = endpoints, tx_device_macs = macs\<rparr>,
        pr_nf = nf, pr_devices = devices', pr_agents = agents\<rparr>"
    by (auto simp: main_init_def os_pci_enumerate_def fst_and_then_Inr Let_def split: option.splits Option.bind_splits)
  have ok1: "alloc_ok om1" using os_memory_alloc_correct [OF assms(3) _ c(1)] dc assms(2) by simp
  have "macs_ok (unat ?dc) (replicate (unat ?dc) (replicate 6 0))" by (simp add: macs_ok_def)
  from main_devices_success [OF c(3) length_replicate this this]
  have devs: "length devices = unat ?dc" "macs_ok (unat ?dc) endpoints" "macs_ok (unat ?dc) macs" by simp_all
  have "?dc \<le> 0x10000" using assms(2) dc by (simp add: word_le_nat_alt)
  from main_agents_success [OF c(4) devs(1) [symmetric] this] 
  have agents: "length agents = length addresses" "\<forall>i < length addresses. agent_idle (?dc - 1) (agents ! i)"
    by (simp_all add: dc zero_agent_def)
  then have "\<forall>agent \<in> set agents. agent_idle (?dc - 1) agent" by (auto simp: in_set_conv_nth)
  moreover have "(ucast ?dc :: device_t) = of_nat (length addresses)"
    by (simp add: word_unat_eq_iff unsigned_ucast_eq dc unsigned_of_nat)
  ultimately show ?thesis
    using that [of om1 om2] c(2,5) ok1 devs agents by (simp add: dc)
qed
section \<open>Network functions\<close>

definition stack_ok :: "('nf \<Rightarrow> bool) \<Rightarrow> size_t \<Rightarrow> 'nf stack_state \<Rightarrow> bool" where
  "stack_ok nf_ok devices_count s \<longleftrightarrow> tx_ok (ss_stack s) \<and> tx_devices_count (ss_stack s) = devices_count
     \<and> nf_ok (ss_nf s) \<and> (\<forall>k. ss_clock s k \<noteq> TIME_MAX)"

text \<open>
  What the program asks of a network function: in a well-formed state it handles every packet of an
  existing device in a buffer of the driver, stays well-formed, keeps the buffer's size, and issues
  at most one command, for devices that exist.
\<close>

locale network_function =
  fixes nf_handle :: "'nf nf_handler" and nf_ok :: "'nf \<Rightarrow> bool" and devices_count :: size_t
  assumes handles_packet: "nf_ok nf \<Longrightarrow> length (pkt_data packet) = 2048 \<Longrightarrow> unat (pkt_length packet) < 65536
      \<Longrightarrow> pkt_time packet \<noteq> TIME_MAX \<Longrightarrow> unat (pkt_device packet) < unat devices_count
      \<Longrightarrow> \<exists>nf' packet' cmds. nf_handle nf packet = Some (nf', packet', cmds) \<and> nf_ok nf'
            \<and> length (pkt_data packet') = 2048 \<and> unat (pkt_length packet') < 65536 \<and> pkt_device packet' = pkt_device packet
            \<and> (cmds = [] \<or> (\<exists>cmd. cmds = [cmd] \<and> tx_cmd_ok devices_count (pkt_device packet) cmd))"
begin

text \<open>The packet the network function gets, and what the handler makes of its commands.\<close>

lemma stack_delivers:
  assumes ok: "stack_ok nf_ok devices_count s" and index: "unat index < unat devices_count" and packet: "length packet = 2048"
    and len: "unat len < 65536" and lens: "length lens = unat (devices_count - 1)" "\<forall>l \<in> set lens. l = 0"
    and pkt: "pkt = \<lparr>pkt_data = packet, pkt_length = len, pkt_time = ss_clock s (ss_readings s), pkt_device = ucast index\<rparr>"
  obtains nf' pkt' cmds d lens' where "nf_handle (ss_nf s) pkt = Some (nf', pkt', cmds)" "nf_ok nf'"
    "stack_handler nf_handle s index packet len lens = Some (s\<lparr>ss_nf := nf', ss_readings := ss_readings s + 1\<rparr>, d, lens')"
    "length d = 2048" "length lens' = length lens" "\<forall>l \<in> set lens'. unat l < 65536"
    "\<forall>dev. unat dev < unat devices_count \<and> dev \<noteq> ucast index \<longrightarrow>
      lens' ! unat (index_from_device pkt dev) = (if \<exists>cmd. cmds = [cmd] \<and> tx_sends cmd dev then pkt_length pkt' else 0)"
proof -
  have st: "tx_ok (ss_stack s)" "tx_devices_count (ss_stack s) = devices_count" "nf_ok (ss_nf s)" "ss_clock s (ss_readings s) \<noteq> TIME_MAX"
    using ok by (simp_all add: stack_ok_def)
  have dc: "devices_ok devices_count" using st(1,2) by (simp add: tx_ok_def)
  have lens': "length lens = unat (tx_devices_count (ss_stack s)) - 1" using lens(1) unat_pred_count [OF dc] st(2) by simp
  have "unat index < 65536" using index dc by (simp add: word_le_nat_alt)
  then have device: "unat (ucast index :: device_t) = unat index" by (simp add: unsigned_ucast_eq take_bit_nat_eq_self)
  obtain nf' pkt' cmds where handled: "nf_handle (ss_nf s) pkt = Some (nf', pkt', cmds)" "nf_ok nf'"
    "length (pkt_data pkt') = 2048" "unat (pkt_length pkt') < 65536" "pkt_device pkt' = ucast index"
    "cmds = [] \<or> (\<exists>cmd. cmds = [cmd] \<and> tx_cmd_ok devices_count (ucast index) cmd)"
    using handles_packet [OF st(3), of pkt] packet len st(4) device index pkt by auto
  have same: "index_from_device pkt = index_from_device pkt'" by (rule ext) (simp add: index_from_device_def handled(5) pkt)
  have "\<exists>d lens2. tx_exec (ss_stack s) cmds pkt' lens = Some (pkt'\<lparr>pkt_data := d\<rparr>, lens2) \<and> length d = 2048
      \<and> length lens2 = length lens \<and> (\<forall>l \<in> set lens2. unat l < 65536)
      \<and> (\<forall>dev. unat dev < unat devices_count \<and> dev \<noteq> ucast index \<longrightarrow>
            lens2 ! unat (index_from_device pkt dev) = (if \<exists>cmd. cmds = [cmd] \<and> tx_sends cmd dev then pkt_length pkt' else 0))"
  proof (cases "cmds = []")
    case True
    have "lens ! unat (index_from_device pkt dev) = 0" if dev: "unat dev < unat devices_count" "dev \<noteq> ucast index" for dev
    proof -
      have "unat (index_from_device pkt dev) < length lens"
        using index_from_device_other(1) [OF dc, of dev pkt] dev device index lens' st(2) pkt by simp
      then show ?thesis using lens(2) by simp
    qed
    with True show ?thesis using handled(3) lens(2) by (intro exI [of _ "pkt_data pkt'"]) auto
  next
    case False
    then obtain cmd where cmd: "cmds = [cmd]" "tx_cmd_ok devices_count (pkt_device pkt') cmd" using handled(5,6) by auto
    have own: "unat (pkt_device pkt') < unat (tx_devices_count (ss_stack s))" using handled(5) device index st(2) by simp
    obtain lens2 where run: "tx_exec (ss_stack s) [cmd] pkt' lens = Some (pkt'\<lparr>pkt_data := tx_result (ss_stack s) pkt' cmd\<rparr>, lens2)"
      "length lens2 = length lens"
      and out: "\<And>d. unat d < unat devices_count \<Longrightarrow> d \<noteq> pkt_device pkt' \<Longrightarrow>
        lens2 ! unat (index_from_device pkt' d) = (if tx_sends cmd d then pkt_length pkt' else 0)"
      using tx_exec_command [OF st(1) lens' _ own _ lens(2), of cmd] handled(3) cmd(2) st(2) by auto
    have "unat (lens2 ! i) < 65536" if "i < length lens2" for i
    proof -
      have i: "unat (of_nat i :: size_t) = i" "i < unat devices_count - 1"
        using that run(2) lens' st(2) unat_lt64 [of devices_count] by simp_all
      note d = device_from_index_other [OF dc, of "of_nat i" pkt']
      show ?thesis using out [of "device_from_index pkt' (of_nat i)"] d i handled(4) by (auto split: if_splits)
    qed
    moreover have "length (tx_result (ss_stack s) pkt' cmd) = 2048"
      using tx_result_length [OF st(1) _ own, of cmd] handled(3) cmd(2) st(2) by simp
    moreover from calculation(1) have "\<forall>l \<in> set lens2. unat l < 65536" by (auto simp: in_set_conv_nth)
    ultimately show ?thesis
      using run cmd(1) out same handled(5)
      by (intro exI [of _ "tx_result (ss_stack s) pkt' cmd"] exI [of _ lens2]) simp
  qed
  then obtain d lens2 where exec: "tx_exec (ss_stack s) cmds pkt' lens = Some (pkt'\<lparr>pkt_data := d\<rparr>, lens2)"
    "length d = 2048" "length lens2 = length lens" "\<forall>l \<in> set lens2. unat l < 65536"
    "\<forall>dev. unat dev < unat devices_count \<and> dev \<noteq> ucast index \<longrightarrow>
       lens2 ! unat (index_from_device pkt dev) = (if \<exists>cmd. cmds = [cmd] \<and> tx_sends cmd dev then pkt_length pkt' else 0)" by blast
  have "stack_handler nf_handle s index packet len lens = Some (s\<lparr>ss_nf := nf', ss_readings := ss_readings s + 1\<rparr>, d, lens2)"
    using handled(1) exec(1) by (simp add: stack_handler_def tinynf_packet_handler_def pkt)
  with handled(1,2) exec(2-5) show thesis by (intro that [of nf' pkt' cmds d lens2]) simp_all
qed

lemma stack_handles:
  assumes ok: "stack_ok nf_ok devices_count s" and "unat index < unat devices_count" and "length packet = 2048"
    and "unat len < 65536" and "length lens = unat (devices_count - 1)" "\<forall>l \<in> set lens. l = 0"
  shows "\<exists>s' packet' lens'. stack_handler nf_handle s index packet len lens = Some (s', packet', lens')
    \<and> stack_ok nf_ok devices_count s' \<and> length packet' = 2048 \<and> length lens' = length lens \<and> (\<forall>l \<in> set lens'. unat l < 65536)"
  by (rule stack_delivers [OF assms refl]) (use ok in \<open>simp add: stack_ok_def\<close>)

end

sublocale network_function \<subseteq> tn_handler "stack_handler nf_handle" "stack_ok nf_ok devices_count" devices_count
  by unfold_locales (rule stack_handles)

text \<open>With two devices, \<open>1 - device\<close> is the other one.\<close>

lemma other_device:
  assumes "unat (device :: device_t) < 2"
  shows "tx_cmd_ok 2 device (Net_Transmit (1 - device) flags)"
proof -
  have "device = 0 \<or> device = 1" using assms by (auto simp: word_unat_eq_iff)
  then show ?thesis by auto
qed

lemma ucast_less_iff: "unat d < unat (ucast dc :: size_t) \<longleftrightarrow> d < dc" for d dc :: device_t
  by (simp add: word_less_nat_alt)

definition fw_ok :: "firewall \<Rightarrow> bool" where
  "fw_ok st \<longleftrightarrow> (\<exists>n. fw_table_ok n (fw_the_table st))"

interpretation fw: network_function fw_nf_handle fw_ok 2
proof
  fix st and packet :: net_packet assume ok: "fw_ok st" and packet: "length (pkt_data packet) = 2048" "unat (pkt_length packet) < 65536"
    "pkt_time packet \<noteq> TIME_MAX" "unat (pkt_device packet) < unat (2 :: size_t)"
  from ok obtain n where n: "fw_table_ok n (fw_the_table st)" unfolding fw_ok_def ..
  have "headers_fit packet" using packet(1) by (simp add: headers_fit_def)
  from n this packet(3) show "\<exists>st' packet' cmds. fw_nf_handle st packet = Some (st', packet', cmds) \<and> fw_ok st'
      \<and> length (pkt_data packet') = 2048 \<and> unat (pkt_length packet') < 65536 \<and> pkt_device packet' = pkt_device packet
      \<and> (cmds = [] \<or> (\<exists>cmd. cmds = [cmd] \<and> tx_cmd_ok 2 (pkt_device packet) cmd))"
    by (rule fw_handle_correct) (use packet other_device in \<open>auto simp: fw_ok_def\<close>)
qed

definition nat_ok :: "nat_state \<Rightarrow> bool" where
  "nat_ok st \<longleftrightarrow> (\<exists>n. nat_table_ok n (nat_the_table st))"

interpretation nat: network_function nat_nf_handle nat_ok 2
proof
  fix st and packet :: net_packet assume ok: "nat_ok st" and packet: "length (pkt_data packet) = 2048" "unat (pkt_length packet) < 65536"
    "pkt_time packet \<noteq> TIME_MAX" "unat (pkt_device packet) < unat (2 :: size_t)"
  from ok obtain n where n: "nat_table_ok n (nat_the_table st)" unfolding nat_ok_def ..
  have "nat_fits packet" using packet(1) by (simp add: nat_fits_def)
  from nat_handle_result [OF n this packet(3)] obtain st' packet' out where
    run: "nat_nf_handle st packet = Some (st', packet', out)" "nat_table_ok n (nat_the_table st')"
    and out: "out = [] \<or> out = [Net_Transmit (1 - pkt_device packet) UPDATE_ETHER_ADDRS]" by blast
  have "unat (pkt_device packet) < 2" using packet(4) by simp
  then have "out = [] \<or> (\<exists>cmd. out = [cmd] \<and> tx_cmd_ok 2 (pkt_device packet) cmd)"
    using out other_device by blast
  then show "\<exists>st' packet' cmds. nat_nf_handle st packet = Some (st', packet', cmds) \<and> nat_ok st'
      \<and> length (pkt_data packet') = 2048 \<and> unat (pkt_length packet') < 65536 \<and> pkt_device packet' = pkt_device packet
      \<and> (cmds = [] \<or> (\<exists>cmd. cmds = [cmd] \<and> tx_cmd_ok 2 (pkt_device packet) cmd))"
    using run nat_handle_frame [OF run(1)] packet(1,2) by (auto simp: nat_ok_def)
qed

definition policer_ok :: "policer \<Rightarrow> bool" where
  "policer_ok st \<longleftrightarrow> (\<exists>n. pol_ok n st)"

interpretation pol: network_function pol_nf_handle policer_ok 2
proof
  fix st and packet :: net_packet assume ok: "policer_ok st" and packet: "length (pkt_data packet) = 2048" "unat (pkt_length packet) < 65536"
    "pkt_time packet \<noteq> TIME_MAX" "unat (pkt_device packet) < unat (2 :: size_t)"
  from ok obtain n where n: "pol_ok n st" unfolding policer_ok_def ..
  have "headers_fit packet" using packet(1) by (simp add: headers_fit_def)
  from n this packet(3) show "\<exists>st' packet' cmds. pol_nf_handle st packet = Some (st', packet', cmds) \<and> policer_ok st'
      \<and> length (pkt_data packet') = 2048 \<and> unat (pkt_length packet') < 65536 \<and> pkt_device packet' = pkt_device packet
      \<and> (cmds = [] \<or> (\<exists>cmd. cmds = [cmd] \<and> tx_cmd_ok 2 (pkt_device packet) cmd))"
    by (rule pol_handle_ok) (use packet other_device in \<open>auto simp: policer_ok_def\<close>)
qed

definition nop_ok :: "device_t \<Rightarrow> nop \<Rightarrow> bool" where
  "nop_ok dc st \<longleftrightarrow> nop_wan_device st \<noteq> nop_lan_device st \<and> nop_wan_device st < dc \<and> nop_lan_device st < dc"

interpretation nop: network_function nop_nf_handle "nop_ok dc" "ucast dc" for dc :: device_t
  by unfold_locales (auto simp: nop_nf_handle_def nop_ok_def word_less_nat_alt)

definition bridge_ok :: "device_t \<Rightarrow> bridge \<Rightarrow> bool" where
  "bridge_ok dc st \<longleftrightarrow> (\<exists>n. br_ok n dc st)"

interpretation br: network_function br_nf_handle "bridge_ok dc" "ucast dc" for dc :: device_t
proof
  fix st and packet :: net_packet assume ok: "bridge_ok dc st" and packet: "length (pkt_data packet) = 2048" "unat (pkt_length packet) < 65536"
    "pkt_time packet \<noteq> TIME_MAX" "unat (pkt_device packet) < unat (ucast dc :: size_t)"
  from ok obtain n where n: "br_ok n dc st" unfolding bridge_ok_def ..
  have "headers_fit packet" "pkt_device packet < dc" using packet(1,4) by (simp_all add: headers_fit_def word_less_nat_alt)
  from br_handle_result [OF n this(1) packet(3) this(2)] obtain st' packet' out where
    run: "br_nf_handle st packet = Some (st', packet', out)" "br_ok n dc st'"
    and out: "out \<in> {[], [Net_Flood UPDATE_ETHER_ADDRS], [Net_Flood_Except (stp_disabled_ports (br_stp st)) NONE]}
      \<or> (\<exists>d < dc. d \<noteq> pkt_device packet \<and> out = [Net_Transmit d NONE])" by blast
  have "length (stp_disabled_ports (br_stp st)) = unat dc" using n by (simp add: br_ok_def stp_ok_def)
  then have "out = [] \<or> (\<exists>cmd. out = [cmd] \<and> tx_cmd_ok (ucast dc) (pkt_device packet) cmd)"
    using out by (auto simp: word_less_nat_alt)
  then show "\<exists>st' packet' cmds. br_nf_handle st packet = Some (st', packet', cmds) \<and> bridge_ok dc st'
      \<and> length (pkt_data packet') = 2048 \<and> unat (pkt_length packet') < 65536 \<and> pkt_device packet' = pkt_device packet
      \<and> (cmds = [] \<or> (\<exists>cmd. cmds = [cmd] \<and> tx_cmd_ok (ucast dc) (pkt_device packet) cmd))"
    using run br_handle_frame [OF run(1)] packet(1,2) by (auto simp: bridge_ok_def)
qed

definition maglev_ok :: "device_t \<Rightarrow> maglev \<Rightarrow> bool" where
  "maglev_ok dc st \<longleftrightarrow> (\<exists>n. mag_ok n st) \<and> mag_devices_count st = dc"

interpretation mag: network_function mag_nf_handle "maglev_ok dc" "ucast dc" for dc :: device_t
proof
  fix st and packet :: net_packet assume ok: "maglev_ok dc st" and packet: "length (pkt_data packet) = 2048" "unat (pkt_length packet) < 65536"
    "pkt_time packet \<noteq> TIME_MAX" "unat (pkt_device packet) < unat (ucast dc :: size_t)"
  from ok obtain n where n: "mag_ok n st" "mag_devices_count st = dc" unfolding maglev_ok_def by blast
  have "headers_fit packet" using packet(1) by (simp add: headers_fit_def)
  from mag_handle_total [OF n(1) this packet(3)] obtain st' out where
    run: "mag_nf_handle st packet = Some (st', packet, out)" "mag_ok n st'" "mag_devices_count st' = dc"
    and out: "out = [] \<or> \<not> pkt_device packet < dc - 1 \<and> (\<exists>b < dc - 1. out = [Net_Transmit b NONE])" using n(2) by auto
  have "dc - 1 < dc" using n by (auto simp: mag_ok_def word_le_nat_alt word_less_nat_alt unat_pred_word)
  then have "out = [] \<or> (\<exists>cmd. out = [cmd] \<and> tx_cmd_ok (ucast dc) (pkt_device packet) cmd)"
    using out by (auto simp: word_less_nat_alt)
  then show "\<exists>st' packet' cmds. mag_nf_handle st packet = Some (st', packet', cmds) \<and> maglev_ok dc st'
      \<and> length (pkt_data packet') = 2048 \<and> unat (pkt_length packet') < 65536 \<and> pkt_device packet' = pkt_device packet
      \<and> (cmds = [] \<or> (\<exists>cmd. cmds = [cmd] \<and> tx_cmd_ok (ucast dc) (pkt_device packet) cmd))"
    using run packet(1,2) by (auto simp: maglev_ok_def)
qed

interpretation dhcp: network_function dhcp_nf_handle "\<lambda>st. True" "ucast dc" for dc :: device_t
  by unfold_locales (simp add: dhcp_handle_silent)
section \<open>The program does not get stuck\<close>

text \<open>
  From a successful initialisation on, with any number of rounds of \<open>tn_run\<close>, whatever the cards
  write into the memory they share with the driver, and at all times but the one that marks free
  entries.
\<close>

definition never_stuck ::
    "'h hardware \<Rightarrow> (os_mem \<Rightarrow> device_t \<Rightarrow> ('nf \<times> os_mem) option option) \<Rightarrow> 'nf nf_handler \<Rightarrow> bool" where
  "never_stuck H nf_init nf_handle \<longleftrightarrow>
     (\<forall>addresses om h p h' clock dma k.
        main_init H addresses nf_init om h = (Inr (Some p), h') \<and> length addresses < 0x10000 \<and> alloc_ok om
        \<and> (\<forall>t. clock t \<noteq> TIME_MAX) \<and> (\<forall>r j i a. card_writes a (dma r j i a))
        \<longrightarrow> tn_run_rounds H (stack_handler nf_handle) dma (of_nat (length addresses)) k
              (program_start p clock, pr_agents p, h') \<noteq> None)"

context network_function
begin

lemma program_start_ok:
  assumes init: "fst (main_init H addresses nf_init om h) = Inr (Some p)" and "length addresses \<le> 0x10000" "alloc_ok om"
    and count: "devices_count = of_nat (length addresses)" "devices_count \<noteq> 0"
    and nf: "nf_ok (pr_nf p)" and clock: "\<forall>t. clock t \<noteq> TIME_MAX"
  shows "stack_ok nf_ok devices_count (program_start p clock)" "length (pr_agents p) = unat devices_count"
    "\<forall>agent \<in> set (pr_agents p). agent_idle (devices_count - 1) agent"
proof -
  have dc: "unat devices_count = length addresses" using assms(2) count by simp
  obtain om1 om2 where p: "tx_devices_count (pr_stack p) = devices_count"
    "macs_ok (length addresses) (tx_endpoint_macs (pr_stack p))" "macs_ok (length addresses) (tx_device_macs (pr_stack p))"
    "length (pr_agents p) = length addresses" "\<forall>agent \<in> set (pr_agents p). agent_idle (devices_count - 1) agent"
    using main_init_success [OF init assms(2,3)] count by metis
  have "devices_count \<le> 0x10000" using dc assms(2) by (simp add: word_le_nat_alt)
  then have "tx_ok (pr_stack p)"
    using count(2) p dc by (auto simp: tx_ok_def macs_ok_def word_neq_0_conv)
  then show "stack_ok nf_ok devices_count (program_start p clock)"
    using p(1) nf clock by (simp add: stack_ok_def program_start_def)
  show "length (pr_agents p) = unat devices_count" "\<forall>agent \<in> set (pr_agents p). agent_idle (devices_count - 1) agent"
    using p(4,5) dc by simp_all
qed

lemma program_runs:
  assumes init: "fst (main_init H addresses nf_init om h) = Inr (Some p)" and "length addresses \<le> 0x10000" "alloc_ok om"
    and count: "devices_count = of_nat (length addresses)"
    and nf: "nf_ok (pr_nf p)"
    and clock: "\<forall>t. clock t \<noteq> TIME_MAX" and dma: "\<And>r j i a. card_writes a (dma r j i a)"
  shows "tn_run_rounds H (stack_handler nf_handle) dma devices_count k (program_start p clock, pr_agents p, h') \<noteq> None"
proof (cases "devices_count = 0")
  case True
  have "tn_run_rounds H (stack_handler nf_handle) dma 0 k x = Some x" for x
    by (induction k) (simp_all add: foreach_index.simps)
  with True show ?thesis by simp
next
  case False
  note start = program_start_ok [OF init assms(2,3) count False nf clock]
  from rounds_handle [OF start(1,3) start(2) dma] show ?thesis by fastforce
qed

end

text \<open>It is enough that every state of the network function that the initialisation gives is well-formed.\<close>

text \<open>A successful initialisation of the network function establishes an invariant for its handler.\<close>

definition nf_establishes ::
    "(os_mem \<Rightarrow> device_t \<Rightarrow> ('nf \<times> os_mem) option option) \<Rightarrow> 'nf nf_handler \<Rightarrow> bool" where
  "nf_establishes nf_init nf_handle \<longleftrightarrow> (\<forall>om om' st dc. alloc_ok om \<and> nf_init om dc = Some (Some (st, om'))
     \<longrightarrow> (\<exists>nf_ok. network_function nf_handle nf_ok (ucast dc) \<and> nf_ok st))"

lemma nf_establishesI:
  assumes "\<And>om om' st dc. alloc_ok om \<Longrightarrow> nf_init om dc = Some (Some (st, om'))
      \<Longrightarrow> \<exists>nf_ok. network_function nf_handle nf_ok (ucast dc) \<and> nf_ok st"
  shows "nf_establishes nf_init nf_handle"
  unfolding nf_establishes_def by (intro allI impI, elim conjE) (rule assms)

lemma nf_establishesD:
  assumes "nf_establishes nf_init nf_handle" "alloc_ok om" "nf_init om dc = Some (Some (st, om'))"
  shows "\<exists>nf_ok. network_function nf_handle nf_ok (ucast dc) \<and> nf_ok st"
  using assms(1) [unfolded nf_establishes_def, rule_format, OF conjI, OF assms(2,3)] .

lemma never_stuckI:
  assumes nf: "nf_establishes nf_init nf_handle"
  shows "never_stuck H nf_init nf_handle"
proof -
  have "tn_run_rounds H (stack_handler nf_handle) dma (of_nat (length addresses)) k (program_start p clock, pr_agents p, h') \<noteq> None"
    if run: "main_init H addresses nf_init om h = (Inr (Some p), h')" "length addresses < 0x10000" "alloc_ok om"
      "\<forall>t. clock t \<noteq> TIME_MAX" "\<forall>r j i a. card_writes a (dma r j i a)"
    for addresses om h p h' clock dma k
  proof -
    have init: "fst (main_init H addresses nf_init om h) = Inr (Some p)" and len: "length addresses \<le> 0x10000"
      using run(1,2) by simp_all
    obtain om1 om2 where st: "nf_init om1 (of_nat (length addresses)) = Some (Some (pr_nf p, om2))" "alloc_ok om1"
      using main_init_success [OF init len run(3)] by metis
    from nf_establishesD [OF nf st(2,1)] obtain nf_ok where "network_function nf_handle nf_ok (ucast (of_nat (length addresses) :: device_t))"
      and ok: "nf_ok (pr_nf p)" by blast
    moreover have "ucast (of_nat (length addresses) :: device_t) = (of_nat (length addresses) :: size_t)"
      using run(2) by (simp add: word_unat_eq_iff unsigned_ucast_eq unsigned_of_nat take_bit_nat_eq_self)
    ultimately have "network_function nf_handle nf_ok (of_nat (length addresses))" by simp
    from network_function.program_runs [OF this init len run(3) refl ok run(4)] run(5) show ?thesis by blast
  qed
  then show ?thesis unfolding never_stuck_def by blast
qed
section \<open>A machine with two cards\<close>

text \<open>
  The register reads of this hardware do not depend on the register: they report that the card is
  ready, and after a write that enables a queue, once, that it is enabled.
\<close>

definition answering :: "bool hardware" where
  "answering = \<lparr>hw_reg_read = (\<lambda>a h. (if h then 0x2000309 else 0x309, False)), hw_reg_write = (\<lambda>a v h. v = 0x2000309),
     hw_pci_read = (\<lambda>p r h. (if r = PCIREG_BAR0_LOW \<and> pci_bus p = 1 then 0xFE100004 else example_pci r, h)),
     hw_pci_write = (\<lambda>p r v h. h), hw_sleep = (\<lambda>n h. h),
     hw_phys_to_virt = (\<lambda>a n. unat a), hw_virt_to_phys = of_nat\<rparr>"

lemma answering_simps [simp]:
  "reg_read answering addr reg h = (if h then 0x2000309 else 0x309, False)" "reg_write answering addr reg v h = (v = 0x2000309)"
  "hw_sleep answering n h = h" "hw_virt_to_phys answering = of_nat" "hw_phys_to_virt answering a n = unat a"
  "pcireg_read answering p r h = (if r = PCIREG_BAR0_LOW \<and> pci_bus p = 1 then 0xFE100004 else example_pci r, h)"
  "hw_pci_write answering p r v h = h"
  by (simp_all add: reg_read_def reg_write_def reg_write_raw_def pcireg_read_def answering_def)

lemma answering_fields [simp]:
  "reg_write_field answering addr reg field x False = (field_set field x 0x309 = 0x2000309)"
  "reg_set_field answering addr reg field False = (0x309 OR field = 0x2000309)"
  "reg_clear_field answering addr reg field False = (0x309 AND NOT field = 0x2000309)"
  "reg_is_field_cleared answering addr reg field h = (field_value field (if h then 0x2000309 else 0x309) = 0, False)"
  by (simp_all add: reg_write_field_eq reg_set_field_eq reg_clear_field_def reg_is_field_cleared_eq)

lemma answering_values:
  "field_value REG_RXDCTL_ENABLE 0x309 = 0" "field_value REG_STATUS_PCIE_MASTER_ENABLE_STATUS 0x309 = 0"
  "field_value REG_EEC_AUTO_RD 0x309 \<noteq> 0" "field_value REG_EEC_EE_PRES 0x309 \<noteq> 0"
  "field_value REG_EEC_AUTO_RD 0x2000309 \<noteq> 0" "field_value REG_EEC_EE_PRES 0x2000309 \<noteq> 0"
  "field_value REG_FWSM_EXT_ERR_IND 0x309 = 0" "field_value REG_RDRXCTL_DMAIDONE 0x309 \<noteq> 0"
  "field_value REG_TXDCTL_ENABLE 0x309 = 0" "field_value REG_SECRXSTAT_SECRX_RDY 0x309 \<noteq> 0"
  "field_value REG_TXDCTL_ENABLE 0x2000309 \<noteq> 0" "field_value REG_RXDCTL_ENABLE 0x2000309 \<noteq> 0"
  "field_value REG_SECRXSTAT_SECRX_RDY 0x2000309 \<noteq> 0"
  "0x309 AND NOT REG_RXDCTL_ENABLE = 0x309" "0x309 OR REG_TXDCTL_ENABLE = 0x2000309" "0x309 OR REG_RXDCTL_ENABLE = 0x2000309"
  "0x309 OR REG_CTRL_MASTER_DISABLE = 0x30D"
  "0x309 OR REG_DMATXCTL_TE \<noteq> 0x2000309" "0x309 AND NOT REG_DCATXCTRL_TX_DESC_WB_RO_EN \<noteq> 0x2000309"
  "0x309 OR REG_SRRCTL_DROP_EN \<noteq> 0x2000309" "field_set REG_SRRCTL_BSIZEPACKET 2 0x309 \<noteq> 0x2000309"
  "field_set REG_TXDCTL_PTHRESH 60 0x309 \<noteq> 0x2000309" "field_set REG_TXDCTL_HTHRESH 4 0x309 \<noteq> 0x2000309"
  "0x309 OR REG_RXCTRL_RXEN \<noteq> 0x2000309" "0x309 OR REG_SECRXCTRL_RX_DIS \<noteq> 0x2000309"
  "0x309 AND NOT REG_SECRXCTRL_RX_DIS \<noteq> 0x2000309" "0x309 OR REG_CTRLEXT_NSDIS \<noteq> 0x2000309"
  "0x309 AND NOT REG_DCARXCTRL_UNKNOWN \<noteq> 0x2000309"
  by code_simp+

lemma answering_disable_receive:
  "device_init_disable_receive answering addr queue False = (Inr (), False)"
proof (induction "unat (RECEIVE_QUEUES_COUNT - queue)" arbitrary: queue rule: less_induct)
  case less
  show ?case
  proof (cases "queue < RECEIVE_QUEUES_COUNT")
    case True
    then have "device_init_disable_receive answering addr (queue + 1) False = (Inr (), False)"
      by (intro less word_loop_decreases)
    then show ?thesis
      by (simp add: device_init_disable_receive.simps [of answering addr queue] no_timeout answering_values)
  next
    case False
    then show ?thesis by (simp add: device_init_disable_receive.simps)
  qed
qed

lemma answering_device_init:
  "fst (tn_device_init answering p d False) = Inr (d\<lparr>dev_addr := if pci_bus p = 1 then 0xFE100000 else 0xFE000000\<rparr>)"
proof -
  have pci: "device_init_pci answering p False = (Inr (if pci_bus p = 1 then 0xFE100000 else 0xFE000000), False)"
    by (simp add: device_init_pci_def pcireg_is_field_cleared_def pcireg_set_field_def example_pci_def
        PCIREG_ID_def PCIREG_PMCSR_def PCIREG_PMCSR_POWER_STATE_def PCIREG_BAR0_LOW_def PCIREG_BAR0_HIGH_def BIT_def BITS_def)
  have wait: "fst (device_init_wait answering addr h) = Inr ()" for addr h
    by (cases h) (simp_all add: device_init_wait_def no_timeout answering_values)
  show ?thesis
    using wait
    by (simp add: tn_device_init_def and_then_def pci answering_disable_receive device_init_disable_master_def
        no_timeout answering_values Let_def split_beta split: sum.split)
qed

definition example_addresses :: "os_pci_address list" where
  "example_addresses = [\<lparr>pci_bus = 0, pci_device = 0, pci_function = 0\<rparr>, \<lparr>pci_bus = 1, pci_device = 0, pci_function = 0\<rparr>]"

lemma answering_get_mac: "snd (tn_device_get_mac answering d h) = False"
  by (simp add: tn_device_get_mac_def)

lemma answering_devices:
  "\<exists>endpoint_macs device_macs. main_devices answering example_addresses 2 0 (replicate 2 null_device)
      (replicate 2 (replicate 6 0)) (replicate 2 (replicate 6 0)) False
    = (Inr (example_devices, endpoint_macs, device_macs), False)"
proof -
  obtain h0 where d0: "tn_device_init answering (example_addresses ! 0) null_device False = (Inr (example_devices ! 0), h0)"
    using answering_device_init [of "example_addresses ! 0" null_device]
    by (cases "tn_device_init answering (example_addresses ! 0) null_device False")
      (simp add: example_addresses_def example_devices_def null_device_def)
  obtain h1 where d1: "tn_device_init answering (example_addresses ! 1) null_device False = (Inr (example_devices ! 1), h1)"
    using answering_device_init [of "example_addresses ! 1" null_device]
    by (cases "tn_device_init answering (example_addresses ! 1) null_device False")
      (simp add: example_addresses_def example_devices_def null_device_def)
  obtain A B where ex: "example_devices = [A, B]" by (simp add: example_devices_def)
  have len: "length example_addresses = Suc (Suc 0)" by (simp add: example_addresses_def)
  show ?thesis
    using d0 d1
    by (simp add: main_devices.simps [of answering example_addresses 2] arr_get_def arr_set_def or_else_def and_then_def split_beta Let_def
        ex len numeral_2_eq_2 answering_get_mac)
qed

lemma example_agent2_allocs:
  "os_memory_alloc \<lparr>mem_base = 0x40000000, mem_used = 0x81540\<rparr> 256 2048 = Some (0x40081b00, \<lparr>mem_base = 0x40000000, mem_used = 0x101b00\<rparr>)"
  "os_memory_alloc \<lparr>mem_base = 0x40000000, mem_used = 0x101b00\<rparr> 1 8 = Some (0x40101b00, \<lparr>mem_base = 0x40000000, mem_used = 0x101b08\<rparr>)"
  "os_memory_alloc \<lparr>mem_base = 0x40000000, mem_used = 0x101b08\<rparr> 1 64 = Some (0x40101b80, \<lparr>mem_base = 0x40000000, mem_used = 0x101bc0\<rparr>)"
  "os_memory_alloc \<lparr>mem_base = 0x40000000, mem_used = 0x101bc0\<rparr> 1 8 = Some (0x40101bc0, \<lparr>mem_base = 0x40000000, mem_used = 0x101bc8\<rparr>)"
  "os_memory_alloc \<lparr>mem_base = 0x40000000, mem_used = 0x101bc8\<rparr> 1 8 = Some (0x40101c00, \<lparr>mem_base = 0x40000000, mem_used = 0x101c08\<rparr>)"
  "os_memory_alloc \<lparr>mem_base = 0x40000000, mem_used = 0x101c08\<rparr> 256 16 = Some (0x40101c40, \<lparr>mem_base = 0x40000000, mem_used = 0x102c40\<rparr>)"
  by (simp_all add: os_memory_alloc_def CACHE_LINE_SIZE_def OS_MEMORY_SIZE_def SIZE_MAX_def Let_def)

lemma answering_agents:
  "\<exists>devices agents om. fst (main_agents answering 2 0 example_devices (replicate 2 zero_agent)
      \<lparr>mem_base = 0x40000000, mem_used = 0x180\<rparr> False) = Inr (devices, agents, om)"
  by (simp add: main_agents.simps tn_agent_init_def Let_def ixgbe_constants and_then_def or_else_def example_agent_allocs fatal_def
      agent_init_loop.simps agent_program_ring_def agent_program_head_def tn_agent_add_output_def tn_agent_set_input_def
      agent_enable_receive_def example_devices_def descriptor_ring_alloc_def no_timeout answering_values split_beta zero_agent_def
      arr_get_def example_agent2_allocs word_le_nat_alt)

lemma example_main_allocs:
  "os_memory_alloc \<lparr>mem_base = 0x40000000, mem_used = 0\<rparr> 2 8 = Some (0x40000000, \<lparr>mem_base = 0x40000000, mem_used = 0x10\<rparr>)"
  "os_memory_alloc \<lparr>mem_base = 0x40000000, mem_used = 0x10\<rparr> 2 16 = Some (0x40000040, \<lparr>mem_base = 0x40000000, mem_used = 0x60\<rparr>)"
  "os_memory_alloc \<lparr>mem_base = 0x40000000, mem_used = 0x60\<rparr> 2 6 = Some (0x40000080, \<lparr>mem_base = 0x40000000, mem_used = 0x8C\<rparr>)"
  "os_memory_alloc \<lparr>mem_base = 0x40000000, mem_used = 0x8C\<rparr> 2 6 = Some (0x400000C0, \<lparr>mem_base = 0x40000000, mem_used = 0xCC\<rparr>)"
  "os_memory_alloc \<lparr>mem_base = 0x40000000, mem_used = 0xCC\<rparr> 2 64 = Some (0x40000100, \<lparr>mem_base = 0x40000000, mem_used = 0x180\<rparr>)"
  by (simp_all add: os_memory_alloc_def CACHE_LINE_SIZE_def OS_MEMORY_SIZE_def SIZE_MAX_def Let_def)

text \<open>A forwarder on this machine; a load balancer could use the configuration's height.\<close>

definition main_example_config :: config where
  "main_example_config = [(''cht height'', 3), (''lan device'', 0), (''wan device'', 1)]"

abbreviation nop_main_init :: "config \<Rightarrow> os_mem \<Rightarrow> device_t \<Rightarrow> (nop \<times> os_mem) option option" where
  "nop_main_init cfg om devices_count \<equiv> map_option (map_option (\<lambda>st. (st, om))) (nop_nf_init cfg devices_count)"

abbreviation example_start :: os_mem where
  "example_start \<equiv> \<lparr>mem_base = 0x40000000, mem_used = 0\<rparr>"

lemma example_main_init:
  "\<exists>p. fst (main_init answering example_addresses (nop_main_init main_example_config) example_start False) = Inr (Some p)"
proof -
  have nf: "nop_nf_init main_example_config 2 = Some (Some \<lparr>nop_wan_device = 1, nop_lan_device = 0\<rparr>)"
    by (simp add: nop_nf_init_def os_config_get_device_def main_example_config_def
        os_config_get_correct config_ok_def c_string_def)
  obtain endpoint_macs device_macs where devices: "main_devices answering example_addresses 2 0 (replicate 2 null_device)
      (replicate 2 (replicate 6 0)) (replicate 2 (replicate 6 0)) False
    = (Inr (example_devices, endpoint_macs, device_macs), False)" using answering_devices by blast
  obtain devices agents om h where agents: "main_agents answering 2 0 example_devices (replicate 2 zero_agent)
      \<lparr>mem_base = 0x40000000, mem_used = 0x180\<rparr> False = (Inr (devices, agents, om), h)"
    using answering_agents prod.collapse by metis
  have count: "length example_addresses = 2" by (simp add: example_addresses_def)
  show ?thesis
    by (simp add: main_init_def os_pci_enumerate_def count or_else_def and_then_def example_main_allocs nf Let_def devices
        agents agents_alloc_def)
qed

text \<open>The seven network functions that the repository implements in full.\<close>

lemma nfs_establish:
  assumes "\<And>height. os_config_get_u16 cfg ''cht height'' = Some (Some height) \<Longrightarrow> prime_height (unat height)"
  shows "nf_establishes (fw_nf_init cfg) fw_nf_handle" "nf_establishes (nat_nf_init cfg) nat_nf_handle"
    "nf_establishes (pol_nf_init cfg) pol_nf_handle" "nf_establishes (br_nf_init cfg) br_nf_handle"
    "nf_establishes (nop_main_init cfg) nop_nf_handle" "nf_establishes (mag_nf_init cfg) mag_nf_handle"
    "nf_establishes (\<lambda>om devices_count. dhcp_nf_init cfg om) dhcp_nf_handle"
proof (rule_tac [!] nf_establishesI)
  fix om om' st dc assume "alloc_ok om" "fw_nf_init cfg om dc = Some (Some (st, om'))"
  then show "\<exists>nf_ok. network_function fw_nf_handle nf_ok (ucast dc) \<and> nf_ok st"
    by (rule fw_init_correct) (use fw.network_function_axioms in \<open>intro exI [of _ fw_ok], auto simp: fw_ok_def\<close>)
next
  fix om om' st dc assume "alloc_ok om" "nat_nf_init cfg om dc = Some (Some (st, om'))"
  then show "\<exists>nf_ok. network_function nat_nf_handle nf_ok (ucast dc) \<and> nf_ok st"
    by (rule nat_init_correct) (use nat.network_function_axioms in \<open>intro exI [of _ nat_ok], auto simp: nat_ok_def\<close>)
next
  fix om om' st dc assume "alloc_ok om" "pol_nf_init cfg om dc = Some (Some (st, om'))"
  then show "\<exists>nf_ok. network_function pol_nf_handle nf_ok (ucast dc) \<and> nf_ok st"
    by (rule pol_init_correct) (use pol.network_function_axioms in \<open>intro exI [of _ policer_ok], auto simp: policer_ok_def\<close>)
next
  fix om om' st dc assume "alloc_ok om" "br_nf_init cfg om dc = Some (Some (st, om'))"
  then show "\<exists>nf_ok. network_function br_nf_handle nf_ok (ucast dc) \<and> nf_ok st"
    by (rule br_init_correct) (use br.network_function_axioms in \<open>intro exI [of _ "bridge_ok dc"], auto simp: bridge_ok_def\<close>)
next
  fix om om' st dc assume "nop_main_init cfg om dc = Some (Some (st, om'))"
  then have "nop_nf_init cfg dc = Some (Some st)" by auto
  then have "nop_ok dc st" if "0 < dc"
    using that os_config_get_device_bound [of cfg _ dc]
    by (auto simp: nop_nf_init_def nop_ok_def split: Option.bind_splits option.splits if_splits)
  moreover have "network_function nop_nf_handle (\<lambda>st. True) (ucast dc)" if "\<not> 0 < dc"
    using that by unfold_locales (simp add: word_neq_0_conv [symmetric])
  ultimately show "\<exists>nf_ok. network_function nop_nf_handle nf_ok (ucast dc) \<and> nf_ok st"
    using nop.network_function_axioms by blast
next
  fix om om' st dc assume ok: "alloc_ok om" and init: "mag_nf_init cfg om dc = Some (Some (st, om'))"
  obtain n where "mag_ok n st" "mag_devices_count st = dc" by (rule mag_init_correct [OF ok init assms])
  then show "\<exists>nf_ok. network_function mag_nf_handle nf_ok (ucast dc) \<and> nf_ok st"
    using mag.network_function_axioms by (intro exI [of _ "maglev_ok dc"]) (auto simp: maglev_ok_def)
next
  fix dc :: device_t show "\<exists>nf_ok. network_function dhcp_nf_handle nf_ok (ucast dc) \<and> nf_ok st" for st
    by (rule exI [of _ "\<lambda>st. True"]) (simp add: dhcp.network_function_axioms)
qed


text \<open>
  The router does not check the device of a route. With three devices and a route to device 7,
  the example packet makes \<open>net_transmit\<close> write to an output length outside of the array, and
  with the flags that the router gives also read addresses outside of theirs.
\<close>

lemma rt_bad_route_stuck:
  "rt_nf_handle rt_example_set rt_example_search \<lparr>rt_devices_count = 3, rt_lpm = 7\<rparr> rt_example_packet
    = Some (\<lparr>rt_devices_count = 3, rt_lpm = 7\<rparr>, rt_example_packet, [Net_Transmit 7 UPDATE_ETHER_ADDRS])"
  "net_transmit \<lparr>tx_devices_count = 3, tx_endpoint_macs = replicate 3 (replicate 6 0), tx_device_macs = replicate 3 (replicate 6 0)\<rparr>
    rt_example_packet [0, 0] 7 flags = None"
proof -
  show "rt_nf_handle rt_example_set rt_example_search \<lparr>rt_devices_count = 3, rt_lpm = 7\<rparr> rt_example_packet
    = Some (\<lparr>rt_devices_count = 3, rt_lpm = 7\<rparr>, rt_example_packet, [Net_Transmit 7 UPDATE_ETHER_ADDRS])" by code_simp
  show "net_transmit \<lparr>tx_devices_count = 3, tx_endpoint_macs = replicate 3 (replicate 6 0), tx_device_macs = replicate 3 (replicate 6 0)\<rparr>
    rt_example_packet [0, 0] 7 flags = None"
    by (cases flags) (simp_all add: net_transmit_def handle_flags_def arr_get_def arr_set_def index_from_device_def rt_example_packet_def)
qed

definition example_dma :: "nat \<Rightarrow> size_t \<Rightarrow> size_t \<Rightarrow> tn_agent \<Rightarrow> tn_agent" where
  "example_dma r j i a = a\<lparr>ag_packets := map (\<lambda>p. replicate 2048 1) (ag_packets a)\<rparr>"

lemma example_dma_writes: "card_writes a (example_dma r j i a)"
  unfolding example_dma_def card_writes_def
  by (intro exI [of _ "map (\<lambda>p. replicate 2048 1) (ag_packets a)"] exI [of _ "ag_rings a"] exI [of _ "ag_transmit_heads a"]) simp


end
