(* ===== verification/Program_Runs.thy ===== *)
theory Program_Runs
  imports Net_Main
begin

text \<open>
  From the packets in the rings to the packets on the wire: runs of the whole program, and the
  properties of the network functions carried over to them. A run is observed at the rings: each
  event is a packet that the driver takes out of a receive ring, together with the lengths that the
  transmit queues of the other devices then find in its descriptors; a length of zero means that
  the card skips the packet.
\<close>

section \<open>Events\<close>

definition arrival :: "size_t \<Rightarrow> 'nf stack_state \<Rightarrow> tn_agent \<Rightarrow> net_packet" where
  "arrival i s a = \<lparr>pkt_data = ag_packets a ! unat (ag_processed_delimiter a), pkt_length = packet_length a,
     pkt_time = ss_clock s (ss_readings s), pkt_device = ucast i\<rparr>"

text \<open>What the descriptor of the packet holds for a device, once the iteration is over.\<close>

definition handed :: "size_t \<Rightarrow> tn_agent \<Rightarrow> tn_agent \<Rightarrow> device_t \<Rightarrow> u64" where
  "handed i a a' dev = take_bit 16 (desc_metadata (output_descriptor a'
     (if ucast i < dev then unat dev - 1 else unat dev) (unat (ag_processed_delimiter a))))"

text \<open>
  The program runs in steps: the card writes into the memory of an agent, and the driver looks for a
  packet there. \<open>h\<close> is the state of the hardware, which does not matter for the events. The
  agents can take turns in any order.
\<close>

type_synonym event = "net_packet \<times> (device_t \<Rightarrow> u64)"

inductive program_run ::
    "'h hardware \<Rightarrow> 'nf nf_handler \<Rightarrow> 'nf stack_state \<Rightarrow> tn_agent list \<Rightarrow> event list \<Rightarrow> 'nf stack_state \<Rightarrow> tn_agent list \<Rightarrow> bool"
  for H nf_handle s0 agents0 where
  run_start: "program_run H nf_handle s0 agents0 [] s0 agents0"
| run_idle: "program_run H nf_handle s0 agents0 events s agents \<Longrightarrow> unat i < length agents \<Longrightarrow> card_writes (agents ! unat i) a \<Longrightarrow>
    tn_run_iteration H (stack_handler nf_handle) i s a h = Some (False, s', a', h') \<Longrightarrow>
    program_run H nf_handle s0 agents0 events s' (agents[unat i := a'])"
| run_packet: "program_run H nf_handle s0 agents0 events s agents \<Longrightarrow> unat i < length agents \<Longrightarrow> card_writes (agents ! unat i) a \<Longrightarrow>
    tn_run_iteration H (stack_handler nf_handle) i s a h = Some (True, s', a', h') \<Longrightarrow>
    program_run H nf_handle s0 agents0 (events @ [(arrival i s a, handed i a a')]) s' (agents[unat i := a'])"

section \<open>One iteration\<close>

lemma packet_length_bound: "unat (packet_length agent) < 65536"
  using take_bit_nat_less_exp [of 16] by (simp only: packet_length_def unsigned_take_bit_eq) simp

context network_function
begin

lemma iteration_packet:
  assumes "stack_ok nf_ok devices_count s" "agent_idle (devices_count - 1) a" "unat i < unat devices_count" "has_packet a"
  shows "\<exists>s' a' h'. tn_run_iteration H (stack_handler nf_handle) i s a h = Some (True, s', a', h')"
proof -
  obtain received s' a' h' where run: "tn_run_iteration H (stack_handler nf_handle) i s a h = Some (received, s', a', h')"
    using iteration_handles [where H = H and h = h, OF assms(1-3)] by blast
  have ok: "agent_ok a" using assms(2) by (simp add: agent_idle_def)
  have "received"
    using run assms(4) agent_ok_ring [OF ok] by (auto simp: tn_run_iteration_def has_packet_def done_flag Let_def split: Option.bind_splits if_splits)
  with run show ?thesis by simp
qed

lemma iteration_delivers:
  assumes ok: "stack_ok nf_ok devices_count s" and idle: "agent_idle (devices_count - 1) a" and i: "unat i < unat devices_count"
    and run: "tn_run_iteration H (stack_handler nf_handle) i s a h = Some (True, s', a', h')"
  obtains nf' packet' cmds where "nf_handle (ss_nf s) (arrival i s a) = Some (nf', packet', cmds)" "nf_ok nf'"
    "s' = s\<lparr>ss_nf := nf', ss_readings := ss_readings s + 1\<rparr>" "agent_idle (devices_count - 1) a'"
    "\<And>dev. unat dev < unat devices_count \<Longrightarrow> dev \<noteq> ucast i \<Longrightarrow>
      handed i a a' dev = (if \<exists>cmd. cmds = [cmd] \<and> tx_sends cmd dev then pkt_length packet' else 0)"
proof -
  have aok: "agent_ok a" and outs: "ag_outputs_count a = devices_count - 1" using idle by (simp_all add: agent_idle_def)
  have packet: "has_packet a"
    using run run_iteration_idle [OF aok, where handler = "stack_handler nf_handle" and H = H and index = i and s = s and h = h] by fastforce
  have lens: "length (ag_lengths a) = unat (devices_count - 1)" "\<forall>l \<in> set (ag_lengths a). l = 0"
    using idle aok outs by (simp_all add: agent_idle_def agent_ok_def)
  have len: "length (ag_packets a ! unat (ag_processed_delimiter a)) = 2048"
    using agent_ok_ring [OF aok] aok by (simp add: agent_ok_def)
  obtain nf' packet' cmds d lens' where handled:
    "nf_handle (ss_nf s) (arrival i s a) = Some (nf', packet', cmds)" "nf_ok nf'"
    "stack_handler nf_handle s i (ag_packets a ! unat (ag_processed_delimiter a)) (packet_length a) (ag_lengths a)
      = Some (s\<lparr>ss_nf := nf', ss_readings := ss_readings s + 1\<rparr>, d, lens')"
    "length d = 2048" "length lens' = length (ag_lengths a)" "\<forall>l \<in> set lens'. unat l < 65536"
    and sent: "\<forall>dev. unat dev < unat devices_count \<and> dev \<noteq> ucast i \<longrightarrow>
      lens' ! unat (index_from_device (arrival i s a) dev) = (if \<exists>cmd. cmds = [cmd] \<and> tx_sends cmd dev then pkt_length packet' else 0)"
    by (rule stack_delivers [OF ok i len packet_length_bound lens arrival_def])
  have lens': "length lens' = unat (ag_outputs_count a)" using handled(5) lens(1) outs by simp
  from run_iteration_packet(1) [where handler = "stack_handler nf_handle", OF aok packet handled(3) lens', of H h] run
  have res: "s' = s\<lparr>ss_nf := nf', ss_readings := ss_readings s + 1\<rparr>" "a' = after_packet a d lens'" by simp_all
  have "agent_ok a'" unfolding res(2) by (rule after_packet_ok [OF aok handled(4) lens'])
  then have idle': "agent_idle (devices_count - 1) a'"
    using outs by (simp_all add: res(2) agent_idle_def after_packet_def Let_def)
  have dc: "devices_ok devices_count" using ok by (auto simp: stack_ok_def tx_ok_def)
  have small: "unat i < 65536" using i dc by (simp add: word_le_nat_alt)
  have pred: "unat (devices_count - 1) = unat devices_count - 1" by (rule unat_pred_count [OF dc])
  have "handed i a a' dev = (if \<exists>cmd. cmds = [cmd] \<and> tx_sends cmd dev then pkt_length packet' else 0)"
    if dev: "unat dev < unat devices_count" "dev \<noteq> ucast i" for dev
  proof -
    let ?n = "unat (index_from_device (arrival i s a) dev)"
    have own: "unat (pkt_device (arrival i s a)) < unat devices_count" "dev \<noteq> pkt_device (arrival i s a)"
      using i dev small by (simp_all add: arrival_def unsigned_ucast_eq take_bit_nat_eq_self)
    have n: "?n < unat (ag_outputs_count a)"
      using index_from_device_other(1) [OF dc dev(1) own] outs pred by simp
    have "handed i a a' dev = take_bit 16 (desc_metadata (output_descriptor a' ?n (unat (ag_processed_delimiter a))))"
      by (simp add: handed_def unat_index_from_device arrival_def word_less_nat_alt)
    also have "\<dots> = lens' ! ?n"
      using n lens' handled(6) by (simp add: res(2) after_packet_descriptors(2) [OF aok lens' n] transmit_metadata_length)
    finally show ?thesis using sent dev by simp
  qed
  with handled(1,2) res(1) idle' show thesis by (rule that)
qed

end
section \<open>Runs\<close>

text \<open>
  A property of the handled packets and the network function's state that each handled packet keeps
  holds after every run.
\<close>

context network_function
begin

lemma run_lifts:
  assumes run: "program_run H nf_handle s0 agents0 events s agents"
    and ok: "stack_ok nf_ok devices_count s0"
    and agents: "length agents0 = unat devices_count" "\<forall>agent \<in> set agents0. agent_idle (devices_count - 1) agent"
    and start: "P [] (ss_nf s0)"
    and step: "\<And>events st packet sent st' packet' cmds. P events st \<Longrightarrow> nf_ok st \<Longrightarrow> length (pkt_data packet) = 2048
      \<Longrightarrow> pkt_time packet = ss_clock s0 (ss_readings s0 + length events) \<Longrightarrow> unat (pkt_device packet) < unat devices_count
      \<Longrightarrow> nf_handle st packet = Some (st', packet', cmds) \<Longrightarrow> nf_ok st'
      \<Longrightarrow> (\<And>dev. unat dev < unat devices_count \<Longrightarrow> dev \<noteq> pkt_device packet \<Longrightarrow>
            sent dev = (if \<exists>cmd. cmds = [cmd] \<and> tx_sends cmd dev then pkt_length packet' else 0))
      \<Longrightarrow> P (events @ [(packet, sent)]) st'"
  shows "P events (ss_nf s) \<and> stack_ok nf_ok devices_count s \<and> ss_clock s = ss_clock s0
    \<and> ss_readings s = ss_readings s0 + length events
    \<and> length agents = unat devices_count \<and> (\<forall>agent \<in> set agents. agent_idle (devices_count - 1) agent)"
  using run
proof induction
  case run_start
  then show ?case using ok agents start by simp
next
  case (run_idle events s agents i a h s' a' h')
  have idle: "agent_idle (devices_count - 1) a"
    using run_idle card_writes_idle(1) [OF run_idle.hyps(3)] by simp
  then have aok: "agent_ok a" by (simp add: agent_idle_def)
  have "\<not> has_packet a"
  proof
    assume packet: "has_packet a"
    have "stack_ok nf_ok devices_count s" "unat i < unat devices_count" using run_idle by simp_all
    from iteration_packet [where H = H and h = h, OF this(1) idle this(2) packet] run_idle.hyps(4) show False by simp
  qed
  from run_iteration_idle [where H = H and handler = "stack_handler nf_handle" and index = i and s = s and h = h, OF aok this] run_idle.hyps(4) have same: "s' = s" "a' = a" by simp_all
  have "\<forall>agent \<in> set (agents[unat i := a]). agent_idle (devices_count - 1) agent"
    using run_idle.IH idle set_update_subset_insert [of agents "unat i" a] by auto
  then show ?case using run_idle.IH by (simp add: same)
next
  case (run_packet events s agents i a h s' a' h')
  have idle: "agent_idle (devices_count - 1) a"
    using run_packet card_writes_idle(1) [OF run_packet.hyps(3)] by simp
  have i: "unat i < unat devices_count" using run_packet by simp
  have sok: "stack_ok nf_ok devices_count s" using run_packet.IH by blast
  then have dc: "devices_ok devices_count" by (auto simp: stack_ok_def tx_ok_def)
  have "unat i < 65536" using i dc by (simp add: word_le_nat_alt)
  then have dev: "unat (pkt_device (arrival i s a)) < unat devices_count"
    using i by (simp add: arrival_def unsigned_ucast_eq take_bit_nat_eq_self)
  have aok: "agent_ok a" using idle by (simp add: agent_idle_def)
  have len: "length (pkt_data (arrival i s a)) = 2048"
    using agent_ok_ring [OF aok] aok by (simp add: arrival_def agent_ok_def)
  have time: "pkt_time (arrival i s a) = ss_clock s0 (ss_readings s0 + length events)"
    using run_packet.IH by (simp add: arrival_def)
  show ?case
  proof (rule iteration_delivers [OF sok idle i run_packet.hyps(4)])
    fix nf' packet' cmds
    assume d: "nf_handle (ss_nf s) (arrival i s a) = Some (nf', packet', cmds)" "nf_ok nf'"
      "s' = s\<lparr>ss_nf := nf', ss_readings := ss_readings s + 1\<rparr>" "agent_idle (devices_count - 1) a'"
      and sent: "\<And>dev. unat dev < unat devices_count \<Longrightarrow> dev \<noteq> ucast i \<Longrightarrow>
        handed i a a' dev = (if \<exists>cmd. cmds = [cmd] \<and> tx_sends cmd dev then pkt_length packet' else 0)"
    have "nf_ok (ss_nf s)" using sok by (simp add: stack_ok_def)
    from step [OF _ this len time dev d(1,2)] run_packet.IH sent
    have P: "P (events @ [(arrival i s a, handed i a a')]) nf'" by (simp add: arrival_def)
    have "\<forall>agent \<in> set (agents[unat i := a']). agent_idle (devices_count - 1) agent"
      using run_packet.IH d(4) set_update_subset_insert [of agents "unat i" a'] by auto
    with P show ?case using run_packet.IH sok d(2,3) by (simp add: stack_ok_def)
  qed
qed

end
section \<open>The firewall, end to end\<close>

text \<open>The events before number \<open>k\<close> hold the packet that opened the connection, and a recent one of it.\<close>

definition fw_solicited :: "firewall \<Rightarrow> event list \<Rightarrow> net_packet \<Rightarrow> bool" where
  "fw_solicited st0 before packet \<longleftrightarrow>
     (\<exists>(q, sent) \<in> set before. is_tcpudp q \<and> pkt_device q \<noteq> fw_external_device st0
        \<and> packet_flow q = flow_inverse (packet_flow packet))
   \<and> (\<exists>(q, sent) \<in> set before. fw_belongs (fw_external_device st0) (flow_inverse (packet_flow packet)) q
        \<and> pool_young (pkt_time packet) (fw_expiration (fw_the_table st0)) (pkt_time q))"

lemma fw_run_solicited:
  assumes table: "fw_table_ok n (fw_the_table st0)" "\<And>f t. \<not> fw_holds (fw_the_table st0) f t"
    and run: "program_run H fw_nf_handle s0 agents0 events s agents"
    and s0: "stack_ok fw_ok 2 s0" "ss_nf s0 = st0"
    and agents: "length agents0 = unat (2 :: size_t)" "\<forall>agent \<in> set agents0. agent_idle (2 - 1) agent"
    and clock: "\<forall>t. ss_clock s0 t \<noteq> TIME_MAX"
  shows "fw_run st0 (map fst events) (ss_nf s) \<and> (\<forall>k < length events.
      pkt_device (fst (events ! k)) = fw_external_device st0 \<and> snd (events ! k) (1 - fw_external_device st0) \<noteq> 0
      \<longrightarrow> fw_solicited st0 (take k events) (fst (events ! k)))"
proof -
  let ?P = "\<lambda>events st. fw_run st0 (map fst events) st \<and> (\<forall>k < length events.
      pkt_device (fst (events ! k)) = fw_external_device st0 \<and> snd (events ! k) (1 - fw_external_device st0) \<noteq> 0
      \<longrightarrow> fw_solicited st0 (take k events) (fst (events ! k)))"
  have "?P events (ss_nf s) \<and> stack_ok fw_ok 2 s \<and> ss_clock s = ss_clock s0
    \<and> ss_readings s = ss_readings s0 + length events
    \<and> length agents = unat (2 :: size_t) \<and> (\<forall>agent \<in> set agents. agent_idle (2 - 1) agent)"
    using run s0(1) agents
  proof (rule fw.run_lifts [where P = ?P])
    show "?P [] (ss_nf s0)" by (simp add: fw_run_start s0(2))
    fix events st packet sent st' and packet' :: net_packet and cmds
    assume IH: "?P events st" and packet: "length (pkt_data packet) = 2048"
      "pkt_time packet = ss_clock s0 (ss_readings s0 + length events)" "unat (pkt_device packet) < unat (2 :: size_t)"
      and handled: "fw_nf_handle st packet = Some (st', packet', cmds)"
      and sent: "\<And>dev. unat dev < unat (2 :: size_t) \<Longrightarrow> dev \<noteq> pkt_device packet \<Longrightarrow>
        sent dev = (if \<exists>cmd. cmds = [cmd] \<and> tx_sends cmd dev then pkt_length packet' else 0)"
    have fit: "headers_fit packet" and time: "pkt_time packet \<noteq> TIME_MAX"
      using packet clock by (simp_all add: headers_fit_def)
    have "fw_run st0 (map fst events @ [packet]) st'"
      by (rule fw_run_step [OF _ fit time handled]) (use IH in simp)
    moreover have "fw_solicited st0 events packet"
      if ext: "pkt_device packet = fw_external_device st0" and "sent (1 - fw_external_device st0) \<noteq> 0"
    proof -
      have dev: "pkt_device packet = 0 \<or> pkt_device packet = 1" using packet(3) by (auto simp: word_unat_eq_iff)
      then have "unat (1 - pkt_device packet) < unat (2 :: size_t)" "1 - pkt_device packet \<noteq> pkt_device packet" by auto
      from sent [OF this] that have "cmds \<noteq> []" by auto
      have run: "fw_run st0 (map fst events) st" using IH by blast
      from fw_unsolicited_dropped [OF table run fit time ext handled \<open>cmds \<noteq> []\<close>] show ?thesis
        by (auto simp: fw_solicited_def split_beta)
    qed
    ultimately show "?P (events @ [(packet, sent)]) st'"
      using IH by (auto simp: nth_append less_Suc_eq)
  qed
  then show ?thesis by blast
qed

text \<open>
  C2: The firewall program as a whole lets no unsolicited packet through. After \<open>main\<close> has
  initialised the cards, the firewall and the agents, in every run, whatever the cards deliver and
  in whatever order, a packet that came in on the external device and that the other card finds
  with a length other than zero in its transmit ring was preceded by an internal packet of the
  inverse flow, and the connection was active within the configured expiration time.
\<close>

theorem firewall_program_safe:
  assumes "main_init H addresses (fw_nf_init cfg) om h = (Inr (Some p), h')" "length addresses < 0x10000" "alloc_ok om"
    and "\<forall>t. clock t \<noteq> TIME_MAX"
    and "program_run H fw_nf_handle (program_start p clock) (pr_agents p) events s agents"
    and "k < length events" "pkt_device (fst (events ! k)) = fw_external_device (pr_nf p)"
    and "snd (events ! k) (1 - fw_external_device (pr_nf p)) \<noteq> 0"
  shows "fw_solicited (pr_nf p) (take k events) (fst (events ! k))
    \<and> os_config_get_time cfg ''expiration time'' = Some (Some (fw_expiration (fw_the_table (pr_nf p))))"
proof -
  have init: "fst (main_init H addresses (fw_nf_init cfg) om h) = Inr (Some p)" and len: "length addresses \<le> 0x10000"
    using assms(1,2) by simp_all
  obtain om1 om2 where nf: "fw_nf_init cfg om1 (of_nat (length addresses)) = Some (Some (pr_nf p, om2))" "alloc_ok om1"
    using main_init_success [OF init len assms(3)] by metis
  show ?thesis
  proof (rule fw_init_correct [OF nf(2,1)])
    fix n assume table: "fw_table_ok n (fw_the_table (pr_nf p))" "\<And>f t. \<not> fw_holds (fw_the_table (pr_nf p)) f t"
      and two: "of_nat (length addresses) = (2 :: device_t)"
      and time: "os_config_get_time cfg ''expiration time'' = Some (Some (fw_expiration (fw_the_table (pr_nf p))))"
    have "length addresses = 2"
      using arg_cong [OF two, of unat] assms(2) by (simp add: unsigned_of_nat take_bit_nat_eq_self)
    then have count: "(2 :: size_t) = of_nat (length addresses)" by simp
    have "fw_ok (pr_nf p)" using table(1) by (auto simp: fw_ok_def)
    note start = fw.program_start_ok [OF init len assms(3) count _ this assms(4)]
    have nf: "ss_nf (program_start p clock) = pr_nf p" "\<forall>t. ss_clock (program_start p clock) t \<noteq> TIME_MAX"
      using assms(4) by (simp_all add: program_start_def)
    from fw_run_solicited [OF table assms(5) start(1) nf(1) start(2,3) nf(2)] assms(6-8) time show ?thesis by simp
  qed
qed
section \<open>An example run\<close>

text \<open>The card puts a packet of 60 bytes into every buffer of an agent.\<close>

definition padded :: "net_packet \<Rightarrow> byte list" where
  "padded packet = pkt_data packet @ replicate (2048 - length (pkt_data packet)) 0"

definition card_delivers :: "net_packet \<Rightarrow> tn_agent \<Rightarrow> tn_agent" where
  "card_delivers packet a = a\<lparr>ag_packets := replicate 256 (padded packet),
     ag_rings := map (map (\<lambda>d. d\<lparr>desc_metadata := 0x10000003C\<rparr>)) (ag_rings a)\<rparr>"

lemma padded_reads:
  assumes "headers_fit packet" "length (pkt_data packet) \<le> 2048"
  shows "length (padded packet) = 2048" "is_tcpudp \<lparr>pkt_data = padded packet, pkt_length = l, pkt_time = t, pkt_device = d\<rparr> = is_tcpudp packet"
    "packet_flow \<lparr>pkt_data = padded packet, pkt_length = l, pkt_time = t, pkt_device = d\<rparr> = packet_flow packet"
  using assms by (simp_all add: padded_def is_tcpudp_def packet_flow_def headers_fit_def nth_append)

lemma card_delivers_packet:
  assumes idle: "agent_idle outs a" and packet: "headers_fit packet" "length (pkt_data packet) \<le> 2048"
  shows "card_writes a (card_delivers packet a)" "has_packet (card_delivers packet a)" "agent_idle outs (card_delivers packet a)"
    "arrival i s (card_delivers packet a)
      = \<lparr>pkt_data = padded packet, pkt_length = 60, pkt_time = ss_clock s (ss_readings s), pkt_device = ucast i\<rparr>"
proof -
  have ok: "agent_ok a" using idle by (simp add: agent_idle_def)
  show w: "card_writes a (card_delivers packet a)"
    unfolding card_writes_def
    by (intro exI [of _ "replicate 256 (padded packet)"] exI [of _ "ag_transmit_heads a"]
        exI [of _ "map (map (\<lambda>d. d\<lparr>desc_metadata := 0x10000003C\<rparr>)) (ag_rings a)"])
      (use ok in \<open>simp add: card_delivers_def agent_ok_def padded_reads(1) [OF packet] comp_def\<close>)
  show "agent_idle outs (card_delivers packet a)" by (rule card_writes_idle(1) [OF w idle])
  have d: "unat (ag_processed_delimiter a) < length (ag_rings a ! 0)" "0 < length (ag_rings a)"
    using agent_ok_ring [OF ok] by simp_all
  then show "has_packet (card_delivers packet a)"
    by (simp add: has_packet_def card_delivers_def)
  have "packet_length (card_delivers packet a) = 60"
    using d by (simp add: packet_length_def card_delivers_def)
  then show "arrival i s (card_delivers packet a)
      = \<lparr>pkt_data = padded packet, pkt_length = 60, pkt_time = ss_clock s (ss_readings s), pkt_device = ucast i\<rparr>"
    using agent_ok_ring(1) [OF ok] by (simp add: arrival_def card_delivers_def)
qed

text \<open>A request from the inside and its reply, on two agents between packets.\<close>

definition example_clock :: "nat \<Rightarrow> time_t" where
  "example_clock k = (if k = 0 then 5 else 6)"

lemma example_data: "headers_fit example_request" "length (pkt_data example_request) \<le> 2048"
  "headers_fit example_reply" "length (pkt_data example_reply) \<le> 2048"
  by (simp_all add: headers_fit_def example_request_def example_reply_def example_udp_def)

lemma example_fw_run:
  assumes s0: "stack_ok fw_ok 2 s0" "ss_clock s0 = example_clock" "ss_readings s0 = 0"
    and agents: "length agents0 = unat (2 :: size_t)" "\<forall>agent \<in> set agents0. agent_idle (2 - 1) agent"
    and table: "fw_table_ok 2 (fw_the_table (ss_nf s0))" "\<And>f t. \<not> fw_holds (fw_the_table (ss_nf s0)) f t"
    and ext: "fw_external_device (ss_nf s0) = 1" "fw_expiration (fw_the_table (ss_nf s0)) = 1000"
  shows "\<exists>events s agents. program_run H fw_nf_handle s0 agents0 events s agents \<and> length events = 2
    \<and> pkt_device (fst (events ! 1)) = 1 \<and> snd (events ! 1) 0 \<noteq> 0"
proof -
  obtain A B where AB: "agents0 = [A, B]"
  proof -
    have "length agents0 = Suc (Suc 0)" using agents(1) by simp
    then show ?thesis by (auto simp: length_Suc_conv intro: that)
  qed
  let ?a = "card_delivers example_request A" and ?b = "card_delivers example_reply B"
  have idle: "agent_idle (2 - 1) A" "agent_idle (2 - 1) B" using agents AB by simp_all
  note a = card_delivers_packet [OF idle(1) example_data(1,2)] and b = card_delivers_packet [OF idle(2) example_data(3,4)]
  let ?q = "arrival 0 s0 ?a"
  have q: "headers_fit ?q" "pkt_time ?q = 5" "is_tcpudp ?q" "pkt_device ?q = 0" "packet_flow ?q = packet_flow example_request"
    using padded_reads [OF example_data(1,2)] example_packets(3)
    by (simp_all add: a(4) s0 example_clock_def headers_fit_def)
  have empty: "\<not> fw_full 2 (fw_the_table (ss_nf s0)) now" for now
  proof
    assume "fw_full 2 (fw_the_table (ss_nf s0)) now"
    then obtain f t where "table_maps (fw_flows (fw_the_table (ss_nf s0))) (fw_port_allocator (fw_the_table (ss_nf s0))) f 0 t"
      unfolding fw_full_def by (auto dest: spec [of _ 0])
    then show False using table(2) by (auto simp: fw_holds_def table_holds_def)
  qed
  obtain s1 a1 h1 where one: "tn_run_iteration H (stack_handler fw_nf_handle) 0 s0 ?a h = Some (True, s1, a1, h1)"
    using fw.iteration_packet [where H = H and h = h and i = 0, OF s0(1) a(3) _ a(2)] by auto
  have run1: "program_run H fw_nf_handle s0 agents0 ([] @ [(?q, handed 0 ?a a1)]) s1 (agents0[unat (0 :: size_t) := a1])"
    by (rule program_run.run_packet [OF program_run.run_start _ _ one]) (use AB a(1) in simp_all)
  obtain nf1 p1 c1 where h1: "fw_nf_handle (ss_nf s0) ?q = Some (nf1, p1, c1)" "fw_ok nf1"
    "s1 = s0\<lparr>ss_nf := nf1, ss_readings := ss_readings s0 + 1\<rparr>" "agent_idle (2 - 1) a1"
    by (rule fw.iteration_delivers [OF s0(1) a(3) _ one]) simp_all
  have s1: "stack_ok fw_ok 2 s1" using s0(1) h1(2,3) by (simp add: stack_ok_def)
  let ?p = "arrival 1 s1 ?b"
  have p: "headers_fit ?p" "pkt_time ?p = 6" "is_tcpudp ?p" "pkt_device ?p = 1" "packet_flow ?p = flow_inverse (packet_flow example_request)"
    using padded_reads [OF example_data(3,4)] example_packets(4,9)
    by (simp_all add: b(4) h1(3) s0 example_clock_def headers_fit_def)
  have "\<exists>st1 q' out1 st2. fw_nf_handle (ss_nf s0) ?q = Some (st1, q', out1)
    \<and> fw_nf_handle st1 ?p = Some (st2, ?p, [Net_Transmit (1 - pkt_device ?p) NONE])"
    by (rule fw_reply_handled [OF table(1) q(1) _ q(3) _ _ p(1) _ p(3)])
      (use q p ext empty in \<open>simp_all add: TIME_MAX_def pool_young_def\<close>)
  then obtain st2 where reply: "fw_nf_handle nf1 ?p = Some (st2, ?p, [Net_Transmit 0 NONE])" using h1(1) p(4) by auto
  obtain s2 b1 h2 where two: "tn_run_iteration H (stack_handler fw_nf_handle) 1 s1 ?b h = Some (True, s2, b1, h2)"
    using fw.iteration_packet [where H = H and h = h and i = 1, OF s1 b(3) _ b(2)] by auto
  have run2: "program_run H fw_nf_handle s0 agents0 (([] @ [(?q, handed 0 ?a a1)]) @ [(?p, handed 1 ?b b1)]) s2
      ((agents0[unat (0 :: size_t) := a1])[unat (1 :: size_t) := b1])"
    by (rule program_run.run_packet [OF run1 _ _ two]) (use AB b(1) in simp_all)
  have "handed 1 ?b b1 0 \<noteq> 0"
  proof (rule fw.iteration_delivers [OF s1 b(3) _ two])
    fix nf' packet' cmds
    assume r: "fw_nf_handle (ss_nf s1) ?p = Some (nf', packet', cmds)"
      and sent: "\<And>dev. unat dev < unat (2 :: size_t) \<Longrightarrow> dev \<noteq> ucast (1 :: size_t) \<Longrightarrow>
        handed 1 ?b b1 dev = (if \<exists>cmd. cmds = [cmd] \<and> tx_sends cmd dev then pkt_length packet' else 0)"
    have "packet' = ?p" "cmds = [Net_Transmit 0 NONE]" using r reply h1(3) by simp_all
    then show ?thesis using sent [of 0] by (simp add: b(4))
  qed simp
  with run2 p(4) show ?thesis
    by (intro exI [of _ "[(?q, handed 0 ?a a1), (?p, handed 1 ?b b1)]"] exI conjI) simp_all
qed

text \<open>The same machine as in \<open>Net_Main\<close>, with a firewall.\<close>

lemma example_fw_allocs:
  "os_memory_alloc \<lparr>mem_base = 0x40000000, mem_used = 0x10\<rparr> 1 24 = Some (0x40000040, \<lparr>mem_base = 0x40000000, mem_used = 0x58\<rparr>)"
  "os_memory_alloc \<lparr>mem_base = 0x40000000, mem_used = 0x58\<rparr> 2 16 = Some (0x40000080, \<lparr>mem_base = 0x40000000, mem_used = 0xa0\<rparr>)"
  "os_memory_alloc \<lparr>mem_base = 0x40000000, mem_used = 0xa0\<rparr> 1 24 = Some (0x400000c0, \<lparr>mem_base = 0x40000000, mem_used = 0xd8\<rparr>)"
  "os_memory_alloc \<lparr>mem_base = 0x40000000, mem_used = 0xd8\<rparr> 2 32 = Some (0x40000100, \<lparr>mem_base = 0x40000000, mem_used = 0x140\<rparr>)"
  "os_memory_alloc \<lparr>mem_base = 0x40000000, mem_used = 0x140\<rparr> 1 32 = Some (0x40000140, \<lparr>mem_base = 0x40000000, mem_used = 0x160\<rparr>)"
  "os_memory_alloc \<lparr>mem_base = 0x40000000, mem_used = 0x160\<rparr> 2 8 = Some (0x40000180, \<lparr>mem_base = 0x40000000, mem_used = 0x190\<rparr>)"
  "os_memory_alloc \<lparr>mem_base = 0x40000000, mem_used = 0x190\<rparr> 2 16 = Some (0x400001c0, \<lparr>mem_base = 0x40000000, mem_used = 0x1e0\<rparr>)"
  "os_memory_alloc \<lparr>mem_base = 0x40000000, mem_used = 0x1e0\<rparr> 2 6 = Some (0x40000200, \<lparr>mem_base = 0x40000000, mem_used = 0x20c\<rparr>)"
  "os_memory_alloc \<lparr>mem_base = 0x40000000, mem_used = 0x20c\<rparr> 2 6 = Some (0x40000240, \<lparr>mem_base = 0x40000000, mem_used = 0x24c\<rparr>)"
  "os_memory_alloc \<lparr>mem_base = 0x40000000, mem_used = 0x24c\<rparr> 2 64 = Some (0x40000280, \<lparr>mem_base = 0x40000000, mem_used = 0x300\<rparr>)"
  by (simp_all add: os_memory_alloc_def CACHE_LINE_SIZE_def OS_MEMORY_SIZE_def SIZE_MAX_def Let_def)

lemma example_fw_agent_allocs:
  "os_memory_alloc \<lparr>mem_base = 0x40000000, mem_used = 0x300\<rparr> 256 2048 = Some (0x40000440, \<lparr>mem_base = 0x40000000, mem_used = 0x80440\<rparr>)"
  "os_memory_alloc \<lparr>mem_base = 0x40000000, mem_used = 0x80440\<rparr> 1 8 = Some (0x40080440, \<lparr>mem_base = 0x40000000, mem_used = 0x80448\<rparr>)"
  "os_memory_alloc \<lparr>mem_base = 0x40000000, mem_used = 0x80448\<rparr> 1 64 = Some (0x40080480, \<lparr>mem_base = 0x40000000, mem_used = 0x804c0\<rparr>)"
  "os_memory_alloc \<lparr>mem_base = 0x40000000, mem_used = 0x804c0\<rparr> 1 8 = Some (0x400804c0, \<lparr>mem_base = 0x40000000, mem_used = 0x804c8\<rparr>)"
  "os_memory_alloc \<lparr>mem_base = 0x40000000, mem_used = 0x804c8\<rparr> 1 8 = Some (0x40080500, \<lparr>mem_base = 0x40000000, mem_used = 0x80508\<rparr>)"
  "os_memory_alloc \<lparr>mem_base = 0x40000000, mem_used = 0x80508\<rparr> 256 16 = Some (0x40080540, \<lparr>mem_base = 0x40000000, mem_used = 0x81540\<rparr>)"
  "os_memory_alloc \<lparr>mem_base = 0x40000000, mem_used = 0x81540\<rparr> 256 2048 = Some (0x40081b00, \<lparr>mem_base = 0x40000000, mem_used = 0x101b00\<rparr>)"
  "os_memory_alloc \<lparr>mem_base = 0x40000000, mem_used = 0x101b00\<rparr> 1 8 = Some (0x40101b00, \<lparr>mem_base = 0x40000000, mem_used = 0x101b08\<rparr>)"
  "os_memory_alloc \<lparr>mem_base = 0x40000000, mem_used = 0x101b08\<rparr> 1 64 = Some (0x40101b80, \<lparr>mem_base = 0x40000000, mem_used = 0x101bc0\<rparr>)"
  "os_memory_alloc \<lparr>mem_base = 0x40000000, mem_used = 0x101bc0\<rparr> 1 8 = Some (0x40101bc0, \<lparr>mem_base = 0x40000000, mem_used = 0x101bc8\<rparr>)"
  "os_memory_alloc \<lparr>mem_base = 0x40000000, mem_used = 0x101bc8\<rparr> 1 8 = Some (0x40101c00, \<lparr>mem_base = 0x40000000, mem_used = 0x101c08\<rparr>)"
  "os_memory_alloc \<lparr>mem_base = 0x40000000, mem_used = 0x101c08\<rparr> 256 16 = Some (0x40101c40, \<lparr>mem_base = 0x40000000, mem_used = 0x102c40\<rparr>)"
  by (simp_all add: os_memory_alloc_def CACHE_LINE_SIZE_def OS_MEMORY_SIZE_def SIZE_MAX_def Let_def)

lemma answering_fw_agents:
  "\<exists>devices agents om. fst (main_agents answering 2 0 example_devices (replicate 2 zero_agent)
      \<lparr>mem_base = 0x40000000, mem_used = 0x300\<rparr> False) = Inr (devices, agents, om)"
  by (simp add: main_agents.simps tn_agent_init_def Let_def ixgbe_constants and_then_def or_else_def example_fw_agent_allocs fatal_def
      agent_init_loop.simps agent_program_ring_def agent_program_head_def tn_agent_add_output_def tn_agent_set_input_def
      agent_enable_receive_def example_devices_def descriptor_ring_alloc_def no_timeout answering_values split_beta zero_agent_def
      arr_get_def word_le_nat_alt)

lemma example_fw_main_init:
  "\<exists>p. fst (main_init answering example_addresses (fw_nf_init fw_example_config) example_start False) = Inr (Some p)
    \<and> fw_external_device (pr_nf p) = 1"
proof -
  obtain endpoint_macs device_macs where devices: "main_devices answering example_addresses 2 0 (replicate 2 null_device)
      (replicate 2 (replicate 6 0)) (replicate 2 (replicate 6 0)) False
    = (Inr (example_devices, endpoint_macs, device_macs), False)" using answering_devices by blast
  obtain devices agents om h where agents: "main_agents answering 2 0 example_devices (replicate 2 zero_agent)
      \<lparr>mem_base = 0x40000000, mem_used = 0x300\<rparr> False = (Inr (devices, agents, om), h)"
    using answering_fw_agents prod.collapse by metis
  have count: "length example_addresses = 2" by (simp add: example_addresses_def)
  show ?thesis
    by (simp add: main_init_def os_pci_enumerate_def count or_else_def and_then_def example_main_allocs(1) example_fw_allocs Let_def devices
        agents agents_alloc_def fw_nf_init_def fw_flow_table_alloc_def map_alloc_def index_pool_alloc_def
        fw_example_config_reads fw_example_loops)
qed

theorem firewall_program_safe_witness:
  "\<exists>p events s agents. fst (main_init answering example_addresses (fw_nf_init fw_example_config) example_start False) = Inr (Some p)
    \<and> program_run answering fw_nf_handle (program_start p example_clock) (pr_agents p) events s agents
    \<and> snd (events ! 1) 0 \<noteq> 0 \<and> fw_solicited (pr_nf p) (take 1 events) (fst (events ! 1))"
proof -
  obtain p h where init: "main_init answering example_addresses (fw_nf_init fw_example_config) example_start False = (Inr (Some p), h)"
    and ext: "fw_external_device (pr_nf p) = 1"
    using example_fw_main_init prod.collapse by metis
  have fst: "fst (main_init answering example_addresses (fw_nf_init fw_example_config) example_start False) = Inr (Some p)"
    using init by simp
  have len: "length example_addresses \<le> 0x10000" "(2 :: size_t) = of_nat (length example_addresses)" "length example_addresses < 0x10000"
    by (simp_all add: example_addresses_def)
  have om: "alloc_ok example_start" by (simp add: alloc_ok_def)
  have clock: "\<forall>t. example_clock t \<noteq> TIME_MAX" by (simp add: example_clock_def TIME_MAX_def)
  obtain om1 om2 where nf: "fw_nf_init fw_example_config om1 (of_nat (length example_addresses)) = Some (Some (pr_nf p, om2))" "alloc_ok om1"
    using main_init_success [OF fst len(1) om] by metis
  have "\<exists>events s agents. program_run answering fw_nf_handle (program_start p example_clock) (pr_agents p) events s agents
      \<and> length events = 2 \<and> pkt_device (fst (events ! 1)) = 1 \<and> snd (events ! 1) 0 \<noteq> 0"
  proof (rule fw_init_correct [OF nf(2,1)])
    fix n assume table: "fw_table_ok n (fw_the_table (pr_nf p))" "\<And>f t. \<not> fw_holds (fw_the_table (pr_nf p)) f t"
      and cfg: "os_config_get_size fw_example_config ''max flows'' = Some (Some n)"
        "os_config_get_time fw_example_config ''expiration time'' = Some (Some (fw_expiration (fw_the_table (pr_nf p))))"
    have n: "n = 2" "fw_expiration (fw_the_table (pr_nf p)) = 1000" using cfg by (simp_all add: fw_example_config_reads)
    have "fw_ok (pr_nf p)" using table(1) by (auto simp: fw_ok_def)
    note start = fw.program_start_ok [OF fst len(1) om len(2) _ this clock]
    have st: "ss_nf (program_start p example_clock) = pr_nf p" "ss_clock (program_start p example_clock) = example_clock"
      "ss_readings (program_start p example_clock) = 0"
      by (simp_all add: program_start_def)
    show ?thesis
      by (rule example_fw_run [OF start(1) st(2,3) start(2,3)]) (use table n ext in \<open>simp_all add: st(1)\<close>)
  qed
  then obtain events s agents where run: "program_run answering fw_nf_handle (program_start p example_clock) (pr_agents p) events s agents"
    "length events = 2" "pkt_device (fst (events ! 1)) = 1" "snd (events ! 1) 0 \<noteq> 0" by blast
  have "fw_solicited (pr_nf p) (take 1 events) (fst (events ! 1))"
    using firewall_program_safe [OF init len(3) om clock run(1), of 1] run(2-4) ext by simp
  with fst run(1,4) show ?thesis by blast
qed
section \<open>The loops of the driver are runs\<close>

lemma loop_is_run:
  assumes "program_run H nf_handle s0 agents0 events s agents" "unat i < length agents" "agents ! unat i = a"
    and dma: "\<And>j a. card_writes a (dma j a)"
    and "tn_run_loop H (stack_handler nf_handle) dma i n s a h = Some (flush_counter, s', a', h')"
  shows "\<exists>events'. program_run H nf_handle s0 agents0 (events @ events') s' (agents[unat i := a'])"
  using assms(1-3,5)
proof (induction "unat (IXGBE_AGENT_FLUSH_PERIOD - n)" arbitrary: n s a h agents events rule: less_induct)
  case less
  show ?case
  proof (cases "n < IXGBE_AGENT_FLUSH_PERIOD")
    case False
    with less.prems have "s' = s" "agents[unat i := a'] = agents" by (auto simp: tn_run_loop.simps)
    then show ?thesis using less.prems(1) by (intro exI [of _ "[]"]) simp
  next
    case True
    from less.prems(4) True obtain received s1 a1 h1 where
      step: "tn_run_iteration H (stack_handler nf_handle) i s (dma n a) h = Some (received, s1, a1, h1)"
      and rest: "if received then tn_run_loop H (stack_handler nf_handle) dma i (n + 1) s1 a1 h1 = Some (flush_counter, s', a', h')
        else s' = s1 \<and> a' = a1"
      by (auto simp: tn_run_loop.simps [of H "stack_handler nf_handle" dma i n] split: Option.bind_splits if_splits)
    have w: "card_writes (agents ! unat i) (dma n a)" using dma less.prems(3) by simp
    show ?thesis
    proof (cases received)
      case False
      then have "program_run H nf_handle s0 agents0 events s1 (agents[unat i := a1])"
        using run_idle [OF less.prems(1,2) w] step by simp
      with rest False show ?thesis by (intro exI [of _ "[]"]) simp
    next
      case received: True
      let ?events = "events @ [(arrival i s (dma n a), handed i (dma n a) a1)]"
      have "program_run H nf_handle s0 agents0 ?events s1 (agents[unat i := a1])"
        using run_packet [OF less.prems(1,2) w] step received by simp
      from less.hyps [OF word_loop_decreases [OF True] this] less.prems(2) rest received
      obtain events' where "program_run H nf_handle s0 agents0 (?events @ events') s' ((agents[unat i := a1])[unat i := a'])" by auto
      then show ?thesis by (intro exI [of _ "(arrival i s (dma n a), handed i (dma n a) a1) # events'"]) simp
    qed
  qed
qed

lemma round_is_run:
  assumes "program_run H nf_handle s0 agents0 events s agents" "length agents = unat count"
    and dma: "\<And>r j a. card_writes a (dma r j a)"
    and "foreach_index (\<lambda>i (s, agents, h). tn_run_peragent H (stack_handler nf_handle) (dma i) i s agents h) count n (s, agents, h)
      = Some (s', agents', h')"
  shows "length agents' = length agents \<and> (\<exists>events'. program_run H nf_handle s0 agents0 (events @ events') s' agents')"
  using assms(1,2,4)
proof (induction "unat (count - n)" arbitrary: n s agents h events rule: less_induct)
  case less
  show ?case
  proof (cases "n < count")
    case False
    with less.prems show ?thesis by (auto simp: foreach_index.simps intro: exI [of _ "[]"])
  next
    case True
    from less.prems(3) True obtain s1 agents1 h1 where
      step: "tn_run_peragent H (stack_handler nf_handle) (dma n) n s agents h = Some (s1, agents1, h1)"
      and rest: "foreach_index (\<lambda>i (s, agents, h). tn_run_peragent H (stack_handler nf_handle) (dma i) i s agents h) count (n + 1)
        (s1, agents1, h1) = Some (s', agents', h')"
      by (auto simp: foreach_index.simps [of _ count n] split: Option.bind_splits)
    from step obtain c a1 h2 where loop: "tn_run_loop H (stack_handler nf_handle) (dma n) n 0 s (agents ! unat n) h = Some (c, s1, a1, h2)"
      and bound: "unat n < length agents" and agents1: "agents1 = agents[unat n := a1]"
      by (auto simp: tn_run_peragent_def split: Option.bind_splits if_splits dest!: arr_set_SomeD arr_get_SomeD)
    obtain events1 where run: "program_run H nf_handle s0 agents0 (events @ events1) s1 agents1"
      using loop_is_run [OF less.prems(1) bound refl dma loop] agents1 by blast
    have "length agents1 = unat count" using agents1 less.prems(2) by simp
    from less.hyps [OF word_loop_decreases [OF True] run this rest] agents1 show ?thesis by auto
  qed
qed

text \<open>
  C6: The loops of the driver only do what the runs describe: the state after any number of rounds of
  \<open>tn_run\<close> over all agents, with bursts of up to eight packets per agent and whatever the cards
  write in between, is the end of a run in which packets arrive one at a time.
\<close>

theorem rounds_are_runs:
  assumes "length agents0 = unat count" and dma: "\<And>r j i a. card_writes a (dma r j i a)"
    and "tn_run_rounds H (stack_handler nf_handle) dma count k (s0, agents0, h0) = Some (s, agents, h)"
  shows "\<exists>events. program_run H nf_handle s0 agents0 events s agents"
proof -
  have "length agents = unat count \<and> (\<exists>events. program_run H nf_handle s0 agents0 events s agents)"
    using assms(3)
  proof (induction k arbitrary: s agents h)
    case 0
    then have "s = s0" "agents = agents0" by simp_all
    then show ?case using assms(1) run_start [of H nf_handle s0 agents0] by blast
  next
    case (Suc k)
    then obtain s1 agents1 h1 where "tn_run_rounds H (stack_handler nf_handle) dma count k (s0, agents0, h0) = Some (s1, agents1, h1)"
      and round: "foreach_index (\<lambda>i (s, agents, h). tn_run_peragent H (stack_handler nf_handle) (dma k i) i s agents h) count 0
        (s1, agents1, h1) = Some (s, agents, h)"
      by (auto split: Option.bind_splits)
    with Suc.IH obtain events where "length agents1 = unat count" "program_run H nf_handle s0 agents0 events s1 agents1" by blast
    from round_is_run [OF this(2,1) dma round] this(1) show ?case by auto
  qed
  then show ?thesis ..
qed

theorem rounds_are_runs_witness:
  "\<exists>p s agents h events. fst (main_init answering example_addresses (fw_nf_init fw_example_config) example_start False) = Inr (Some p)
    \<and> tn_run_rounds answering (stack_handler fw_nf_handle) example_dma 2 3 (program_start p example_clock, pr_agents p, False) = Some (s, agents, h)
    \<and> program_run answering fw_nf_handle (program_start p example_clock) (pr_agents p) events s agents"
proof -
  obtain p where init: "fst (main_init answering example_addresses (fw_nf_init fw_example_config) example_start False) = Inr (Some p)"
    using example_fw_main_init by blast
  have len: "length example_addresses \<le> 0x10000" "(2 :: size_t) = of_nat (length example_addresses)"
    by (simp_all add: example_addresses_def)
  have om: "alloc_ok example_start" by (simp add: alloc_ok_def)
  have clock: "\<forall>t. example_clock t \<noteq> TIME_MAX" by (simp add: example_clock_def TIME_MAX_def)
  obtain om1 om2 where nf: "fw_nf_init fw_example_config om1 (of_nat (length example_addresses)) = Some (Some (pr_nf p, om2))" "alloc_ok om1"
    using main_init_success [OF init len(1) om] by metis
  have "fw_ok (pr_nf p)" by (rule fw_init_correct [OF nf(2,1)]) (auto simp: fw_ok_def)
  note start = fw.program_start_ok [OF init len(1) om len(2) _ this clock] and runs = fw.program_runs [OF init len(1) om len(2) this clock]
  have dma: "card_writes a (example_dma r j i a)" for r j i a by (rule example_dma_writes)
  from runs [where dma = example_dma and k = 3 and h' = False, OF dma] obtain r where
    "tn_run_rounds answering (stack_handler fw_nf_handle) example_dma 2 3 (program_start p example_clock, pr_agents p, False) = Some r"
    by blast
  moreover obtain s agents h where "r = (s, agents, h)" by (cases r)
  ultimately have
    run: "tn_run_rounds answering (stack_handler fw_nf_handle) example_dma 2 3 (program_start p example_clock, pr_agents p, False) = Some (s, agents, h)"
    by simp
  from rounds_are_runs [where dma = example_dma, OF start(2) dma run] init run show ?thesis by auto
qed
section \<open>The policer, end to end\<close>

text \<open>The bytes that the other card is handed for an address.\<close>

definition policed_bytes :: "policer \<Rightarrow> u32 \<Rightarrow> event list \<Rightarrow> nat" where
  "policed_bytes st0 a events = (\<Sum>(packet, sent) \<leftarrow> events.
     if pol_policed st0 packet \<and> pol_dst packet = a then unat (sent (1 - pol_wan_device st0)) else 0)"

lemma pol_run_bytes:
  assumes nf: "pol_ok n st0"
    and run: "program_run H pol_nf_handle s0 agents0 events s agents"
    and s0: "stack_ok policer_ok 2 s0" "ss_nf s0 = st0"
    and agents: "length agents0 = unat (2 :: size_t)" "\<forall>agent \<in> set agents0. agent_idle (2 - 1) agent"
    and clock: "\<forall>t. ss_clock s0 t \<noteq> TIME_MAX" "\<forall>i j. i \<le> j \<longrightarrow> ss_clock s0 i \<le> ss_clock s0 j"
  shows "pol_run a st0 (map fst events) (policed_bytes st0 a events) (ss_nf s)"
proof -
  let ?P = "\<lambda>events st. pol_run a st0 (map fst events) (policed_bytes st0 a events) st \<and> pol_same_config st0 st \<and> (\<exists>n. pol_ok n st)
      \<and> (\<forall>q \<in> set (map fst events). \<exists>k \<le> length events. pkt_time q = ss_clock s0 (ss_readings s0 + k))"
  have "?P events (ss_nf s) \<and> stack_ok policer_ok 2 s \<and> ss_clock s = ss_clock s0
    \<and> ss_readings s = ss_readings s0 + length events
    \<and> length agents = unat (2 :: size_t) \<and> (\<forall>agent \<in> set agents. agent_idle (2 - 1) agent)"
    using run s0(1) agents
  proof (rule pol.run_lifts [where P = ?P])
    show "?P [] (ss_nf s0)" using nf by (auto simp: pol_run_start s0(2) policed_bytes_def pol_same_config_def)
    fix events st packet sent st' and packet' :: net_packet and cmds
    assume IH: "?P events st" and packet: "length (pkt_data packet) = 2048"
      "pkt_time packet = ss_clock s0 (ss_readings s0 + length events)" "unat (pkt_device packet) < unat (2 :: size_t)"
      and handled: "pol_nf_handle st packet = Some (st', packet', cmds)"
      and sent: "\<And>dev. unat dev < unat (2 :: size_t) \<Longrightarrow> dev \<noteq> pkt_device packet \<Longrightarrow>
        sent dev = (if \<exists>cmd. cmds = [cmd] \<and> tx_sends cmd dev then pkt_length packet' else 0)"
    have fit: "headers_fit packet" and time: "pkt_time packet \<noteq> TIME_MAX"
      using packet clock(1) by (simp_all add: headers_fit_def)
    from IH obtain n where "pol_ok n st" by blast
    then obtain result: "packet' = packet" "cmds \<in> {[], pol_forward packet}" "pol_same_config st st'" "pol_ok n st'"
      by (rule pol_handle_ok [OF _ fit time]) (use handled in simp)
    have same: "pol_same_config st0 st'" using IH result(3) by (simp add: pol_same_config_def)
    have dev: "pkt_device packet = 0 \<or> pkt_device packet = 1" using packet(3) by (auto simp: word_unat_eq_iff)
    then have "unat (1 - pkt_device packet) < unat (2 :: size_t)" "1 - pkt_device packet \<noteq> pkt_device packet" by auto
    from sent [OF this] result(1,2) have bytes: "sent (1 - pkt_device packet) = (if cmds \<noteq> [] then pkt_length packet else 0)" by auto
    have wan: "pol_policed st = pol_policed st0" using IH by (simp add: pol_policed_def pol_same_config_def fun_eq_iff)
    have "policed_bytes st0 a (events @ [(packet, sent)]) = policed_bytes st0 a events
        + (if pol_policed st packet \<and> pol_dst packet = a \<and> cmds \<noteq> [] then unat (pkt_length packet) else 0)"
      using bytes by (cases "pkt_device packet = pol_wan_device st0") (auto simp: policed_bytes_def wan pol_policed_def)
    moreover have "\<forall>q \<in> set (map fst events). pkt_time q \<le> pkt_time packet"
    proof
      fix q assume "q \<in> set (map fst events)"
      then obtain k where "k \<le> length events" "pkt_time q = ss_clock s0 (ss_readings s0 + k)" using IH by blast
      then show "pkt_time q \<le> pkt_time packet" using clock(2) by (simp add: packet(2))
    qed
    ultimately have "pol_run a st0 (map fst (events @ [(packet, sent)])) (policed_bytes st0 a (events @ [(packet, sent)])) st'"
      using pol_run_step [OF _ fit time _ handled] IH by simp
    moreover have "\<forall>q \<in> set (map fst (events @ [(packet, sent)])). \<exists>k \<le> length (events @ [(packet, sent)]). pkt_time q = ss_clock s0 (ss_readings s0 + k)"
      using IH packet(2) by (auto intro: le_SucI)
    ultimately show "?P (events @ [(packet, sent)]) st'" using same result(4) by blast
  qed
  then show ?thesis by blast
qed

text \<open>A policer on the same machine, and a run in which one packet arrives from the WAN.\<close>

definition pol_example_config :: config where
  "pol_example_config = [(''burst'', 100), (''max flows'', 2), (''rate'', 10), (''wan device'', 1)]"

lemma pol_example_config_reads:
  "os_config_get_device pol_example_config ''wan device'' 2 = Some (Some 1)"
  "os_config_get_u64 pol_example_config ''rate'' = Some (Some 10)" "os_config_get_u64 pol_example_config ''burst'' = Some (Some 100)"
  "os_config_get_size pol_example_config ''max flows'' = Some (Some 2)"
  by (simp_all add: os_config_get_device_def os_config_get_u64_def os_config_get_size_def pol_example_config_def
      os_config_get_correct config_ok_def c_string_def)

lemma example_pol_allocs:
  "os_memory_alloc \<lparr>mem_base = 0x40000000, mem_used = 0x10\<rparr> 2 16 = Some (0x40000040, \<lparr>mem_base = 0x40000000, mem_used = 0x60\<rparr>)"
  "os_memory_alloc \<lparr>mem_base = 0x40000000, mem_used = 0x60\<rparr> 2 4 = Some (0x40000080, \<lparr>mem_base = 0x40000000, mem_used = 0x88\<rparr>)"
  "os_memory_alloc \<lparr>mem_base = 0x40000000, mem_used = 0x88\<rparr> 1 24 = Some (0x400000c0, \<lparr>mem_base = 0x40000000, mem_used = 0xd8\<rparr>)"
  "os_memory_alloc \<lparr>mem_base = 0x40000000, mem_used = 0xd8\<rparr> 2 32 = Some (0x40000100, \<lparr>mem_base = 0x40000000, mem_used = 0x140\<rparr>)"
  by (simp_all add: os_memory_alloc_def CACHE_LINE_SIZE_def OS_MEMORY_SIZE_def SIZE_MAX_def Let_def)

lemma example_pol_main_init:
  "\<exists>p. fst (main_init answering example_addresses (pol_nf_init pol_example_config) example_start False) = Inr (Some p)
    \<and> pol_rate (pr_nf p) = 10 \<and> pol_burst (pr_nf p) = 100"
proof -
  obtain endpoint_macs device_macs where devices: "main_devices answering example_addresses 2 0 (replicate 2 null_device)
      (replicate 2 (replicate 6 0)) (replicate 2 (replicate 6 0)) False
    = (Inr (example_devices, endpoint_macs, device_macs), False)" using answering_devices by blast
  obtain devices agents om h where agents: "main_agents answering 2 0 example_devices (replicate 2 zero_agent)
      \<lparr>mem_base = 0x40000000, mem_used = 0x300\<rparr> False = (Inr (devices, agents, om), h)"
    using answering_fw_agents prod.collapse by metis
  have count: "length example_addresses = 2" by (simp add: example_addresses_def)
  show ?thesis
    by (simp add: main_init_def os_pci_enumerate_def count or_else_def and_then_def example_main_allocs(1) example_pol_allocs example_fw_allocs Let_def devices
        agents agents_alloc_def pol_nf_init_def map_alloc_def index_pool_alloc_def pol_example_config_reads fw_example_loops)
qed


end
