(* ===== verification/Net_Dpdk.thy ===== *)
theory Net_Dpdk
  imports Net_Main
begin

text \<open>
  The other network stack, over DPDK: \<open>env/src/net/dpdk/main.c\<close>, and the memory functions of
  \<open>env/src/os/dpdk/memory.c\<close>.

  DPDK is an argument: the record \<open>dpdk\<close> holds the functions that the code calls. A buffer
  (\<open>struct rte_mbuf\<close>) is reached through a pointer; the buffers are a store that DPDK and the program
  share. \<open>BATCH_SIZE\<close> is a macro of the build and an argument here. A call of \<open>rte_panic\<close> is a
  \<open>Fatal\<close> failure with its message. As in \<open>Net_Tx\<close>, a network function issues its commands after its
  writes to the packet, so executing the list of its commands afterwards is what the calls do; it
  never changes \<open>os_tag\<close>, which is the pointer to the buffer.
\<close>

section \<open>The code\<close>

type_synonym mbuf = addr

text \<open>The bytes from \<open>buf_addr + data_off\<close> to the end of the buffer, and the fields that the code reads.\<close>

record rte_mbuf =
  mb_data :: "byte list"
  mb_data_len :: u16
  mb_port :: device_t

type_synonym 'h dpdk_mem = "(mbuf \<Rightarrow> rte_mbuf) \<times> 'h"

record 'h dpdk =
  rte_eal_init :: "'h \<Rightarrow> u32 \<times> 'h"
  rte_get_tsc_hz :: u64
  rte_eth_dev_count_avail :: "'h \<Rightarrow> device_t"
  rte_pktmbuf_pool_create :: "u32 \<Rightarrow> 'h \<Rightarrow> addr option \<times> 'h"
  rte_eth_dev_configure :: "device_t \<Rightarrow> 'h \<Rightarrow> u32 \<times> 'h"
  rte_eth_tx_queue_setup :: "device_t \<Rightarrow> u16 \<Rightarrow> 'h \<Rightarrow> u32 \<times> 'h"
  rte_eth_rx_queue_setup :: "device_t \<Rightarrow> u16 \<Rightarrow> addr \<Rightarrow> 'h \<Rightarrow> u32 \<times> 'h"
  rte_eth_dev_start :: "device_t \<Rightarrow> 'h \<Rightarrow> u32 \<times> 'h"
  rte_eth_promiscuous_enable :: "device_t \<Rightarrow> 'h \<Rightarrow> 'h"
  rte_eth_promiscuous_get :: "device_t \<Rightarrow> 'h \<Rightarrow> u32"
  rte_eth_macaddr_get :: "device_t \<Rightarrow> 'h \<Rightarrow> ether_addr"
  rte_eth_rx_burst :: "device_t \<Rightarrow> u16 \<Rightarrow> 'h dpdk_mem \<Rightarrow> mbuf list \<times> 'h dpdk_mem"
  rte_eth_tx_burst :: "device_t \<Rightarrow> mbuf list \<Rightarrow> 'h dpdk_mem \<Rightarrow> u16 \<times> 'h dpdk_mem"
  rte_pktmbuf_free :: "mbuf \<Rightarrow> 'h dpdk_mem \<Rightarrow> 'h dpdk_mem"
  rte_rdtsc :: "'h \<Rightarrow> u64 \<times> 'h"

definition MEMPOOL_BUFFER_COUNT :: u32 where "MEMPOOL_BUFFER_COUNT = 1024"
definition MAX_DEVICES :: nat where "MAX_DEVICES = 2"

text \<open>The static variables of the file.\<close>

record dpdk_stack =
  dk_devices_count :: device_t
  dk_device_addrs :: "ether_addr list"
  dk_endpoint_addrs :: "ether_addr list"
  dk_to_tx_count :: "u16 list"
  dk_to_tx :: "mbuf list list"

definition dpdk_statics :: "u16 \<Rightarrow> dpdk_stack" where
  "dpdk_statics batch = \<lparr>dk_devices_count = 0, dk_device_addrs = replicate MAX_DEVICES (replicate 6 0),
     dk_endpoint_addrs = replicate MAX_DEVICES (replicate 6 0), dk_to_tx_count = replicate MAX_DEVICES 0,
     dk_to_tx = replicate MAX_DEVICES (replicate (unat batch) 0)\<rparr>"

definition dpdk_device_init ::
    "'h dpdk \<Rightarrow> u16 \<Rightarrow> device_t \<Rightarrow> addr \<Rightarrow> dpdk_stack \<Rightarrow> 'h \<Rightarrow> (dpdk_stack, 'h) outcome" where
  "dpdk_device_init D batch device mbuf_pool st h =
     (let (ret, h) = rte_eth_dev_configure D device h in
      if ret \<noteq> 0 then fatal ''Couldn't configure device'' h else
      let (ret, h) = rte_eth_tx_queue_setup D device (if batch = 1 then 96 else 0) h in
      if ret \<noteq> 0 then fatal ''Couldn't configure a TX queue'' h else
      let (ret, h) = rte_eth_rx_queue_setup D device (if batch = 1 then 96 else 0) mbuf_pool h in
      if ret \<noteq> 0 then fatal ''Couldn't configure an RX queue'' h else
      let (ret, h) = rte_eth_dev_start D device h in
      if ret \<noteq> 0 then fatal ''Couldn't start device'' h else
      let h = rte_eth_promiscuous_enable D device h in
      if rte_eth_promiscuous_get D device h \<noteq> 1 then fatal ''Couldn't set device as promiscuous'' h else
      and_then (or_else Undefined (arr_set (dk_device_addrs st) (ucast device) (rte_eth_macaddr_get D device h)) h) (\<lambda>device_addrs h.
      and_then (or_else Undefined (arr_set (dk_endpoint_addrs st) (ucast device) [ucast device, 0, 0, 0, 0, 0]) h) (\<lambda>endpoint_addrs h.
      (Inr (st\<lparr>dk_device_addrs := device_addrs, dk_endpoint_addrs := endpoint_addrs\<rparr>), h))))"

text \<open>The source address is written first; both lie in the first twelve bytes.\<close>

definition dpdk_handle_flags :: "dpdk_stack \<Rightarrow> net_packet \<Rightarrow> device_t \<Rightarrow> net_transmit_flags \<Rightarrow> net_packet option" where
  "dpdk_handle_flags st packet device flags =
     (if flags = UPDATE_ETHER_ADDRS then do {
        src \<leftarrow> arr_get (dk_device_addrs st) (ucast device);
        d \<leftarrow> wr_bytes (pkt_data packet) 6 src;
        dst \<leftarrow> arr_get (dk_endpoint_addrs st) (ucast device);
        d \<leftarrow> wr_bytes d 0 dst;
        Some (packet\<lparr>pkt_data := d\<rparr>) }
      else Some packet)"

definition dpdk_enqueue :: "dpdk_stack \<Rightarrow> mbuf \<Rightarrow> device_t \<Rightarrow> dpdk_stack option" where
  "dpdk_enqueue st os_tag device = do {
     count \<leftarrow> arr_get (dk_to_tx_count st) (ucast device);
     bufs \<leftarrow> arr_get (dk_to_tx st) (ucast device);
     bufs \<leftarrow> arr_set bufs (ucast count) os_tag;
     to_tx \<leftarrow> arr_set (dk_to_tx st) (ucast device) bufs;
     counts \<leftarrow> arr_set (dk_to_tx_count st) (ucast device) (count + 1);
     Some (st\<lparr>dk_to_tx := to_tx, dk_to_tx_count := counts\<rparr>) }"

definition dpdk_net_transmit ::
    "dpdk_stack \<Rightarrow> net_packet \<Rightarrow> mbuf \<Rightarrow> device_t \<Rightarrow> net_transmit_flags \<Rightarrow> (dpdk_stack \<times> net_packet) option" where
  "dpdk_net_transmit st packet os_tag device flags = do {
     packet \<leftarrow> dpdk_handle_flags st packet device flags;
     st \<leftarrow> dpdk_enqueue st os_tag device;
     Some (st, packet) }"

lemma dpdk_enqueue_count: "dpdk_enqueue st os_tag device = Some st' \<Longrightarrow> dk_devices_count st' = dk_devices_count st"
  by (auto simp: dpdk_enqueue_def split: Option.bind_splits)

function dpdk_net_flood ::
    "dpdk_stack \<Rightarrow> net_packet \<Rightarrow> mbuf \<Rightarrow> net_transmit_flags \<Rightarrow> device_t \<Rightarrow> (dpdk_stack \<times> net_packet) option" where
  "dpdk_net_flood st packet os_tag flags device =
     (if device < dk_devices_count st then
        if pkt_device packet \<noteq> device then do {
          packet \<leftarrow> dpdk_handle_flags st packet device flags;
          st \<leftarrow> dpdk_enqueue st os_tag device;
          dpdk_net_flood st packet os_tag flags (device + 1) }
        else dpdk_net_flood st packet os_tag flags (device + 1)
      else Some (st, packet))"
  by pat_completeness auto
termination
  by (relation "measure (\<lambda>(st, packet, os_tag, flags, device). unat (dk_devices_count st - device))")
    (auto dest: dpdk_enqueue_count)

declare dpdk_net_flood.simps [simp del]

function dpdk_net_flood_except ::
    "dpdk_stack \<Rightarrow> net_packet \<Rightarrow> mbuf \<Rightarrow> bool list \<Rightarrow> net_transmit_flags \<Rightarrow> device_t \<Rightarrow> (dpdk_stack \<times> net_packet) option" where
  "dpdk_net_flood_except st packet os_tag disabled_devices flags device =
     (if device < dk_devices_count st then do {
        disabled \<leftarrow> (if pkt_device packet \<noteq> device then arr_get disabled_devices (ucast device) else Some True);
        if \<not> disabled then do {
          packet \<leftarrow> dpdk_handle_flags st packet device flags;
          st \<leftarrow> dpdk_enqueue st os_tag device;
          dpdk_net_flood_except st packet os_tag disabled_devices flags (device + 1) }
        else dpdk_net_flood_except st packet os_tag disabled_devices flags (device + 1) }
      else Some (st, packet))"
  by pat_completeness auto
termination
  by (relation "measure (\<lambda>(st, packet, os_tag, disabled, flags, device). unat (dk_devices_count st - device))")
    (auto dest: dpdk_enqueue_count)

declare dpdk_net_flood_except.simps [simp del]

fun dpdk_exec :: "dpdk_stack \<Rightarrow> mbuf \<Rightarrow> tx list \<Rightarrow> net_packet \<Rightarrow> (dpdk_stack \<times> net_packet) option" where
  "dpdk_exec st os_tag [] packet = Some (st, packet)"
| "dpdk_exec st os_tag (Net_Transmit device flags # cmds) packet = do {
     (st, packet) \<leftarrow> dpdk_net_transmit st packet os_tag device flags;
     dpdk_exec st os_tag cmds packet }"
| "dpdk_exec st os_tag (Net_Flood flags # cmds) packet = do {
     (st, packet) \<leftarrow> dpdk_net_flood st packet os_tag flags 0;
     dpdk_exec st os_tag cmds packet }"
| "dpdk_exec st os_tag (Net_Flood_Except disabled flags # cmds) packet = do {
     (st, packet) \<leftarrow> dpdk_net_flood_except st packet os_tag disabled flags 0;
     dpdk_exec st os_tag cmds packet }"

text \<open>The initialisation. \<open>nf_init\<close> and the memory \<open>om\<close> that it allocates from are arguments.\<close>

function dpdk_init_devices ::
    "'h dpdk \<Rightarrow> u16 \<Rightarrow> addr \<Rightarrow> device_t \<Rightarrow> device_t \<Rightarrow> dpdk_stack \<Rightarrow> 'h \<Rightarrow> (dpdk_stack, 'h) outcome" where
  "dpdk_init_devices D batch mbuf_pool devices_count device st h =
     (if device < devices_count then
        and_then (dpdk_device_init D batch device mbuf_pool st h) (\<lambda>st h.
        dpdk_init_devices D batch mbuf_pool devices_count (device + 1) st h)
      else (Inr st, h))"
  by pat_completeness auto
termination
  by (relation "measure (\<lambda>(D, batch, mbuf_pool, devices_count, device, st, h). unat (devices_count - device))") auto

declare dpdk_init_devices.simps [simp del]

definition dpdk_main_init ::
    "'h dpdk \<Rightarrow> u16 \<Rightarrow> ('m \<Rightarrow> device_t \<Rightarrow> ('nf \<times> 'm) option option) \<Rightarrow> 'm \<Rightarrow> 'h
     \<Rightarrow> (cpu_freq \<times> dpdk_stack \<times> 'nf \<times> 'm, 'h) outcome" where
  "dpdk_main_init D batch nf_init om h =
     (let (ret, h) = rte_eal_init D h in
      if sint ret < 0 then fatal ''Error with DPDK init'' h else
      (case dpdk_os_init (rte_get_tsc_hz D) of
         Inl message \<Rightarrow> fatal message h
       | Inr None \<Rightarrow> (Inl Undefined, h)
       | Inr (Some freq) \<Rightarrow>
      let devices_count = rte_eth_dev_count_avail D h in
      if devices_count = 0 then fatal ''No devices??'' h else
      if unat devices_count > MAX_DEVICES then fatal ''Too many devices, please increase MAX_DEVICES'' h else
      (case rte_pktmbuf_pool_create D (MEMPOOL_BUFFER_COUNT * ucast devices_count) h of
         (None, h) \<Rightarrow> fatal ''Cannot create DPDK pool'' h
       | (Some mbuf_pool, h) \<Rightarrow>
      and_then (dpdk_init_devices D batch mbuf_pool devices_count 0 (dpdk_statics batch\<lparr>dk_devices_count := devices_count\<rparr>) h) (\<lambda>st h.
      and_then (or_else Undefined (nf_init om devices_count) h) (\<lambda>r h.
      case r of None \<Rightarrow> fatal ''Initialization failed.'' h | Some (nf, om) \<Rightarrow> (Inr (freq, st, nf, om), h))))))"

text \<open>
  The loop. The counter \<open>n\<close> of the received buffers is an \<open>int16_t\<close>: from \<open>0x8000\<close> on it is negative,
  and less than the number of buffers.
\<close>

record ('nf, 'h) dpdk_state =
  dk_freq :: cpu_freq
  dk_stack :: dpdk_stack
  dk_nf :: 'nf
  dk_mem :: "'h dpdk_mem"

definition dpdk_handle ::
    "'h dpdk \<Rightarrow> 'nf nf_handler \<Rightarrow> mbuf \<Rightarrow> ('nf, 'h) dpdk_state \<Rightarrow> ('nf, 'h) dpdk_state option" where
  "dpdk_handle D nf_handle buf s = do {
     let (mbufs, h) = dk_mem s;
     let (tsc, h) = rte_rdtsc D h;
     now \<leftarrow> os_clock_time_ns (dk_freq s) tsc;
     let packet = \<lparr>pkt_data = mb_data (mbufs buf), pkt_length = ucast (mb_data_len (mbufs buf)), pkt_time = now,
       pkt_device = mb_port (mbufs buf)\<rparr>;
     (nf, packet, cmds) \<leftarrow> nf_handle (dk_nf s) packet;
     (st, packet) \<leftarrow> dpdk_exec (dk_stack s) buf cmds packet;
     Some (s\<lparr>dk_stack := st, dk_nf := nf, dk_mem := (mbufs(buf := (mbufs buf)\<lparr>mb_data := pkt_data packet\<rparr>), h)\<rparr>) }"

function dpdk_receive_loop ::
    "'h dpdk \<Rightarrow> 'nf nf_handler \<Rightarrow> mbuf list \<Rightarrow> u16 \<Rightarrow> ('nf, 'h) dpdk_state \<Rightarrow> ('nf, 'h) dpdk_state option" where
  "dpdk_receive_loop D nf_handle bufs n s =
     (if 0x8000 \<le> n then None
      else if unat n < length bufs then do {
        s \<leftarrow> dpdk_handle D nf_handle (bufs ! unat n) s;
        dpdk_receive_loop D nf_handle bufs (n + 1) s }
      else Some s)"
  by pat_completeness auto
termination
proof (relation "measure (\<lambda>(D, nf_handle, bufs, n, s). unat (0x8000 - n))")
  show "((D, nf_handle, bufs, n + 1, s'), D, nf_handle, bufs, n, s) \<in> measure (\<lambda>(D, nf_handle, bufs, n, s). unat (0x8000 - n))"
    if "\<not> 0x8000 \<le> n" for D :: "'h dpdk" and nf_handle :: "'nf nf_handler" and bufs and n :: u16 and s s'
    using that by (simp only: in_measure prod.case not_le word_loop_decreases)
qed simp

declare dpdk_receive_loop.simps [simp del]

function dpdk_free_loop :: "'h dpdk \<Rightarrow> mbuf list \<Rightarrow> u16 \<Rightarrow> u16 \<Rightarrow> 'h dpdk_mem \<Rightarrow> 'h dpdk_mem option" where
  "dpdk_free_loop D bufs count n mem =
     (if n < count then do {
        buf \<leftarrow> arr_get bufs (ucast n);
        dpdk_free_loop D bufs count (n + 1) (rte_pktmbuf_free D buf mem) }
      else Some mem)"
  by pat_completeness auto
termination
  by (relation "measure (\<lambda>(D, bufs, count, n, mem). unat (count - n))") auto

declare dpdk_free_loop.simps [simp del]

definition dpdk_flush_device :: "'h dpdk \<Rightarrow> device_t \<Rightarrow> ('nf, 'h) dpdk_state \<Rightarrow> ('nf, 'h) dpdk_state option" where
  "dpdk_flush_device D out_device s = do {
     let st = dk_stack s;
     bufs \<leftarrow> arr_get (dk_to_tx st) (ucast out_device);
     count \<leftarrow> arr_get (dk_to_tx_count st) (ucast out_device);
     let (nb_tx, mem) = rte_eth_tx_burst D out_device (take (unat count) bufs) (dk_mem s);
     mem \<leftarrow> dpdk_free_loop D bufs count nb_tx mem;
     counts \<leftarrow> arr_set (dk_to_tx_count st) (ucast out_device) 0;
     Some (s\<lparr>dk_stack := st\<lparr>dk_to_tx_count := counts\<rparr>, dk_mem := mem\<rparr>) }"

text \<open>\<open>foreach_device f count 0\<close> is \<open>for (device_t d = 0; d < count; d++) f (d)\<close>.\<close>

function foreach_device :: "(device_t \<Rightarrow> 's \<Rightarrow> 's option) \<Rightarrow> device_t \<Rightarrow> device_t \<Rightarrow> 's \<Rightarrow> 's option" where
  "foreach_device f count d s = (if d < count then do { s \<leftarrow> f d s; foreach_device f count (d + 1) s } else Some s)"
  by pat_completeness auto
termination
  by (relation "measure (\<lambda>(f, count, d, s). unat (count - d))") auto

declare foreach_device.simps [simp del]

definition dpdk_poll ::
    "'h dpdk \<Rightarrow> u16 \<Rightarrow> 'nf nf_handler \<Rightarrow> device_t \<Rightarrow> ('nf, 'h) dpdk_state \<Rightarrow> ('nf, 'h) dpdk_state option" where
  "dpdk_poll D batch nf_handle device s = do {
     let (bufs, mem) = rte_eth_rx_burst D device batch (dk_mem s);
     s \<leftarrow> dpdk_receive_loop D nf_handle bufs 0 (s\<lparr>dk_mem := mem\<rparr>);
     foreach_device (dpdk_flush_device D) (dk_devices_count (dk_stack s)) 0 s }"

text \<open>The state after \<open>k\<close> rounds of the infinite loop.\<close>

primrec dpdk_rounds ::
    "'h dpdk \<Rightarrow> u16 \<Rightarrow> 'nf nf_handler \<Rightarrow> nat \<Rightarrow> ('nf, 'h) dpdk_state \<Rightarrow> ('nf, 'h) dpdk_state option" where
  "dpdk_rounds D batch nf_handle 0 s = Some s"
| "dpdk_rounds D batch nf_handle (Suc k) s = do {
     s \<leftarrow> foreach_device (dpdk_poll D batch nf_handle) (dk_devices_count (dk_stack s)) 0 s;
     dpdk_rounds D batch nf_handle k s }"

text \<open>
  The allocator of this system. \<open>rte_align64pow2\<close> and \<open>rte_calloc count size align\<close>, which gives
  \<open>None\<close> where it gives \<open>NULL\<close>, are functions of DPDK.
\<close>

definition dpdk_memory_alloc ::
    "(u64 \<Rightarrow> u64) \<Rightarrow> (size_t \<Rightarrow> size_t \<Rightarrow> size_t \<Rightarrow> addr option) \<Rightarrow> size_t \<Rightarrow> size_t \<Rightarrow> addr option" where
  "dpdk_memory_alloc rte_align64pow2 rte_calloc count sz =
     (let align = rte_align64pow2 (count * sz) in
      rte_calloc count sz (if align < 64 then 64 else align))"

definition dpdk_phys_to_virt :: "u64 \<Rightarrow> size_t \<Rightarrow> string + u64" where
  "dpdk_phys_to_virt addr sz = Inl ''os_memory_phys_to_virt is not supported''"

definition dpdk_virt_to_phys :: "(u64 \<Rightarrow> u64) \<Rightarrow> u64 \<Rightarrow> u64" where
  "dpdk_virt_to_phys rte_malloc_virt2iova addr = rte_malloc_virt2iova addr"
section \<open>Commands\<close>

text \<open>The buffers that wait for a device, and a stack after \<open>main\<close> has set it up.\<close>

definition dpdk_queue :: "dpdk_stack \<Rightarrow> device_t \<Rightarrow> mbuf list" where
  "dpdk_queue st d = take (unat (dk_to_tx_count st ! unat d)) (dk_to_tx st ! unat d)"

definition dpdk_stack_ok :: "device_t \<Rightarrow> u16 \<Rightarrow> dpdk_stack \<Rightarrow> bool" where
  "dpdk_stack_ok dc batch st \<longleftrightarrow> dk_devices_count st = dc \<and> 0 < dc \<and> dc \<le> 2
     \<and> length (dk_device_addrs st) = 2 \<and> length (dk_endpoint_addrs st) = 2
     \<and> (\<forall>a \<in> set (dk_device_addrs st) \<union> set (dk_endpoint_addrs st). length a = 6)
     \<and> length (dk_to_tx_count st) = 2 \<and> length (dk_to_tx st) = 2
     \<and> (\<forall>bufs \<in> set (dk_to_tx st). length bufs = unat batch) \<and> (\<forall>c \<in> set (dk_to_tx_count st). c \<le> batch)"

definition dpdk_addressed :: "dpdk_stack \<Rightarrow> device_t \<Rightarrow> net_transmit_flags \<Rightarrow> byte list \<Rightarrow> byte list" where
  "dpdk_addressed st d flags p =
     (if flags = UPDATE_ETHER_ADDRS then dk_endpoint_addrs st ! unat d @ dk_device_addrs st ! unat d @ drop 12 p else p)"

definition dpdk_sends :: "device_t \<Rightarrow> device_t \<Rightarrow> tx \<Rightarrow> device_t \<Rightarrow> bool" where
  "dpdk_sends dc own cmd d \<longleftrightarrow> d < dc \<and> d \<noteq> own \<and> tx_sends cmd d"

text \<open>Adding a buffer to the queues that \<open>to\<close> selects.\<close>

definition dpdk_queued :: "dpdk_stack \<Rightarrow> (device_t \<Rightarrow> bool) \<Rightarrow> mbuf \<Rightarrow> dpdk_stack \<Rightarrow> bool" where
  "dpdk_queued st to buf st' \<longleftrightarrow> dk_device_addrs st' = dk_device_addrs st \<and> dk_endpoint_addrs st' = dk_endpoint_addrs st
     \<and> (\<forall>d. dpdk_queue st' d = dpdk_queue st d @ (if to d then [buf] else []))"

lemma dpdk_queue_length:
  assumes "dpdk_stack_ok dc batch st" "unat d < 2"
  shows "length (dpdk_queue st d) = unat (dk_to_tx_count st ! unat d)"
proof -
  have "length (dk_to_tx st ! unat d) = unat batch" "dk_to_tx_count st ! unat d \<le> batch"
    using assms by (auto simp: dpdk_stack_ok_def)
  then show ?thesis by (simp add: dpdk_queue_def word_le_nat_alt)
qed

lemma two_devices: "d < dc \<Longrightarrow> dc \<le> 2 \<Longrightarrow> unat d < 2" for d dc :: device_t
  by (simp add: word_less_nat_alt word_le_nat_alt)

lemma dpdk_enqueue_ok:
  assumes ok: "dpdk_stack_ok dc batch st" and d: "unat d < 2" and room: "length (dpdk_queue st d) < unat batch"
  obtains st' where "dpdk_enqueue st buf d = Some st'" "dpdk_stack_ok dc batch st'" "dpdk_queued st (\<lambda>d'. d' = d) buf st'"
proof -
  let ?c = "dk_to_tx_count st ! unat d" and ?bufs = "dk_to_tx st ! unat d"
  let ?st = "st\<lparr>dk_to_tx := (dk_to_tx st)[unat d := ?bufs[unat ?c := buf]], dk_to_tx_count := (dk_to_tx_count st)[unat d := ?c + 1]\<rparr>"
  have c: "unat ?c < unat batch" using dpdk_queue_length [OF ok d] room by simp
  then have Suc_c: "unat (?c + 1) = Suc (unat ?c)" by (intro unat_Suc_word) (simp add: word_less_nat_alt)
  have bufs: "length ?bufs = unat batch" using ok d by (simp add: dpdk_stack_ok_def)
  have "dpdk_enqueue st buf d = Some ?st"
    using ok d c bufs by (simp add: dpdk_enqueue_def dpdk_stack_ok_def)
  moreover have "dpdk_stack_ok dc batch ?st"
    using ok c Suc_c bufs set_update_subset_insert [of "dk_to_tx st" "unat d" "?bufs[unat ?c := buf]"]
      set_update_subset_insert [of "dk_to_tx_count st" "unat d" "?c + 1"]
    by (auto simp: dpdk_stack_ok_def word_le_nat_alt)
  moreover have "dpdk_queue ?st d' = dpdk_queue st d' @ (if d' = d then [buf] else [])" for d'
  proof (cases "d' = d")
    case True
    then show ?thesis using ok d c bufs Suc_c
      by (simp add: dpdk_queue_def dpdk_stack_ok_def take_Suc_conv_app_nth)
  next
    case False
    then have "unat d \<noteq> unat d'" by (simp add: word_unat_eq_iff)
    with False show ?thesis by (simp add: dpdk_queue_def)
  qed
  ultimately show thesis by (intro that [of ?st]) (simp_all add: dpdk_queued_def)
qed

lemma dpdk_handle_flags_ok:
  assumes "dpdk_stack_ok dc batch st" "unat d < 2" "12 \<le> length (pkt_data packet)"
  shows "dpdk_handle_flags st packet d flags = Some (packet\<lparr>pkt_data := dpdk_addressed st d flags (pkt_data packet)\<rparr>)"
proof -
  have "length (dk_device_addrs st ! unat d) = 6" "length (dk_endpoint_addrs st ! unat d) = 6"
    using assms(1,2) by (auto simp: dpdk_stack_ok_def)
  then show ?thesis
    using assms by (simp add: dpdk_handle_flags_def dpdk_addressed_def dpdk_stack_ok_def wr_bytes_def)
qed

lemma dpdk_exec_command:
  assumes ok: "dpdk_stack_ok dc batch st" and own: "pkt_device packet < dc" and cmd: "tx_cmd_ok (ucast dc) (pkt_device packet) cmd"
    and room: "\<And>d. d < dc \<Longrightarrow> length (dpdk_queue st d) < unat batch" and data: "12 \<le> length (pkt_data packet)"
  obtains st' where "dpdk_stack_ok dc batch st'" "dpdk_queued st (dpdk_sends dc (pkt_device packet) cmd) buf st'"
    "dpdk_exec st buf [cmd] packet = Some (st', packet\<lparr>pkt_data :=
       if dpdk_sends dc (pkt_device packet) cmd (1 - pkt_device packet)
       then dpdk_addressed st (1 - pkt_device packet) (tx_flags cmd) (pkt_data packet) else pkt_data packet\<rparr>)"
proof -
  let ?own = "pkt_device packet"
  have count: "dk_devices_count st = dc" "0 < dc" "dc \<le> 2" using ok by (simp_all add: dpdk_stack_ok_def)
  have dcs: "dc = 1 \<or> dc = 2" using count(2,3) by (simp add: word_unat_eq_iff word_le_nat_alt word_less_nat_alt) linarith
  have owns: "?own = 0 \<or> ?own = 1" using two_devices [OF own count(3)] by (auto simp: word_unat_eq_iff)
  have only: "\<forall>d. dpdk_sends dc ?own cmd d \<longrightarrow> d = 1 - ?own"
  proof (intro allI impI)
    fix d assume d: "dpdk_sends dc ?own cmd d"
    then have "unat d < 2" by (intro two_devices [OF _ count(3)]) (simp add: dpdk_sends_def)
    then have "d = 0 \<or> d = 1" by (auto simp: word_unat_eq_iff)
    with d owns show "d = 1 - ?own" by (auto simp: dpdk_sends_def)
  qed
  show thesis
  proof (cases "dpdk_sends dc ?own cmd (1 - ?own)")
    case True
    then have other: "1 - ?own < dc" "1 - ?own \<noteq> ?own" "tx_sends cmd (1 - ?own)" by (simp_all add: dpdk_sends_def)
    note small = two_devices [OF other(1) count(3)]
    obtain st' where st': "dpdk_enqueue st buf (1 - ?own) = Some st'" "dpdk_stack_ok dc batch st'"
      "dpdk_queued st (\<lambda>d'. d' = 1 - ?own) buf st'"
      by (rule dpdk_enqueue_ok [OF ok small room [OF other(1)]])
    have count': "dk_devices_count st' = dc" using st'(2) by (simp add: dpdk_stack_ok_def)
    have sends: "dpdk_sends dc ?own cmd = (\<lambda>d'. d' = 1 - ?own)" using only True by blast
    have dc2: "dc = 2" using dcs other(1,2) owns own by auto
    note flags = dpdk_handle_flags_ok [OF ok small data]
    have run: "dpdk_exec st buf [cmd] packet = Some (st', packet\<lparr>pkt_data := dpdk_addressed st (1 - ?own) (tx_flags cmd) (pkt_data packet)\<rparr>)"
    proof (cases cmd)
      case (Net_Transmit device flags)
      then have "device = 1 - ?own" using other(3) by simp
      then show ?thesis using Net_Transmit st'(1) flags by (simp add: dpdk_net_transmit_def)
    next
      case (Net_Flood fl)
      then show ?thesis using owns st'(1) count(1) count' dc2 flags
        by (elim disjE) (simp_all add: dpdk_net_flood.simps)
    next
      case (Net_Flood_Except disabled fl)
      then show ?thesis using owns st'(1) count(1) count' dc2 flags cmd other(3)
        by (elim disjE) (simp_all add: dpdk_net_flood_except.simps)
    qed
    show thesis by (rule that [of st']) (use st' run True sends in simp_all)
  next
    case False
    then have sends: "dpdk_sends dc ?own cmd = (\<lambda>d'. False)" using only by blast
    have "dpdk_exec st buf [cmd] packet = Some (st, packet)"
    proof (cases cmd)
      case (Net_Transmit device flags)
      then have "dpdk_sends dc ?own cmd device" using cmd by (simp add: dpdk_sends_def word_less_nat_alt)
      then show ?thesis using sends by simp
    next
      case (Net_Flood fl)
      then have "dc = 1" using False dcs owns by (auto simp: dpdk_sends_def)
      then show ?thesis using Net_Flood own count(1) owns by (auto simp: dpdk_net_flood.simps)
    next
      case (Net_Flood_Except disabled fl)
      then show ?thesis using False dcs owns own count(1) cmd
        by (auto simp: dpdk_net_flood_except.simps dpdk_sends_def)
    qed
    then show thesis by (intro that [of st]) (use ok sends in \<open>simp_all add: dpdk_queued_def\<close>)
  qed
qed
section \<open>A burst of packets\<close>

text \<open>
  What the network function on its own makes of a burst: for each buffer the packet it leaves and
  the commands it issues. \<open>mbufs\<close> are the buffers as they were received.
\<close>

definition dpdk_packet :: "rte_mbuf \<Rightarrow> time_t \<Rightarrow> net_packet" where
  "dpdk_packet b now = \<lparr>pkt_data = mb_data b, pkt_length = ucast (mb_data_len b), pkt_time = now, pkt_device = mb_port b\<rparr>"

type_synonym served = "mbuf \<times> net_packet \<times> tx list"

primrec dpdk_serve ::
    "'h dpdk \<Rightarrow> 'nf nf_handler \<Rightarrow> cpu_freq \<Rightarrow> (mbuf \<Rightarrow> rte_mbuf) \<Rightarrow> mbuf list \<Rightarrow> 'nf \<Rightarrow> 'h \<Rightarrow> (served list \<times> 'nf \<times> 'h) option" where
  "dpdk_serve D nf_handle freq mbufs [] nf h = Some ([], nf, h)"
| "dpdk_serve D nf_handle freq mbufs (buf # bufs) nf h = do {
     now \<leftarrow> os_clock_time_ns freq (fst (rte_rdtsc D h));
     (nf, packet, cmds) \<leftarrow> nf_handle nf (dpdk_packet (mbufs buf) now);
     (rs, nf, h) \<leftarrow> dpdk_serve D nf_handle freq mbufs bufs nf (snd (rte_rdtsc D h));
     Some ((buf, packet, cmds) # rs, nf, h) }"

lemma dpdk_serve_cong:
  "(\<And>m. m \<in> set bufs \<Longrightarrow> mbufs m = mbufs' m) \<Longrightarrow>
    dpdk_serve D nf_handle freq mbufs bufs nf h = dpdk_serve D nf_handle freq mbufs' bufs nf h"
  by (induction bufs arbitrary: nf h) (simp_all cong: Option.bind_cong)

lemma dpdk_serve_bufs: "dpdk_serve D nf_handle freq mbufs bufs nf h = Some (rs, nf', h') \<Longrightarrow> map fst rs = bufs"
  by (induction bufs arbitrary: nf h rs) (auto split: Option.bind_splits)

text \<open>The loops over buffers are loops over lists.\<close>

primrec dpdk_receive_list :: "'h dpdk \<Rightarrow> 'nf nf_handler \<Rightarrow> mbuf list \<Rightarrow> ('nf, 'h) dpdk_state \<Rightarrow> ('nf, 'h) dpdk_state option" where
  "dpdk_receive_list D nf_handle [] s = Some s"
| "dpdk_receive_list D nf_handle (buf # bufs) s = do { s \<leftarrow> dpdk_handle D nf_handle buf s; dpdk_receive_list D nf_handle bufs s }"

lemma dpdk_receive_loop_list:
  assumes "length bufs < 0x8000" "unat n \<le> length bufs"
  shows "dpdk_receive_loop D nf_handle bufs n s = dpdk_receive_list D nf_handle (drop (unat n) bufs) s"
  using assms(2)
proof (induction "length bufs - unat n" arbitrary: n s)
  case 0
  then have "unat n = length bufs" by simp
  moreover from this have "\<not> 0x8000 \<le> n" using assms(1) by (simp add: word_le_nat_alt)
  ultimately show ?case by (simp add: dpdk_receive_loop.simps)
next
  case (Suc k)
  then have n: "unat n < length bufs" by simp
  then have lt: "n < 0x8000" using assms(1) by (simp add: word_less_nat_alt)
  have Suc_n: "unat (n + 1) = Suc (unat n)" by (rule unat_Suc_word [OF lt])
  have "dpdk_receive_loop D nf_handle bufs (n + 1) = dpdk_receive_list D nf_handle (drop (Suc (unat n)) bufs)"
    by (rule ext) (use Suc.hyps(1) [of "n + 1"] Suc.hyps(2) n Suc_n in simp)
  moreover have "\<not> 0x8000 \<le> n" using lt by (simp only: not_le)
  ultimately show ?case
    using n by (simp add: dpdk_receive_loop.simps [of D nf_handle bufs n] Cons_nth_drop_Suc [symmetric])
qed

lemma dpdk_free_loop_list:
  assumes "unat count \<le> length bufs"
  shows "dpdk_free_loop D bufs count n mem = Some (fold (rte_pktmbuf_free D) (drop (unat n) (take (unat count) bufs)) mem)"
proof (induction "unat (count - n)" arbitrary: n mem rule: less_induct)
  case less
  show ?case
  proof (cases "n < count")
    case False
    then show ?thesis by (simp add: dpdk_free_loop.simps word_less_nat_alt)
  next
    case True
    then have n: "unat n < unat count" by (simp add: word_less_nat_alt)
    then have "drop (unat n) (take (unat count) bufs) = bufs ! unat n # drop (Suc (unat n)) (take (unat count) bufs)"
      using assms Cons_nth_drop_Suc [of "unat n" "take (unat count) bufs"] by simp
    moreover have "dpdk_free_loop D bufs count (n + 1) mem' = Some (fold (rte_pktmbuf_free D) (drop (Suc (unat n)) (take (unat count) bufs)) mem')" for mem'
      using less [OF word_loop_decreases [OF True]] unat_Suc_word [OF True] by simp
    ultimately show ?thesis using True n assms by (simp add: dpdk_free_loop.simps [of D bufs count n])
  qed
qed

text \<open>Which of the packets go to a device, and the bytes with which they do.\<close>

definition dpdk_goes :: "device_t \<Rightarrow> device_t \<Rightarrow> device_t \<Rightarrow> served \<Rightarrow> bool" where
  "dpdk_goes dc own d = (\<lambda>(buf, packet, cmds). \<exists>cmd. cmds = [cmd] \<and> dpdk_sends dc own cmd d)"

definition dpdk_bytes :: "dpdk_stack \<Rightarrow> device_t \<Rightarrow> served \<Rightarrow> byte list" where
  "dpdk_bytes st own = (\<lambda>(buf, packet, cmds).
     if dpdk_goes (dk_devices_count st) own (1 - own) (buf, packet, cmds)
     then dpdk_addressed st (1 - own) (tx_flags (hd cmds)) (pkt_data packet) else pkt_data packet)"

context network_function
begin

lemma dpdk_handle_ok:
  assumes ok: "dpdk_stack_ok dc batch (dk_stack s)" "nf_ok (dk_nf s)" and mem: "dk_mem s = (mbufs, h)"
    and dc: "devices_count = ucast dc" and buf: "length (mb_data (mbufs buf)) = 2048" "mb_port (mbufs buf) < dc"
    and now: "os_clock_time_ns (dk_freq s) (fst (rte_rdtsc D h)) = Some now" "now \<noteq> TIME_MAX"
    and room: "\<And>d. d < dc \<Longrightarrow> length (dpdk_queue (dk_stack s) d) < unat batch"
  obtains nf' packet cmds s' where "nf_handle (dk_nf s) (dpdk_packet (mbufs buf) now) = Some (nf', packet, cmds)"
    "dpdk_handle D nf_handle buf s = Some s'" "dk_freq s' = dk_freq s" "dpdk_stack_ok dc batch (dk_stack s')" "nf_ok nf'" "dk_nf s' = nf'"
    "dk_mem s' = (mbufs(buf := (mbufs buf)\<lparr>mb_data := dpdk_bytes (dk_stack s) (mb_port (mbufs buf)) (buf, packet, cmds)\<rparr>), snd (rte_rdtsc D h))"
    "dpdk_queued (dk_stack s) (\<lambda>d. dpdk_goes dc (mb_port (mbufs buf)) d (buf, packet, cmds)) buf (dk_stack s')"
proof -
  let ?p = "dpdk_packet (mbufs buf) now" and ?own = "mb_port (mbufs buf)"
  have "unat (pkt_length ?p) < 65536"
    using unat_device_bound [of "mb_data_len (mbufs buf)"] by (simp add: dpdk_packet_def)
  moreover have "unat (pkt_device ?p) < unat devices_count"
    using buf(2) dc by (simp add: dpdk_packet_def word_less_nat_alt)
  ultimately obtain nf' packet cmds where handled: "nf_handle (dk_nf s) ?p = Some (nf', packet, cmds)" "nf_ok nf'"
    "length (pkt_data packet) = 2048" "pkt_device packet = ?own"
    "cmds = [] \<or> (\<exists>cmd. cmds = [cmd] \<and> tx_cmd_ok devices_count ?own cmd)"
    using handles_packet [OF ok(2), of ?p] buf(1) now(2) by (auto simp: dpdk_packet_def)
  have count: "dk_devices_count (dk_stack s) = dc" using ok(1) by (simp add: dpdk_stack_ok_def)
  obtain st' where st': "dpdk_stack_ok dc batch st'" "dpdk_queued (dk_stack s) (\<lambda>d. dpdk_goes dc ?own d (buf, packet, cmds)) buf st'"
    "dpdk_exec (dk_stack s) buf cmds packet = Some (st', packet\<lparr>pkt_data := dpdk_bytes (dk_stack s) ?own (buf, packet, cmds)\<rparr>)"
  proof (cases "cmds = []")
    case True
    with ok(1) show thesis
      by (intro that [of "dk_stack s"]) (simp_all add: dpdk_queued_def dpdk_goes_def dpdk_bytes_def)
  next
    case False
    then obtain cmd where cmd: "cmds = [cmd]" "tx_cmd_ok (ucast dc) (pkt_device packet) cmd" using handled(4,5) dc by auto
    have goes: "dpdk_goes dc ?own d (buf, packet, [cmd]) = dpdk_sends dc ?own cmd d" for d
      by (simp add: dpdk_goes_def)
    obtain st' where "dpdk_stack_ok dc batch st'" "dpdk_queued (dk_stack s) (dpdk_sends dc (pkt_device packet) cmd) buf st'"
      "dpdk_exec (dk_stack s) buf [cmd] packet = Some (st', packet\<lparr>pkt_data :=
         if dpdk_sends dc (pkt_device packet) cmd (1 - pkt_device packet)
         then dpdk_addressed (dk_stack s) (1 - pkt_device packet) (tx_flags cmd) (pkt_data packet) else pkt_data packet\<rparr>)"
      by (rule dpdk_exec_command [OF ok(1) _ cmd(2) room]) (use buf(2) handled(3,4) in auto)
    note this [unfolded handled(4)]
    then show thesis
      by (intro that [of st']) (simp_all add: goes cmd(1) dpdk_bytes_def count)
  qed
  let ?s = "s\<lparr>dk_stack := st', dk_nf := nf', dk_mem := (mbufs(buf := (mbufs buf)\<lparr>mb_data :=
      dpdk_bytes (dk_stack s) ?own (buf, packet, cmds)\<rparr>), snd (rte_rdtsc D h))\<rparr>"
  have "dpdk_handle D nf_handle buf s = Some ?s"
    using handled(1) st'(3) now(1) by (simp add: dpdk_handle_def mem split_beta Let_def dpdk_packet_def)
  with handled(1,2) st'(1,2) show thesis by (intro that [of nf' packet cmds ?s]) simp_all
qed

end
text \<open>What DPDK promises: its documentation of the receive and transmit bursts, and a usable clock.\<close>

definition dpdk_contract :: "'h dpdk \<Rightarrow> cpu_freq \<Rightarrow> bool" where
  "dpdk_contract D freq \<longleftrightarrow>
     (\<forall>device nb mem bufs mbufs h. rte_eth_rx_burst D device nb mem = (bufs, mbufs, h) \<longrightarrow>
        length bufs \<le> unat nb \<and> distinct bufs \<and> (\<forall>m \<in> set bufs. length (mb_data (mbufs m)) = 2048 \<and> mb_port (mbufs m) = device))
     \<and> (\<forall>device mem. fst (snd (rte_eth_tx_burst D device [] mem)) = fst mem)
     \<and> (\<forall>h. \<exists>now. os_clock_time_ns freq (fst (rte_rdtsc D h)) = Some now \<and> now \<noteq> TIME_MAX)"

text \<open>
  The state after a burst that was received into \<open>mbufs\<close> and served with the results \<open>rs\<close>, compared
  to the state before it.
\<close>

definition dpdk_burst ::
    "device_t \<Rightarrow> device_t \<Rightarrow> (mbuf \<Rightarrow> rte_mbuf) \<Rightarrow> served list \<Rightarrow> dpdk_stack \<Rightarrow> dpdk_stack \<Rightarrow> (mbuf \<Rightarrow> rte_mbuf) \<Rightarrow> bool" where
  "dpdk_burst dc own mbufs rs st st' mbufs' \<longleftrightarrow>
     dk_device_addrs st' = dk_device_addrs st \<and> dk_endpoint_addrs st' = dk_endpoint_addrs st
     \<and> (\<forall>d. dpdk_queue st' d = dpdk_queue st d @ map fst (filter (dpdk_goes dc own d) rs))
     \<and> (\<forall>m. m \<notin> fst ` set rs \<longrightarrow> mbufs' m = mbufs m)
     \<and> (\<forall>r \<in> set rs. mbufs' (fst r) = (mbufs (fst r))\<lparr>mb_data := dpdk_bytes st own r\<rparr>)"

lemma dpdk_bytes_cong:
  "dk_devices_count st' = dk_devices_count st \<Longrightarrow> dk_device_addrs st' = dk_device_addrs st
    \<Longrightarrow> dk_endpoint_addrs st' = dk_endpoint_addrs st \<Longrightarrow> dpdk_bytes st' own r = dpdk_bytes st own r"
  by (simp add: dpdk_bytes_def dpdk_addressed_def split: prod.split)

lemma dpdk_burst_step:
  assumes "dpdk_queued st (\<lambda>d. dpdk_goes dc own d r) (fst r) st1" "dk_devices_count st1 = dk_devices_count st"
    and rest: "dpdk_burst dc own (mbufs(fst r := (mbufs (fst r))\<lparr>mb_data := dpdk_bytes st own r\<rparr>)) rs st1 st' mbufs'"
    and "fst r \<notin> fst ` set rs"
  shows "dpdk_burst dc own mbufs (r # rs) st st' mbufs'"
proof -
  have addrs: "dk_device_addrs st1 = dk_device_addrs st" "dk_endpoint_addrs st1 = dk_endpoint_addrs st"
    using assms(1) by (simp_all add: dpdk_queued_def)
  note bytes = dpdk_bytes_cong [OF assms(2) addrs]
  have "mbufs' (fst q) = (mbufs (fst q))\<lparr>mb_data := dpdk_bytes st own q\<rparr>" if "q \<in> set rs" for q
  proof -
    have "fst q \<noteq> fst r" using that assms(4) by (metis image_eqI)
    with that rest show ?thesis by (simp add: dpdk_burst_def bytes)
  qed
  with assms addrs show ?thesis by (simp add: dpdk_burst_def dpdk_queued_def)
qed

context network_function
begin

lemma dpdk_receive_ok:
  assumes "dpdk_stack_ok dc batch (dk_stack s)" "nf_ok (dk_nf s)" "dk_mem s = (mbufs, h)"
    and dc: "devices_count = ucast dc" "own < dc" and contract: "dpdk_contract D (dk_freq s)"
    and "distinct bufs" "\<forall>m \<in> set bufs. length (mb_data (mbufs m)) = 2048 \<and> mb_port (mbufs m) = own"
    and "\<forall>d < dc. length (dpdk_queue (dk_stack s) d) + length bufs \<le> unat batch"
  shows "\<exists>rs nf' h' s' mbufs'. dpdk_serve D nf_handle (dk_freq s) mbufs bufs (dk_nf s) h = Some (rs, nf', h')
    \<and> dpdk_receive_list D nf_handle bufs s = Some s' \<and> dk_freq s' = dk_freq s \<and> dk_nf s' = nf' \<and> nf_ok nf'
    \<and> dpdk_stack_ok dc batch (dk_stack s') \<and> dk_mem s' = (mbufs', h')
    \<and> dpdk_burst dc own mbufs rs (dk_stack s) (dk_stack s') mbufs'"
  using assms(1-3) contract assms(7-9)
proof (induction bufs arbitrary: s mbufs h)
  case Nil
  then show ?case by (simp add: dpdk_burst_def)
next
  case (Cons m bufs)
  note ok = Cons.prems(1-2) and mem = Cons.prems(3) and room = Cons.prems(7)
  have m: "length (mb_data (mbufs m)) = 2048" "mb_port (mbufs m) = own" using Cons.prems(6) by simp_all
  obtain now where now: "os_clock_time_ns (dk_freq s) (fst (rte_rdtsc D h)) = Some now" "now \<noteq> TIME_MAX"
    using Cons.prems(4) unfolding dpdk_contract_def by blast
  have port: "mb_port (mbufs m) < dc" using m(2) dc(2) by simp
  have here: "length (dpdk_queue (dk_stack s) d) < unat batch" if "d < dc" for d using room that by auto
  obtain nf1 packet cmds s1 where
    handled: "nf_handle (dk_nf s) (dpdk_packet (mbufs m) now) = Some (nf1, packet, cmds)" and
    s1: "dpdk_handle D nf_handle m s = Some s1" "dk_freq s1 = dk_freq s" "dpdk_stack_ok dc batch (dk_stack s1)" "nf_ok nf1" "dk_nf s1 = nf1"
      "dk_mem s1 = (mbufs(m := (mbufs m)\<lparr>mb_data := dpdk_bytes (dk_stack s) own (m, packet, cmds)\<rparr>), snd (rte_rdtsc D h))"
      "dpdk_queued (dk_stack s) (\<lambda>d. dpdk_goes dc own d (m, packet, cmds)) m (dk_stack s1)"
    by (rule dpdk_handle_ok [OF ok mem dc(1) m(1) port now here, unfolded m(2)])
  let ?mbufs = "mbufs(m := (mbufs m)\<lparr>mb_data := dpdk_bytes (dk_stack s) own (m, packet, cmds)\<rparr>)"
  have rest: "\<forall>m \<in> set bufs. length (mb_data (?mbufs m)) = 2048 \<and> mb_port (?mbufs m) = own" "distinct bufs" "m \<notin> set bufs"
    using Cons.prems(5,6) by auto
  have room1: "\<forall>d < dc. length (dpdk_queue (dk_stack s1) d) + length bufs \<le> unat batch"
    using room s1(7) by (auto simp: dpdk_queued_def)
  have hyps: "nf_ok (dk_nf s1)" "dpdk_contract D (dk_freq s1)" using s1(2,4,5) Cons.prems(4) by simp_all
  obtain rs nf' h' s' mbufs' where ih: "dpdk_serve D nf_handle (dk_freq s) ?mbufs bufs nf1 (snd (rte_rdtsc D h)) = Some (rs, nf', h')"
    "dpdk_receive_list D nf_handle bufs s1 = Some s'" "dk_freq s' = dk_freq s" "dk_nf s' = nf'" "nf_ok nf'"
    "dpdk_stack_ok dc batch (dk_stack s')" "dk_mem s' = (mbufs', h')" "dpdk_burst dc own ?mbufs rs (dk_stack s1) (dk_stack s') mbufs'"
    using Cons.IH [OF s1(3) hyps(1) s1(6) hyps(2) rest(2,1) room1, unfolded s1(2,5)] by blast
  have same: "dpdk_serve D nf_handle (dk_freq s) mbufs bufs nf1 (snd (rte_rdtsc D h)) = Some (rs, nf', h')"
    using ih(1) rest(3) by (subst dpdk_serve_cong [where mbufs' = ?mbufs]) auto
  have "m \<notin> fst ` set rs" using dpdk_serve_bufs [OF same] rest(3) by (metis set_map)
  then have "dpdk_burst dc own mbufs ((m, packet, cmds) # rs) (dk_stack s) (dk_stack s') mbufs'"
    using s1(3,7) ih(8) ok(1) by (intro dpdk_burst_step [where ?st1.0 = "dk_stack s1"]) (simp_all add: dpdk_stack_ok_def)
  with handled now same s1 ih show ?case by simp
qed

end

section \<open>A poll\<close>

text \<open>No buffer waits between two polls.\<close>

definition dpdk_idle :: "('nf \<Rightarrow> bool) \<Rightarrow> device_t \<Rightarrow> u16 \<Rightarrow> ('nf, 'h) dpdk_state \<Rightarrow> bool" where
  "dpdk_idle nf_ok dc batch s \<longleftrightarrow> dpdk_stack_ok dc batch (dk_stack s) \<and> nf_ok (dk_nf s)
     \<and> dk_to_tx_count (dk_stack s) = [0, 0]"

definition dpdk_flushed :: "'h dpdk \<Rightarrow> device_t \<Rightarrow> mbuf list \<Rightarrow> 'h dpdk_mem \<Rightarrow> 'h dpdk_mem" where
  "dpdk_flushed D d bufs mem =
     (let (nb_tx, mem) = rte_eth_tx_burst D d bufs mem in fold (rte_pktmbuf_free D) (drop (unat nb_tx) bufs) mem)"

lemma dpdk_flush_device_ok:
  assumes ok: "dpdk_stack_ok dc batch (dk_stack s)" and d: "unat d < 2"
  shows "dpdk_flush_device D d s = Some (s\<lparr>dk_stack := (dk_stack s)\<lparr>dk_to_tx_count := (dk_to_tx_count (dk_stack s))[unat d := 0]\<rparr>,
      dk_mem := dpdk_flushed D d (dpdk_queue (dk_stack s) d) (dk_mem s)\<rparr>)"
proof -
  have "length (dk_to_tx (dk_stack s) ! unat d) = unat batch" "dk_to_tx_count (dk_stack s) ! unat d \<le> batch"
    using ok d by (auto simp: dpdk_stack_ok_def)
  then have "unat (dk_to_tx_count (dk_stack s) ! unat d) \<le> length (dk_to_tx (dk_stack s) ! unat d)" by (simp add: word_le_nat_alt)
  note free = dpdk_free_loop_list [OF this]
  show ?thesis
    using ok d by (simp add: free dpdk_flush_device_def dpdk_flushed_def dpdk_stack_ok_def dpdk_queue_def split_beta Let_def)
qed

lemma dpdk_flush_stack_ok:
  assumes "dpdk_stack_ok dc batch st"
  shows "dpdk_stack_ok dc batch (st\<lparr>dk_to_tx_count := (dk_to_tx_count st)[i := 0]\<rparr>)"
  using assms set_update_subset_insert [of "dk_to_tx_count st" i 0] by (auto simp: dpdk_stack_ok_def)

text \<open>The devices in their order.\<close>

lemma foreach_device_list:
  assumes "dc \<le> 2"
  shows "foreach_device f dc 0 s = (if dc = 0 then Some s else do { s \<leftarrow> f 0 s; if dc = 1 then Some s else f 1 s })"
proof -
  have "dc = 0 \<or> dc = 1 \<or> dc = 2" using assms by (simp add: word_unat_eq_iff word_le_nat_alt) linarith
  moreover have ends: "foreach_device f 1 1 = Some" "foreach_device f 2 2 = Some"
    by (rule ext, simp add: foreach_device.simps)+
  moreover have "foreach_device f 2 1 = f 1"
    by (rule ext) (simp add: foreach_device.simps [of f 2 1] ends)
  ultimately show ?thesis by (elim disjE) (simp_all add: foreach_device.simps [of f _ 0])
qed
text \<open>The memory after all devices have been flushed, and the queue that a burst gives a device.\<close>

definition dpdk_flush_all :: "'h dpdk \<Rightarrow> device_t \<Rightarrow> (device_t \<Rightarrow> mbuf list) \<Rightarrow> 'h dpdk_mem \<Rightarrow> 'h dpdk_mem" where
  "dpdk_flush_all D dc queues mem =
     (let mem = dpdk_flushed D 0 (queues 0) mem in if dc = 1 then mem else dpdk_flushed D 1 (queues 1) mem)"

definition dpdk_sending :: "device_t \<Rightarrow> device_t \<Rightarrow> served list \<Rightarrow> device_t \<Rightarrow> mbuf list" where
  "dpdk_sending dc own rs d = map fst (filter (dpdk_goes dc own d) rs)"

lemma dpdk_flush_ok:
  assumes ok: "dpdk_stack_ok dc batch (dk_stack s)" and rest: "\<And>d. unat d < 2 \<Longrightarrow> dc \<le> d \<Longrightarrow> dpdk_queue (dk_stack s) d = []"
  shows "foreach_device (dpdk_flush_device D) dc 0 s = Some (s\<lparr>dk_stack := (dk_stack s)\<lparr>dk_to_tx_count := [0, 0]\<rparr>,
      dk_mem := dpdk_flush_all D dc (dpdk_queue (dk_stack s)) (dk_mem s)\<rparr>)"
proof -
  have dc: "dc \<le> 2" "dc \<noteq> 0" using ok by (auto simp: dpdk_stack_ok_def)
  have "length (dk_to_tx_count (dk_stack s)) = 2" using ok by (simp add: dpdk_stack_ok_def)
  then obtain c0 c1 where counts: "dk_to_tx_count (dk_stack s) = [c0, c1]" by (auto simp: length_Suc_conv numeral_2_eq_2)
  let ?s1 = "s\<lparr>dk_stack := (dk_stack s)\<lparr>dk_to_tx_count := (dk_to_tx_count (dk_stack s))[unat (0 :: device_t) := 0]\<rparr>,
      dk_mem := dpdk_flushed D 0 (dpdk_queue (dk_stack s) 0) (dk_mem s)\<rparr>"
  have ok1: "dpdk_stack_ok dc batch (dk_stack ?s1)" using dpdk_flush_stack_ok [OF ok] by simp
  have one: "dpdk_queue (dk_stack ?s1) 1 = dpdk_queue (dk_stack s) 1" by (simp add: dpdk_queue_def)
  show ?thesis
  proof (cases "dc = 1")
    case True
    then have "unat c1 = 0" using dpdk_queue_length [OF ok, of 1] rest [of 1] counts by simp
    then have "c1 = 0" by (simp add: word_unat_eq_iff)
    then show ?thesis using True counts dpdk_flush_device_ok [OF ok, of 0 D] dc
      by (simp add: foreach_device_list dpdk_flush_all_def)
  next
    case False
    then show ?thesis using counts dpdk_flush_device_ok [OF ok, of 0 D] dpdk_flush_device_ok [OF ok1, of 1 D, unfolded one] dc
      by (simp add: foreach_device_list dpdk_flush_all_def Let_def)
  qed
qed

context network_function
begin

lemma dpdk_poll_ok:
  assumes idle: "dpdk_idle nf_ok dc batch s" and dc: "devices_count = ucast dc" "own < dc" and contract: "dpdk_contract D (dk_freq s)"
    and batch: "batch < 0x8000" and rx: "rte_eth_rx_burst D own batch (dk_mem s) = (bufs, mbufs, h)"
  obtains rs nf' h' s' mbufs' where "dpdk_serve D nf_handle (dk_freq s) mbufs bufs (dk_nf s) h = Some (rs, nf', h')"
    "dpdk_poll D batch nf_handle own s = Some s'" "dpdk_idle nf_ok dc batch s'" "dk_freq s' = dk_freq s" "dk_nf s' = nf'"
    "dk_mem s' = dpdk_flush_all D dc (dpdk_sending dc own rs) (mbufs', h')" "map fst rs = bufs" "distinct bufs"
    "\<forall>r \<in> set rs. mbufs' (fst r) = (mbufs (fst r))\<lparr>mb_data := dpdk_bytes (dk_stack s) own r\<rparr>"
proof -
  let ?s = "s\<lparr>dk_mem := (mbufs, h)\<rparr>"
  have ok: "dpdk_stack_ok dc batch (dk_stack ?s)" "nf_ok (dk_nf ?s)" and counts: "dk_to_tx_count (dk_stack s) = [0, 0]"
    using idle by (simp_all add: dpdk_idle_def)
  have count: "dk_devices_count (dk_stack s) = dc" "dc \<le> 2" using ok(1) by (simp_all add: dpdk_stack_ok_def)
  have bufs: "length bufs \<le> unat batch" "distinct bufs" "\<forall>m \<in> set bufs. length (mb_data (mbufs m)) = 2048 \<and> mb_port (mbufs m) = own"
    using contract rx unfolding dpdk_contract_def by blast+
  have short: "length bufs < 0x8000" using bufs(1) batch by (simp add: word_less_nat_alt)
  have empty: "dpdk_queue (dk_stack s) d = []" if "unat d < 2" for d
    using that counts by (auto simp: dpdk_queue_def less_2_cases_iff)
  have room: "\<forall>d < dc. length (dpdk_queue (dk_stack ?s) d) + length bufs \<le> unat batch"
    using empty two_devices [OF _ count(2)] bufs(1) by simp
  have contract': "dpdk_contract D (dk_freq ?s)" using contract by simp
  obtain rs nf' h' s1 mbufs' where r: "dpdk_serve D nf_handle (dk_freq s) mbufs bufs (dk_nf s) h = Some (rs, nf', h')"
    "dpdk_receive_list D nf_handle bufs ?s = Some s1" "dk_freq s1 = dk_freq s" "dk_nf s1 = nf'" "nf_ok nf'"
    "dpdk_stack_ok dc batch (dk_stack s1)" "dk_mem s1 = (mbufs', h')" "dpdk_burst dc own mbufs rs (dk_stack s) (dk_stack s1) mbufs'"
    using dpdk_receive_ok [OF ok _ dc contract' bufs(2,3) room] by auto
  have queues: "dpdk_queue (dk_stack s1) d = dpdk_sending dc own rs d" if "unat d < 2" for d
    using r(8) empty [OF that] by (simp add: dpdk_burst_def dpdk_sending_def)
  have "dpdk_queue (dk_stack s1) d = []" if "unat d < 2" "dc \<le> d" for d
    using queues [OF that(1)] that(2) by (auto simp: dpdk_sending_def dpdk_goes_def dpdk_sends_def filter_empty_conv)
  note flush = dpdk_flush_ok [OF r(6) this, of D]
  have all: "dpdk_flush_all D dc (dpdk_queue (dk_stack s1)) (mbufs', h') = dpdk_flush_all D dc (dpdk_sending dc own rs) (mbufs', h')"
    by (simp add: dpdk_flush_all_def queues Let_def)
  have count1: "dk_devices_count (dk_stack s1) = dc" using r(6) by (simp add: dpdk_stack_ok_def)
  let ?s' = "s1\<lparr>dk_stack := (dk_stack s1)\<lparr>dk_to_tx_count := [0, 0]\<rparr>, dk_mem := dpdk_flush_all D dc (dpdk_sending dc own rs) (mbufs', h')\<rparr>"
  have "dpdk_poll D batch nf_handle own s = Some ?s'"
    using r(2) flush count1 all r(7) by (simp add: dpdk_poll_def rx dpdk_receive_loop_list [OF short])
  moreover have "dpdk_idle nf_ok dc batch ?s'" using r(4-6) by (simp add: dpdk_idle_def dpdk_stack_ok_def)
  ultimately show thesis
    using r bufs(2) dpdk_serve_bufs [OF r(1)] by (intro that [of rs nf' h' ?s' mbufs']) (simp_all add: dpdk_burst_def)
qed

lemma dpdk_poll_idle:
  assumes "dpdk_idle nf_ok dc batch s" "devices_count = ucast dc" "own < dc" "dpdk_contract D (dk_freq s)" "batch < 0x8000"
  shows "\<exists>s'. dpdk_poll D batch nf_handle own s = Some s' \<and> dpdk_idle nf_ok dc batch s' \<and> dk_freq s' = dk_freq s"
proof -
  obtain bufs mbufs h where "rte_eth_rx_burst D own batch (dk_mem s) = (bufs, mbufs, h)" by (metis prod.collapse)
  from dpdk_poll_ok [OF assms this] show ?thesis by blast
qed

lemma dpdk_rounds_ok:
  assumes "dpdk_idle nf_ok dc batch s" "devices_count = ucast dc" "dpdk_contract D (dk_freq s)" "batch < 0x8000"
  shows "\<exists>s'. dpdk_rounds D batch nf_handle k s = Some s' \<and> dpdk_idle nf_ok dc batch s'"
  using assms(1,3)
proof (induction k arbitrary: s)
  case 0
  then show ?case by simp
next
  case (Suc k)
  have dc: "dk_devices_count (dk_stack s) = dc" "dc \<le> 2" "0 < dc" using Suc.prems by (simp_all add: dpdk_idle_def dpdk_stack_ok_def)
  note poll = dpdk_poll_idle [OF _ assms(2) _ _ assms(4)]
  obtain s1 where s1: "dpdk_poll D batch nf_handle 0 s = Some s1" "dpdk_idle nf_ok dc batch s1" "dk_freq s1 = dk_freq s"
    using poll [OF Suc.prems(1) dc(3) Suc.prems(2)] by blast
  obtain s2 where s2: "foreach_device (dpdk_poll D batch nf_handle) dc 0 s = Some s2" "dpdk_idle nf_ok dc batch s2" "dk_freq s2 = dk_freq s"
  proof (cases "dc = 1")
    case True
    then show thesis using s1 dc by (intro that [of s1]) (simp_all add: foreach_device_list)
  next
    case False
    then have "1 < dc" using dc by (simp add: word_less_nat_alt word_le_nat_alt word_unat_eq_iff)
    from poll [OF s1(2) this] s1(3) Suc.prems(2) obtain s2 where
      "dpdk_poll D batch nf_handle 1 s1 = Some s2" "dpdk_idle nf_ok dc batch s2" "dk_freq s2 = dk_freq s" by auto
    then show thesis using False s1(1) dc by (intro that [of s2]) (simp_all add: foreach_device_list)
  qed
  from Suc.IH [OF s2(2)] s2 Suc.prems(2) dc(1) show ?case by simp
qed

end
section \<open>Initialisation\<close>

lemma dpdk_device_init_ok:
  assumes "fst (dpdk_device_init D batch device pool st h) = Inr st'" "dpdk_stack_ok dc batch st"
    and mac: "\<forall>d w. length (rte_eth_macaddr_get D d w) = 6"
  shows "dpdk_stack_ok dc batch st' \<and> dk_to_tx_count st' = dk_to_tx_count st"
proof -
  from assms(1) obtain h1 device_addrs endpoint_addrs where
    "arr_set (dk_device_addrs st) (ucast device) (rte_eth_macaddr_get D device h1) = Some device_addrs"
    "arr_set (dk_endpoint_addrs st) (ucast device) [ucast device, 0, 0, 0, 0, 0] = Some endpoint_addrs"
    "st' = st\<lparr>dk_device_addrs := device_addrs, dk_endpoint_addrs := endpoint_addrs\<rparr>"
    by (auto simp: dpdk_device_init_def fst_and_then_Inr fatal_def Let_def split_beta split: if_splits)
  then show ?thesis
    using assms(2) mac set_update_subset_insert [of "dk_device_addrs st" "unat device" "rte_eth_macaddr_get D device h1"]
      set_update_subset_insert [of "dk_endpoint_addrs st" "unat device" "[ucast device, 0, 0, 0, 0, 0]"]
    by (auto dest!: arr_set_SomeD simp: dpdk_stack_ok_def)
qed

lemma dpdk_init_devices_ok:
  assumes "fst (dpdk_init_devices D batch pool count device st h) = Inr st'" "dpdk_stack_ok dc batch st"
    and mac: "\<forall>d w. length (rte_eth_macaddr_get D d w) = 6"
  shows "dpdk_stack_ok dc batch st' \<and> dk_to_tx_count st' = dk_to_tx_count st"
  using assms(1,2)
proof (induction "unat (count - device)" arbitrary: device st h rule: less_induct)
  case less
  show ?case
  proof (cases "device < count")
    case False
    with less.prems show ?thesis by (simp add: dpdk_init_devices.simps)
  next
    case True
    from less.prems(1) True obtain st1 h1 where
      step: "fst (dpdk_device_init D batch device pool st h) = Inr st1"
      and rest: "fst (dpdk_init_devices D batch pool count (device + 1) st1 h1) = Inr st'"
      by (auto simp: dpdk_init_devices.simps [of D batch pool count device] fst_and_then_Inr)
    note st1 = dpdk_device_init_ok [OF step less.prems(2) mac]
    from less.hyps [OF word_loop_decreases [OF True] rest] st1 show ?thesis by simp
  qed
qed

lemma dpdk_main_init_ok:
  assumes "dpdk_main_init D batch nf_init om h = (Inr (freq, st, nf, om'), h')"
    and mac: "\<forall>d w. length (rte_eth_macaddr_get D d w) = 6"
  shows "dpdk_stack_ok (dk_devices_count st) batch st \<and> dk_to_tx_count st = [0, 0]
    \<and> nf_init om (dk_devices_count st) = Some (Some (nf, om')) \<and> dpdk_os_init (rte_get_tsc_hz D) = Inr (Some freq)"
proof -
  from assms(1) have "fst (dpdk_main_init D batch nf_init om h) = Inr (freq, st, nf, om')" by simp
  then obtain count pool h1 where count: "count \<noteq> 0" "unat count \<le> 2"
    and devices: "fst (dpdk_init_devices D batch pool count 0 (dpdk_statics batch\<lparr>dk_devices_count := count\<rparr>) h1) = Inr st"
    and nf: "nf_init om count = Some (Some (nf, om'))" and freq: "dpdk_os_init (rte_get_tsc_hz D) = Inr (Some freq)"
    by (auto simp: dpdk_main_init_def fst_and_then_Inr fatal_def Let_def split_beta MAX_DEVICES_def
        split: if_splits sum.splits option.splits prod.splits)
  have "dpdk_stack_ok count batch (dpdk_statics batch\<lparr>dk_devices_count := count\<rparr>)"
    using count by (simp add: dpdk_stack_ok_def dpdk_statics_def MAX_DEVICES_def word_neq_0_conv word_le_nat_alt)
  from dpdk_init_devices_ok [OF devices this mac] have st: "dpdk_stack_ok count batch st" "dk_to_tx_count st = [0, 0]"
    by (simp_all add: dpdk_statics_def MAX_DEVICES_def numeral_2_eq_2)
  then have "dk_devices_count st = count" by (simp add: dpdk_stack_ok_def)
  with st nf freq show ?thesis by simp
qed

section \<open>The stack does not get stuck\<close>

text \<open>
  From a successful initialisation on, with any number of rounds of the loop. The tables of the
  network function come from the modelled allocator, as they do when the stack is built over
  the Linux or the bare-metal layer; over the DPDK layer \<open>rte_calloc\<close> stands for it, which may also return
  \<open>NULL\<close>, and nothing checks that.
\<close>

definition dpdk_never_stuck ::
    "'h dpdk \<Rightarrow> (os_mem \<Rightarrow> device_t \<Rightarrow> ('nf \<times> os_mem) option option) \<Rightarrow> 'nf nf_handler \<Rightarrow> bool" where
  "dpdk_never_stuck D nf_init nf_handle \<longleftrightarrow>
     (\<forall>batch om h freq st nf om' mbufs h' k.
        dpdk_main_init D batch nf_init om h = (Inr (freq, st, nf, om'), h') \<and> alloc_ok om \<and> batch < 0x8000
        \<and> dpdk_contract D freq
        \<longrightarrow> dpdk_rounds D batch nf_handle k \<lparr>dk_freq = freq, dk_stack = st, dk_nf = nf, dk_mem = (mbufs, h')\<rparr> \<noteq> None)"

lemma dpdk_never_stuckI:
  assumes mac: "\<forall>d w. length (rte_eth_macaddr_get D d w) = 6" and nf: "nf_establishes nf_init nf_handle"
  shows "dpdk_never_stuck D nf_init nf_handle"
  unfolding dpdk_never_stuck_def
proof (intro allI impI, elim conjE)
  fix batch om h freq st nf om' mbufs h' k
  assume init: "dpdk_main_init D batch nf_init om h = (Inr (freq, st, nf, om'), h')" and om: "alloc_ok om"
    and batch: "batch < 0x8000" and contract: "dpdk_contract D freq"
  let ?s = "\<lparr>dk_freq = freq, dk_stack = st, dk_nf = nf, dk_mem = (mbufs, h')\<rparr>"
  note started = dpdk_main_init_ok [OF init mac]
  then have "nf_init om (dk_devices_count st) = Some (Some (nf, om'))" by blast
  from nf_establishesD [OF assms(2) om this] obtain nf_ok
    where ok: "network_function nf_handle nf_ok (ucast (dk_devices_count st))" "nf_ok nf" by blast
  have idle: "dpdk_idle nf_ok (dk_devices_count st) batch ?s" using started ok(2) by (simp add: dpdk_idle_def)
  have "dpdk_contract D (dk_freq ?s)" using contract by simp
  from network_function.dpdk_rounds_ok [OF ok(1) idle refl this batch]
  show "dpdk_rounds D batch nf_handle k ?s \<noteq> None" by fastforce
qed

text \<open>A machine with two devices, on which a poll finds a packet of 60 bytes in buffer 5.\<close>

definition example_dpdk :: "nat dpdk" where
  "example_dpdk = \<lparr>rte_eal_init = (\<lambda>h. (3, h)), rte_get_tsc_hz = 27, rte_eth_dev_count_avail = (\<lambda>h. 2),
     rte_pktmbuf_pool_create = (\<lambda>n h. (Some 0x1000, h)), rte_eth_dev_configure = (\<lambda>d h. (0, h)),
     rte_eth_tx_queue_setup = (\<lambda>d n h. (0, h)), rte_eth_rx_queue_setup = (\<lambda>d n pool h. (0, h)),
     rte_eth_dev_start = (\<lambda>d h. (0, h)), rte_eth_promiscuous_enable = (\<lambda>d h. h), rte_eth_promiscuous_get = (\<lambda>d h. 1),
     rte_eth_macaddr_get = (\<lambda>d h. [2, 0, 0, 0, 0, ucast d]),
     rte_eth_rx_burst = (\<lambda>d n (mbufs, h). (if n = 0 then [] else [5],
       mbufs(5 := \<lparr>mb_data = replicate 2048 7, mb_data_len = 60, mb_port = d\<rparr>), h + 1)),
     rte_eth_tx_burst = (\<lambda>d bufs (mbufs, h). (of_nat (length bufs), mbufs, h)),
     rte_pktmbuf_free = (\<lambda>m mem. mem), rte_rdtsc = (\<lambda>h. (of_nat h, h))\<rparr>"

definition example_freq :: cpu_freq where
  "example_freq = \<lparr>freq_numerator = 27, freq_denominator = 1000000000\<rparr>"

lemma example_dpdk_contract: "dpdk_contract example_dpdk example_freq"
proof -
  have "tsc div 27 * 1000000000 \<noteq> (TIME_MAX :: time_t)" for tsc :: u64
  proof
    assume "tsc div 27 * 1000000000 = TIME_MAX"
    moreover have "even (tsc div 27 * 1000000000 :: u64)" by simp
    moreover have "odd TIME_MAX" by (simp add: TIME_MAX_def)
    ultimately show False by simp
  qed
  moreover have "0 < unat n" if "n \<noteq> 0" for n :: u16 using that by (simp add: unat_gt_0)
  ultimately show ?thesis
    by (auto simp: dpdk_contract_def example_dpdk_def example_freq_def os_clock_time_ns_def Suc_le_eq)
qed

lemma example_dpdk_init:
  "\<exists>st. dpdk_main_init example_dpdk 32 (nop_main_init main_example_config) example_start 0
     = (Inr (example_freq, st, \<lparr>nop_wan_device = 1, nop_lan_device = 0\<rparr>, example_start), 0) \<and> dk_devices_count st = 2"
proof -
  have freq: "dpdk_os_init (rte_get_tsc_hz example_dpdk) = Inr (Some example_freq)"
    by (simp add: dpdk_os_init_def dpdk_reduce.simps [of 27] example_dpdk_def example_freq_def)
  have device: "\<exists>st'. dpdk_device_init example_dpdk 32 d pool st 0 = (Inr st', 0) \<and> dk_devices_count st' = dk_devices_count st
      \<and> length (dk_device_addrs st') = 2 \<and> length (dk_endpoint_addrs st') = 2"
    if "unat d < 2" "length (dk_device_addrs st) = 2" "length (dk_endpoint_addrs st) = 2" for d pool st
    using that by (simp add: dpdk_device_init_def example_dpdk_def and_then_def or_else_def)
  let ?st = "dpdk_statics 32\<lparr>dk_devices_count := 2\<rparr>"
  obtain st1 where st1: "dpdk_device_init example_dpdk 32 0 0x1000 ?st 0 = (Inr st1, 0)" "dk_devices_count st1 = 2"
    "length (dk_device_addrs st1) = 2" "length (dk_endpoint_addrs st1) = 2"
    using device [of 0 ?st] by (auto simp: dpdk_statics_def MAX_DEVICES_def)
  obtain st2 where st2: "dpdk_device_init example_dpdk 32 1 0x1000 st1 0 = (Inr st2, 0)" "dk_devices_count st2 = 2"
    using device [of 1 st1] st1 by auto
  have "dpdk_init_devices example_dpdk 32 0x1000 2 0 ?st 0 = (Inr st2, 0)"
    by (simp add: dpdk_init_devices.simps [of _ _ _ 2 0] dpdk_init_devices.simps [of _ _ _ 2 1] dpdk_init_devices.simps [of _ _ _ 2 2]
        st1 st2 and_then_def)
  moreover have "rte_eal_init example_dpdk 0 = (3, 0)" "rte_eth_dev_count_avail example_dpdk 0 = 2"
    "rte_pktmbuf_pool_create example_dpdk n 0 = (Some 0x1000, 0)" for n by (simp_all add: example_dpdk_def)
  moreover have "nop_nf_init main_example_config 2 = Some (Some \<lparr>nop_wan_device = 1, nop_lan_device = 0\<rparr>)"
    by (simp add: nop_nf_init_def os_config_get_device_def main_example_config_def
        os_config_get_correct config_ok_def c_string_def)
  ultimately show ?thesis
    using st2(2) by (simp add: dpdk_main_init_def freq MAX_DEVICES_def and_then_def or_else_def)
qed


section \<open>The buffers of a poll\<close>

text \<open>DPDK with a log of the buffers that are received, sent with their contents, and freed.\<close>

datatype dpdk_event = Received device_t "mbuf list" | Sent device_t "(mbuf \<times> rte_mbuf) list" | Freed mbuf

definition on_world :: "('h \<Rightarrow> 'a \<times> 'h) \<Rightarrow> 'h \<times> 'e \<Rightarrow> 'a \<times> 'h \<times> 'e" where
  "on_world f = (\<lambda>(h, e). let (x, h) = f h in (x, h, e))"

definition with_log :: "'h dpdk \<Rightarrow> ('h \<times> dpdk_event list) dpdk" where
  "with_log D = \<lparr>rte_eal_init = on_world (rte_eal_init D), rte_get_tsc_hz = rte_get_tsc_hz D,
     rte_eth_dev_count_avail = (\<lambda>(h, e). rte_eth_dev_count_avail D h),
     rte_pktmbuf_pool_create = (\<lambda>n. on_world (rte_pktmbuf_pool_create D n)),
     rte_eth_dev_configure = (\<lambda>d. on_world (rte_eth_dev_configure D d)),
     rte_eth_tx_queue_setup = (\<lambda>d n. on_world (rte_eth_tx_queue_setup D d n)),
     rte_eth_rx_queue_setup = (\<lambda>d n pool. on_world (rte_eth_rx_queue_setup D d n pool)),
     rte_eth_dev_start = (\<lambda>d. on_world (rte_eth_dev_start D d)),
     rte_eth_promiscuous_enable = (\<lambda>d (h, e). (rte_eth_promiscuous_enable D d h, e)),
     rte_eth_promiscuous_get = (\<lambda>d (h, e). rte_eth_promiscuous_get D d h),
     rte_eth_macaddr_get = (\<lambda>d (h, e). rte_eth_macaddr_get D d h),
     rte_eth_rx_burst = (\<lambda>d n (mbufs, h, e).
       let (bufs, mbufs, h) = rte_eth_rx_burst D d n (mbufs, h) in (bufs, mbufs, h, e @ [Received d bufs])),
     rte_eth_tx_burst = (\<lambda>d bufs (mbufs, h, e).
       let (nb_tx, mbufs', h) = rte_eth_tx_burst D d bufs (mbufs, h)
       in (nb_tx, mbufs', h, e @ [Sent d (map (\<lambda>m. (m, mbufs m)) (take (unat nb_tx) bufs))])),
     rte_pktmbuf_free = (\<lambda>m (mbufs, h, e). let (mbufs, h) = rte_pktmbuf_free D m (mbufs, h) in (mbufs, h, e @ [Freed m])),
     rte_rdtsc = on_world (rte_rdtsc D)\<rparr>"

lemma logged_contract:
  assumes "dpdk_contract D freq"
  shows "dpdk_contract (with_log D) freq"
proof -
  have "rte_eth_rx_burst D d n (fst mem, fst (snd mem)) = (bufs, mbufs, fst h)"
    if "rte_eth_rx_burst (with_log D) d n mem = (bufs, mbufs, h)" for d n mem bufs mbufs h
    using that by (auto simp: with_log_def split_beta Let_def)
  moreover have "fst (snd (rte_eth_tx_burst (with_log D) d [] mem)) = fst (snd (rte_eth_tx_burst D d [] (fst mem, fst (snd mem))))" for d mem
    by (simp add: with_log_def split_beta Let_def)
  moreover have "fst (rte_rdtsc (with_log D) h) = fst (rte_rdtsc D (fst h))" for h
    by (simp add: with_log_def on_world_def split_beta)
  ultimately show ?thesis using assms unfolding dpdk_contract_def by (metis fst_conv)
qed

lemma logged_serve:
  "dpdk_serve (with_log D) nf_handle freq mbufs bufs nf (h, e)
    = map_option (\<lambda>(rs, nf, h). (rs, nf, h, e)) (dpdk_serve D nf_handle freq mbufs bufs nf h)"
proof -
  have clock: "rte_rdtsc (with_log D) (h, e) = (fst (rte_rdtsc D h), snd (rte_rdtsc D h), e)" for h
    by (simp add: with_log_def on_world_def split_beta)
  show ?thesis
    by (induction bufs arbitrary: nf h)
      (auto simp: clock split_beta map_option_case split: Option.bind_splits option.splits)
qed

lemma logged_free:
  "snd (snd (fold (rte_pktmbuf_free (with_log D)) bufs mem)) = snd (snd mem) @ map Freed bufs"
  by (induction bufs arbitrary: mem) (simp_all add: with_log_def split_beta Let_def)

lemma logged_flushed:
  "\<exists>nb. snd (snd (dpdk_flushed (with_log D) d bufs (mbufs, h, e)))
      = e @ Sent d (map (\<lambda>m. (m, mbufs m)) (take nb bufs)) # map Freed (drop nb bufs)"
  by (rule exI [of _ "unat (fst (rte_eth_tx_burst D d bufs (mbufs, h)))"])
    (simp add: dpdk_flushed_def split_beta Let_def logged_free, simp add: with_log_def split_beta Let_def)

lemma logged_flushed_none:
  assumes "dpdk_contract D freq"
  shows "\<exists>h'. dpdk_flushed (with_log D) d [] (mbufs, h, e) = (mbufs, h', e @ [Sent d []])"
  using assms by (auto simp: dpdk_flushed_def with_log_def dpdk_contract_def split_beta Let_def prod_eq_iff)
text \<open>The buffers that go out of a poll on two devices, with their contents.\<close>

definition dpdk_outgoing :: "dpdk_stack \<Rightarrow> (mbuf \<Rightarrow> rte_mbuf) \<Rightarrow> device_t \<Rightarrow> served list \<Rightarrow> (mbuf \<times> rte_mbuf) list" where
  "dpdk_outgoing st mbufs own rs =
     map (\<lambda>r. (fst r, (mbufs (fst r))\<lparr>mb_data := dpdk_bytes st own r\<rparr>)) (filter (dpdk_goes 2 own (1 - own)) rs)"

lemma dpdk_flush_logged:
  assumes contract: "dpdk_contract D freq" and own: "own < 2"
    and none: "queues own = []"
  obtains nb where "snd (snd (dpdk_flush_all (with_log D) 2 queues (mbufs, h, e)))
    = e @ (if own = 0 then [Sent 0 []] else [])
        @ Sent (1 - own) (map (\<lambda>m. (m, mbufs m)) (take nb (queues (1 - own)))) # map Freed (drop nb (queues (1 - own)))
        @ (if own = 1 then [Sent 1 []] else [])"
proof -
  have "own = 0 \<or> own = 1" using two_devices [OF own] by (auto simp: word_unat_eq_iff)
  then show thesis
  proof
    assume own: "own = 0"
    obtain h1 where h1: "dpdk_flushed (with_log D) 0 [] (mbufs, h, e) = (mbufs, h1, e @ [Sent 0 []])"
      using logged_flushed_none [OF contract] by blast
    obtain nb where "snd (snd (dpdk_flushed (with_log D) 1 (queues 1) (mbufs, h1, e @ [Sent 0 []])))
        = (e @ [Sent 0 []]) @ Sent 1 (map (\<lambda>m. (m, mbufs m)) (take nb (queues 1))) # map Freed (drop nb (queues 1))"
      using logged_flushed [of D 1 "queues 1" mbufs h1 "e @ [Sent 0 []]"] by blast
    then show thesis using own none h1 by (intro that [of nb]) (simp add: dpdk_flush_all_def)
  next
    assume own: "own = 1"
    obtain nb where nb: "snd (snd (dpdk_flushed (with_log D) 0 (queues 0) (mbufs, h, e)))
        = e @ Sent 0 (map (\<lambda>m. (m, mbufs m)) (take nb (queues 0))) # map Freed (drop nb (queues 0))"
      using logged_flushed [of D 0 "queues 0" mbufs h e] by blast
    obtain mbufs1 h1 e1 where mem1: "dpdk_flushed (with_log D) 0 (queues 0) (mbufs, h, e) = (mbufs1, h1, e1)" by (metis prod.collapse)
    obtain h2 where "dpdk_flushed (with_log D) 1 [] (mbufs1, h1, e1) = (mbufs1, h2, e1 @ [Sent 1 []])"
      using logged_flushed_none [OF contract] by blast
    then show thesis using own none nb mem1 by (intro that [of nb]) (simp add: dpdk_flush_all_def)
  qed
qed

lemma dpdk_poll_logged:
  assumes nf: "network_function nf_handle nf_ok 2" and idle: "dpdk_idle nf_ok 2 batch s" and batch: "batch < 0x8000"
    and contract: "dpdk_contract D (dk_freq s)" and device: "device < 2"
    and mem: "dk_mem s = (ms, h, e)" and rx: "rte_eth_rx_burst D device batch (ms, h) = (bufs, mbufs, h1)"
  obtains rs nf' h2 s' nb where "dpdk_serve D nf_handle (dk_freq s) mbufs bufs (dk_nf s) h1 = Some (rs, nf', h2)"
    "dpdk_poll (with_log D) batch nf_handle device s = Some s'" "dpdk_idle nf_ok 2 batch s'" "dk_nf s' = nf'" "map fst rs = bufs" "distinct bufs"
    "snd (snd (dk_mem s')) = e @ Received device bufs # (if device = 0 then [Sent 0 []] else [])
        @ Sent (1 - device) (take nb (dpdk_outgoing (dk_stack s) mbufs device rs))
        # map Freed (map fst (drop nb (dpdk_outgoing (dk_stack s) mbufs device rs)))
        @ (if device = 1 then [Sent 1 []] else [])"
proof -
  let ?e = "e @ [Received device bufs]"
  have dc: "(2 :: size_t) = ucast (2 :: device_t)" by simp
  have rx': "rte_eth_rx_burst (with_log D) device batch (dk_mem s) = (bufs, mbufs, h1, ?e)"
    using rx by (simp add: mem with_log_def)
  obtain rs nf' h' s' mbufs' where r:
    "dpdk_serve (with_log D) nf_handle (dk_freq s) mbufs bufs (dk_nf s) (h1, ?e) = Some (rs, nf', h')"
    "dpdk_poll (with_log D) batch nf_handle device s = Some s'" "dpdk_idle nf_ok 2 batch s'" "dk_nf s' = nf'"
    "dk_mem s' = dpdk_flush_all (with_log D) 2 (dpdk_sending 2 device rs) (mbufs', h')" "map fst rs = bufs" "distinct bufs"
    "\<forall>r \<in> set rs. mbufs' (fst r) = (mbufs (fst r))\<lparr>mb_data := dpdk_bytes (dk_stack s) device r\<rparr>"
    by (rule network_function.dpdk_poll_ok [OF nf idle dc device logged_contract [OF contract] batch rx'])
  from r(1) obtain h2 where serve: "dpdk_serve D nf_handle (dk_freq s) mbufs bufs (dk_nf s) h1 = Some (rs, nf', h2)" "h' = (h2, ?e)"
    by (auto simp: logged_serve)
  have none: "dpdk_sending 2 device rs device = []"
    by (auto simp: dpdk_sending_def dpdk_goes_def dpdk_sends_def filter_empty_conv)
  obtain nb where log: "snd (snd (dk_mem s')) = ?e @ (if device = 0 then [Sent 0 []] else [])
        @ Sent (1 - device) (map (\<lambda>m. (m, mbufs' m)) (take nb (dpdk_sending 2 device rs (1 - device))))
        # map Freed (drop nb (dpdk_sending 2 device rs (1 - device)))
        @ (if device = 1 then [Sent 1 []] else [])"
    by (rule dpdk_flush_logged [OF contract device, where queues = "dpdk_sending 2 device rs", OF none, of mbufs' h2 ?e])
      (simp add: r(5) serve(2))
  have out: "dpdk_outgoing (dk_stack s) mbufs device rs = map (\<lambda>m. (m, mbufs' m)) (dpdk_sending 2 device rs (1 - device))"
    using r(8) by (simp add: dpdk_outgoing_def dpdk_sending_def)
  show thesis
    by (rule that [OF serve(1) r(2-4,6,7), of nb]) (simp add: log out take_map drop_map comp_def)
qed


text \<open>The buffers that an event takes from DPDK, and those that it gives back.\<close>

fun event_received :: "dpdk_event \<Rightarrow> mbuf list" where
  "event_received (Received d bufs) = bufs"
| "event_received (Sent d bufs) = []"
| "event_received (Freed m) = []"

fun event_returned :: "dpdk_event \<Rightarrow> mbuf list" where
  "event_returned (Received d bufs) = []"
| "event_returned (Sent d bufs) = map fst bufs"
| "event_returned (Freed m) = [m]"

lemma event_freed [simp]:
  "concat (map (event_received \<circ> (Freed \<circ> f)) ms) = []" "concat (map (event_returned \<circ> (Freed \<circ> f)) ms) = map f ms"
  by (induction ms) simp_all

definition example_dpdk_state :: "'nf \<Rightarrow> ('nf, nat \<times> dpdk_event list) dpdk_state" where
  "example_dpdk_state nf = \<lparr>dk_freq = example_freq, dk_stack = (dpdk_statics 32)\<lparr>dk_devices_count := 2,
       dk_device_addrs := [[2, 0, 0, 0, 0, 0], [2, 0, 0, 0, 0, 1]], dk_endpoint_addrs := [[0, 0, 0, 0, 0, 0], [1, 0, 0, 0, 0, 0]]\<rparr>, dk_nf = nf,
     dk_mem = (\<lambda>m. \<lparr>mb_data = [], mb_data_len = 0, mb_port = 0\<rparr>, 0, [])\<rparr>"

lemma example_dpdk_idle: "nf_ok nf \<Longrightarrow> dpdk_idle nf_ok 2 32 (example_dpdk_state nf)"
  by (simp add: dpdk_idle_def example_dpdk_state_def dpdk_stack_ok_def dpdk_statics_def MAX_DEVICES_def numeral_2_eq_2)

definition example_mbuf :: rte_mbuf where
  "example_mbuf = \<lparr>mb_data = replicate 2048 7, mb_data_len = 60, mb_port = 0\<rparr>"

definition example_mbufs :: "mbuf \<Rightarrow> rte_mbuf" where
  "example_mbufs = (\<lambda>m. \<lparr>mb_data = [], mb_data_len = 0, mb_port = 0\<rparr>)(5 := example_mbuf)"

lemma example_mbufs_5 [simp]: "example_mbufs 5 = example_mbuf"
  by (simp add: example_mbufs_def)

lemma example_dpdk_receive:
  "rte_eth_rx_burst example_dpdk 0 32 (\<lambda>m. \<lparr>mb_data = [], mb_data_len = 0, mb_port = 0\<rparr>, 0)
    = ([5], example_mbufs, 1)"
  by (simp add: example_dpdk_def example_mbuf_def example_mbufs_def)

lemma example_dpdk_serve:
  assumes "nf_handle nf (dpdk_packet example_mbuf 0) = Some (nf', packet, cmds)"
  shows "dpdk_serve example_dpdk nf_handle example_freq example_mbufs [5] nf 1 = Some ([(5, packet, cmds)], nf', 1)"
  using assms by (simp add: example_dpdk_def example_freq_def os_clock_time_ns_def)



end
