(* ===== verification/Spec2Isabelle.thy ===== *)
theory Spec2Isabelle
  imports Nf_Router Program_Runs Net_Dpdk
begin

text \<open>
  Klint: network functions written in C, the data structures they share (\<open>env/src/structs\<close>,
  \<open>env/include/structs\<close>) and the environment they run in (\<open>env/src\<close>, \<open>env/include\<close>), which goes
  down to the driver of the 82599 network card. This library models them and proves what makes
  them correct.

  \<^bold>\<open>The program.\<close> A build links one network function (\<open>nf/<name>\<close>), a network stack
  (\<open>env/src/net/tinynf\<close>, or \<open>env/src/net/dpdk\<close> over the DPDK library) and an operating system layer (\<open>env/src/os/<system>\<close>). \<open>main\<close> enumerates
  the PCI devices, lets the network function read its configuration and allocate its tables
  (\<open>nf_init\<close>), sets up the cards and one agent per card, and then loops over the agents for ever.
  An agent has a ring of 256 descriptors that the receive queue of its card and one transmit queue
  of each other card share. For every packet in it the network function's \<open>nf_handle\<close> is
  called, which keeps its flows in a hash map (\<open>structs/map.h\<close>) whose values are indexes from an
  expiring pool (\<open>structs/index_pool.h\<close>), and which answers with transmission commands; these set the
  lengths with which the packet is handed to the transmit queues.

  \<^bold>\<open>The conventions.\<close> Integers have the width they have in C, so that additions wrap around. C
  structures are records, arrays are lists, and memory that is reached through pointers is a function
  from addresses to bytes (\<open>mem\<close>) or, where each object has one owner, a list beside its base
  address. A result of type \<open>option\<close> is \<open>None\<close> where C leaves the access undefined (an index out of
  range, a division by zero) or where the allocator halts; a theorem that says that a function
  gives \<open>Some\<close> thus says that it stays within its arrays. In the driver a run ends in a sum of
  a failure and a result. Transmission commands are a list of values of type \<open>tx\<close>, in the order of
  the calls. Code outside the repository is an argument: the registers of the card, the PCI bus and
  the sleeping function (\<open>hardware\<close>), what the card writes into shared memory, the clock, the
  configuration, the longest prefix match, and what the operating systems answer.

  \<^bold>\<open>The theories.\<close>
  \<^item> \<open>Prelude\<close>: types, checked array accesses, lemmas on words and loops.
  \<^item> \<open>Os_Memory\<close> (\<open>os/memory.h\<close>, \<open>memory_alloc.c\<close>), \<open>Os_Config\<close> (\<open>config.c\<close>, \<open>config.h\<close>,
    \<open>skeleton.h\<close>), \<open>Os_Platform\<close> (clock, PCI, address translation, byte order of the three systems).
  \<^item> \<open>Struct_Map\<close>: \<open>map.c\<close>, a hash map with open addressing and chain counters. The abstraction
    \<open>map_abs\<close> and the invariant \<open>map_inv\<close> are those of the contracts in the C file; lookup, insertion
    and removal refine the operations on partial functions. \<open>Struct_Index_Pool\<close>: \<open>index_pool.c\<close>.
    \<open>Struct_Cht\<close>: \<open>cht.h\<close>, the consistent hash table.
  \<^item> \<open>Expiring_Table\<close>: the combination of the two that every network function uses, as a locale over
    the laws of the map, the pool and the encoding of keys. It is interpreted for flows, addresses
    and Ethernet addresses.
  \<^item> \<open>Net_Packet\<close> (\<open>packet.h\<close>), \<open>Net_Flow\<close> (\<open>struct flow\<close> and the header reads of the handlers).
  \<^item> \<open>Nf_Firewall\<close>, \<open>Nf_Nat\<close>, \<open>Nf_Maglev\<close>, \<open>Nf_Policer\<close>, \<open>Nf_Nop\<close>, \<open>Nf_Router\<close>, \<open>Nf_Bridge\<close> with
    \<open>Spanning_Tree\<close>, \<open>Nf_Dhcp\<close>: one network function each, with \<open>nf_init\<close> and \<open>nf_handle\<close> as
    \<open><prefix>_nf_init\<close> and \<open><prefix>_nf_handle\<close>, its invariant, what a handled packet does to the tables
    on every branch, and the properties of runs of packets.
  \<^item> \<open>Net_Tx\<close>: the transmission commands and the packet handler of \<open>tinynf/main.c\<close>.
  \<^item> \<open>Ixgbe_Regs\<close>, \<open>Ixgbe_Device\<close>, \<open>Ixgbe_Agent\<close>, \<open>Ixgbe_Run\<close>: \<open>tinynf/ixgbe.c\<close> from the register file
    to \<open>tn_run\<close>. \<open>Ixgbe_Ring\<close>: driver and card as a transition system on one ring of descriptors.
  \<^item> \<open>Net_Main\<close>: \<open>main\<close>. The locale \<open>network_function\<close> is what it asks of a network function and is
    interpreted on seven of them; it is a sublocale of \<open>tn_handler\<close>, what the driver asks of a
    packet handler. \<open>Program_Runs\<close>: runs of the whole program as sequences of events at the rings of the
    cards, with the properties of the firewall and of the policer carried over to them.
  \<^item> \<open>Net_Dpdk\<close>: \<open>dpdk/main.c\<close>, the stack over DPDK, whose functions are an argument; it rests on the
    same locale \<open>network_function\<close>.

  \<^bold>\<open>Loops.\<close> Loops that count are functions with a measure and end for every input. The two loops of
  \<open>map.c\<close> and the DHCP pool that may not end are partial functions with results in \<open>option\<close>, and it is
  proved when they end. The infinite loop of the driver is described by the state after any number
  of rounds. There is no fuel.

  \<^bold>\<open>Not modelled.\<close> The VeriFast annotations and their lemma files (\<open>env/include/proof\<close>) are proofs,
  not code; \<open>map_inv\<close> and \<open>pool_inv\<close> are taken from them. DPDK is a library that is not in the
  repository; what its documentation promises of bursts of packets is the hypothesis
  \<open>dpdk_contract\<close>. The longest prefix match of the router is only an
  interface. Logging, halting and single-instruction wrappers have nothing to verify; assembly,
  linker scripts, the Python verifier (\<open>tool\<close>), the benchmarks and the Rust version of the policer
  are other languages or no part of the program.
\<close>

end
